(* ===== verification/Prelude.thy ===== *)
theory Prelude
  imports Main "HOL-Library.Word" "HOL-Library.Multiset" "HOL-Library.Monad_Syntax"
begin

text \<open>
  Shared vocabulary of the development.

  \<^item> Bytes. A C \<^verbatim>\<open>char\<close> or \<^verbatim>\<open>unsigned char\<close> is a HOL \<open>char\<close> (eight bits); its
    unsigned value is \<open>ord c\<close>. A NUL-terminated string is a \<open>char list\<close> without the
    terminator, unless a definition says that it is a memory block.
  \<^item> Memory blocks. What \<^verbatim>\<open>malloc\<close> or an array member provides is a \<open>char list\<close>
    whose length is the size of the allocation. Reads and writes go through \<open>peek\<close>,
    \<open>poke\<close> and \<open>memmove\<close>, which are \<open>None\<close> when any byte lies outside the
    block. An operation of type \<open>_ option\<close> over such blocks is \<open>None\<close> exactly when
    the C code would access memory it does not own, so a theorem \<open>\<exists>r. f x = Some r\<close> is
    memory safety.
  \<^item> Allocation. \<^verbatim>\<open>malloc\<close> may fail and returns uninitialised memory. Both are under
    the control of an \<open>allocator\<close>, an argument of every operation that allocates: \<open>None\<close>
    is the NULL result, \<open>Some f\<close> a block whose byte \<open>i\<close> happens to be \<open>f i\<close>.
  \<^item> \<^verbatim>\<open>size_t\<close> is \<open>nat\<close>; where a sum or a product of the code can wrap around, the
    definition uses \<open>szadd\<close>, \<open>szsub\<close> or \<open>szmul\<close>, which are modulo \<open>2 ^ 64\<close>.
\<close>

text \<open>\<open>returns x P\<close>: the computation \<open>x\<close> has a result, and the result satisfies \<open>P\<close>.
  It is the total-correctness statement of every operation over memory blocks.\<close>

definition returns :: "'a option \<Rightarrow> ('a \<Rightarrow> bool) \<Rightarrow> bool" where
  "returns x P \<longleftrightarrow> (case x of None \<Rightarrow> False | Some y \<Rightarrow> P y)"

lemma returns_simps [simp]:
  "returns (Some y) P = P y"
  "returns None P = False"
  by (simp_all add: returns_def)

lemma returns_bind [simp]: "returns (Option.bind x f) P = returns x (\<lambda>y. returns (f y) P)"
  by (cases x) simp_all

lemma returns_map_option [simp]: "returns (map_option f x) P = returns x (\<lambda>y. P (f y))"
  by (cases x) simp_all

lemma returns_mono: "returns x P \<Longrightarrow> (\<And>y. P y \<Longrightarrow> Q y) \<Longrightarrow> returns x Q"
  by (cases x) simp_all

lemma returnsE:
  assumes "returns x P"
  obtains y where "x = Some y" and "P y"
  using assms by (cases x) simp_all

lemma returns_pairE:
  assumes "returns x (\<lambda>(a, b). P a b)"
  obtains a b where "x = Some (a, b)" and "P a b"
  using assms by (cases x) auto

lemma returns_iff: "returns x P \<longleftrightarrow> (\<exists>y. x = Some y \<and> P y)"
  by (cases x) simp_all

named_theorems mem_simps \<open>reading and writing memory blocks inside their bounds\<close>

section \<open>Bytes\<close>

abbreviation ord :: "char \<Rightarrow> nat" where
  "ord c \<equiv> of_char c"

abbreviation nul :: char where
  "nul \<equiv> CHR 0x00"

section \<open>The C locale's character classes\<close>

definition c_isdigit :: "char \<Rightarrow> bool" where
  "c_isdigit c \<longleftrightarrow> 48 \<le> ord c \<and> ord c \<le> 57"

definition c_isupper :: "char \<Rightarrow> bool" where
  "c_isupper c \<longleftrightarrow> 65 \<le> ord c \<and> ord c \<le> 90"

definition c_islower :: "char \<Rightarrow> bool" where
  "c_islower c \<longleftrightarrow> 97 \<le> ord c \<and> ord c \<le> 122"

definition c_isalnum :: "char \<Rightarrow> bool" where
  "c_isalnum c \<longleftrightarrow> c_isdigit c \<or> c_isupper c \<or> c_islower c"

definition c_tolower :: "char \<Rightarrow> char" where
  "c_tolower c = (if c_isupper c then char_of (ord c + 32) else c)"

lemma c_tolower_idem [simp]: "c_tolower (c_tolower c) = c_tolower c"
proof (cases "c_isupper c")
  case True
  then have "ord (c_tolower c) = ord c + 32"
    by (simp add: c_tolower_def c_isupper_def)
  with True show ?thesis
    by (simp add: c_tolower_def [of "c_tolower c"] c_isupper_def)
next
  case False
  then show ?thesis
    by (simp add: c_tolower_def)
qed

section \<open>size\_t arithmetic\<close>

definition size_modulus :: nat where
  "size_modulus = 2 ^ 64"

definition szadd :: "nat \<Rightarrow> nat \<Rightarrow> nat" where
  "szadd a b = (a + b) mod size_modulus"

definition szmul :: "nat \<Rightarrow> nat \<Rightarrow> nat" where
  "szmul a b = (a * b) mod size_modulus"

definition szsub :: "nat \<Rightarrow> nat \<Rightarrow> nat" where
  "szsub a b = (a + (size_modulus - b mod size_modulus)) mod size_modulus"

lemma szadd_exact: "a + b < size_modulus \<Longrightarrow> szadd a b = a + b"
  by (simp add: szadd_def)

lemma szmul_exact: "a * b < size_modulus \<Longrightarrow> szmul a b = a * b"
  by (simp add: szmul_def)

lemma szsub_exact:
  assumes "b \<le> a" and "a < size_modulus"
  shows "szsub a b = a - b"
proof -
  have "a + (size_modulus - b mod size_modulus) = (a - b) + size_modulus"
    using assms by simp
  then show ?thesis
    using assms by (simp only: szsub_def mod_add_self2) simp
qed

section \<open>Memory blocks\<close>

definition peek :: "'a list \<Rightarrow> nat \<Rightarrow> nat \<Rightarrow> 'a list option" where
  "peek blk i n = (if i + n \<le> length blk then Some (take n (drop i blk)) else None)"

definition poke :: "'a list \<Rightarrow> nat \<Rightarrow> 'a list \<Rightarrow> 'a list option" where
  "poke blk i xs =
     (if i + length xs \<le> length blk
      then Some (take i blk @ xs @ drop (i + length xs) blk) else None)"

definition memmove :: "'a list \<Rightarrow> nat \<Rightarrow> nat \<Rightarrow> nat \<Rightarrow> 'a list option" where
  "memmove blk dst src n = Option.bind (peek blk src n) (poke blk dst)"

type_synonym 'a cell_allocator = "nat \<Rightarrow> (nat \<Rightarrow> 'a) option"

type_synonym allocator = "char cell_allocator"

definition malloc :: "'a cell_allocator \<Rightarrow> nat \<Rightarrow> 'a list option" where
  "malloc m n = map_option (\<lambda>f. map f [0..<n]) (m n)"

definition realloc :: "'a cell_allocator \<Rightarrow> 'a list \<Rightarrow> nat \<Rightarrow> 'a list option" where
  "realloc m old n = map_option (\<lambda>blk. take n old @ drop (length old) blk) (malloc m n)"

text \<open>An allocator that serves every request, with \<open>g n i\<close> the unspecified byte \<open>i\<close> of a
  block of size \<open>n\<close>.\<close>

definition total_allocator :: "(nat \<Rightarrow> nat \<Rightarrow> 'a) \<Rightarrow> 'a cell_allocator" where
  "total_allocator g = (\<lambda>n. Some (g n))"

definition never_fails :: "'a cell_allocator \<Rightarrow> bool" where
  "never_fails m \<longleftrightarrow> (\<forall>n. m n \<noteq> None)"

text \<open>No object is larger than half of the address space: requests from \<open>2 ^ 63\<close> bytes on fail.\<close>

definition object_bounded :: "'a cell_allocator \<Rightarrow> bool" where
  "object_bounded m \<longleftrightarrow> (\<forall>n \<ge> 2 ^ 63. m n = None)"

definition limited_allocator :: "(nat \<Rightarrow> nat \<Rightarrow> 'a) \<Rightarrow> 'a cell_allocator" where
  "limited_allocator g = (\<lambda>n. if n < 2 ^ 63 then Some (g n) else None)"

text \<open>Any allocator cut off at that limit.\<close>

definition cap_allocator :: "'a cell_allocator \<Rightarrow> 'a cell_allocator" where
  "cap_allocator m = (\<lambda>n. if n < 2 ^ 63 then m n else None)"

lemma object_bounded_cap [simp]: "object_bounded (cap_allocator m)"
  by (simp add: object_bounded_def cap_allocator_def)

lemma object_bounded_limited [simp]: "object_bounded (limited_allocator g)"
  by (simp add: object_bounded_def limited_allocator_def)

lemma peek_in [mem_simps]: "i + n \<le> length blk \<Longrightarrow> peek blk i n = Some (take n (drop i blk))"
  by (simp add: peek_def)

lemma poke_in [mem_simps]:
  "i + length xs \<le> length blk \<Longrightarrow> poke blk i xs = Some (take i blk @ xs @ drop (i + length xs) blk)"
  by (simp add: poke_def)

lemma poke_append [mem_simps]:
  "length ys = length old \<Longrightarrow> poke (xs @ old @ zs) (length xs) ys = Some (xs @ ys @ zs)"
  by (simp add: poke_def)

lemma poke_one: "length xs = n \<Longrightarrow> poke (xs @ c # zs) n [d] = Some (xs @ d # zs)"
  using poke_append [of "[d]" "[c]" xs zs] by auto

lemma memmove_in [mem_simps]:
  "dst + n \<le> length blk \<Longrightarrow> src + n \<le> length blk \<Longrightarrow>
   memmove blk dst src n =
     Some (take dst blk @ take n (drop src blk) @ drop (dst + n) blk)"
  by (simp add: memmove_def peek_def poke_def)

lemma memmove_to_front:
  "src + n \<le> length blk \<Longrightarrow> memmove blk 0 src n = Some (take n (drop src blk) @ drop n blk)"
  by (simp add: memmove_in)

lemma poke_after_prefix:
  "length xs = n \<Longrightarrow> zs \<noteq> [] \<Longrightarrow> poke (xs @ zs) n [c] = Some (xs @ c # tl zs)"
  by (cases zs) (simp_all add: poke_def)

lemma poke_next:
  "length xs = n \<Longrightarrow> length ys \<le> length zs \<Longrightarrow>
   poke (xs @ zs) n ys = Some ((xs @ ys) @ drop (length ys) zs)"
  by (auto simp: poke_def)

lemma poke_length: "poke blk i xs = Some blk' \<Longrightarrow> length blk' = length blk"
  by (auto simp: poke_def split: if_splits)

lemma malloc_length: "malloc m n = Some blk \<Longrightarrow> length blk = n"
  by (auto simp: malloc_def)

lemma malloc_never_fails: "never_fails m \<Longrightarrow> \<exists>blk. malloc m n = Some blk"
  by (auto simp: malloc_def never_fails_def)

lemma never_fails_total [simp]: "never_fails (total_allocator g)"
  by (simp add: never_fails_def total_allocator_def)

lemma never_failsE:
  assumes "never_fails m"
  obtains g where "m = total_allocator g"
proof
  show "m = total_allocator (\<lambda>n. the (m n))"
    using assms by (auto simp: never_fails_def total_allocator_def)
qed

lemma realloc_length: "realloc m old n = Some blk \<Longrightarrow> length blk = n"
  by (auto simp: realloc_def dest: malloc_length)

lemma realloc_prefix: "realloc m old n = Some blk \<Longrightarrow> k \<le> n \<Longrightarrow> k \<le> length old \<Longrightarrow> take k blk = take k old"
  by (auto simp: realloc_def min_def dest: malloc_length)

lemma realloc_never_fails: "never_fails m \<Longrightarrow> \<exists>blk. realloc m old n = Some blk"
  using malloc_never_fails [of m n] by (auto simp: realloc_def)

lemma malloc_bounded: "object_bounded m \<Longrightarrow> malloc m n = Some blk \<Longrightarrow> n < 2 ^ 63"
  by (auto simp: object_bounded_def malloc_def not_le [symmetric])

lemma realloc_bounded: "object_bounded m \<Longrightarrow> realloc m old n = Some blk \<Longrightarrow> n < 2 ^ 63"
  by (auto simp: realloc_def dest: malloc_bounded)

section \<open>Lists\<close>

lemma split_at:
  assumes "n \<le> length xs"
  obtains us vs where "xs = us @ vs" and "length us = n"
  using assms by (metis append_take_drop_id length_take min.absorb2)

lemma split_at_nth:
  assumes "n < length xs"
  obtains us c vs where "xs = us @ c # vs" and "length us = n"
  using assms by (metis id_take_nth_drop length_take less_imp_le_nat min.absorb2)

lemma take_Suc_update [simp]:
  "i < length xs \<Longrightarrow> take (Suc i) (xs[i := v]) = take i xs @ [v]"
  by (simp add: take_Suc_conv_app_nth)

lemma ord_pos: "c \<noteq> nul \<Longrightarrow> 0 < ord c"
  using of_char_eq_iff [where 'a = nat, of c nul] by (simp add: of_char_def)

section \<open>C strings\<close>

text \<open>The bytes of a C string before its terminator: lists without a NUL byte.\<close>

typedef cstr = "{s :: char list. nul \<notin> set s}"
  by (rule exI [of _ "[]"]) simp

setup_lifting type_definition_cstr

text \<open>The C string stored in a block: its bytes up to the first NUL.\<close>

lift_definition cstr_of :: "char list \<Rightarrow> cstr" is "takeWhile (\<lambda>c. c \<noteq> nul)"
  by (auto dest: set_takeWhileD)

lift_definition cstr_bytes :: "cstr \<Rightarrow> char list" is "\<lambda>s. s" .

lemma cstr_bytes_inject: "cstr_bytes a = cstr_bytes b \<longleftrightarrow> a = b"
  by transfer simp

lemma nul_notin_cstr_bytes: "nul \<notin> set (cstr_bytes a)"
  by transfer simp

lemma cstr_bytes_of: "nul \<notin> set s \<Longrightarrow> cstr_bytes (cstr_of s) = s"
  by transfer (auto simp: takeWhile_eq_all_conv)

instantiation cstr :: equal
begin

definition equal_cstr :: "cstr \<Rightarrow> cstr \<Rightarrow> bool" where
  "equal_cstr a b \<longleftrightarrow> cstr_bytes a = cstr_bytes b"

instance
  by standard (simp add: equal_cstr_def cstr_bytes_inject)

end

text \<open>\<open>strcmp\<close> on the bytes before the terminators: the difference of the first two differing
  bytes.\<close>

fun strcmp :: "char list \<Rightarrow> char list \<Rightarrow> int" where
  "strcmp [] [] = 0"
| "strcmp [] (b # bs) = - int (ord b)"
| "strcmp (a # as) [] = int (ord a)"
| "strcmp (a # as) (b # bs) = (if a = b then strcmp as bs else int (ord a) - int (ord b))"

lemma strcmp_0: "nul \<notin> set a \<Longrightarrow> nul \<notin> set b \<Longrightarrow> strcmp a b = 0 \<longleftrightarrow> a = b"
  by (induction a b rule: strcmp.induct) (auto intro: ord_pos [OF not_sym])

lemma strcmp_swap: "strcmp b a = - strcmp a b"
  by (induction a b rule: strcmp.induct) auto

lemma strcmp_trans: "strcmp a b < 0 \<Longrightarrow> strcmp b c < 0 \<Longrightarrow> strcmp a c < 0"
proof (induction a b arbitrary: c rule: strcmp.induct)
  case (2 b bs)
  then show ?case by (cases c) (auto split: if_splits)
next
  case (4 a as b bs)
  then show ?case by (cases c) (auto split: if_splits)
qed auto

section \<open>Bags of bindings\<close>

text \<open>Association lists with distinct keys that agree up to order denote the same map.\<close>

lemma map_of_distinct_Some: "distinct (map fst xs) \<Longrightarrow> map_of xs k = Some v \<longleftrightarrow> (k, v) \<in> set xs"
  by (auto dest: map_of_SomeD)

lemma map_of_mset_cong:
  assumes "distinct (map fst xs)" and "mset ys = mset xs"
  shows "map_of ys = map_of xs"
proof
  fix k
  have "distinct (map fst ys)"
    using assms by (metis mset_eq_imp_distinct_iff mset_map)
  moreover have "set ys = set xs"
    using assms(2) by (rule mset_eq_setD)
  ultimately show "map_of ys k = map_of xs k"
    using assms(1) by (metis map_of_distinct_Some not_None_eq)
qed

lemma map_of_mset_insert:
  assumes "distinct (map fst xs)" and "k \<notin> fst ` set xs" and "mset ys = add_mset (k, v) (mset xs)"
  shows "map_of ys = (map_of xs)(k \<mapsto> v)"
proof -
  have "map_of ys = map_of ((k, v) # xs)"
    using assms by (intro map_of_mset_cong) auto
  then show ?thesis by simp
qed

lemma map_of_mset_remove:
  assumes "distinct (map fst xs)" and "mset xs = add_mset (k, v) (mset ys)"
  shows "map_of ys = (map_of xs)(k := None)"
proof -
  have d: "distinct (map fst ((k, v) # ys))"
    using assms by (metis mset.simps(2) mset_eq_imp_distinct_iff mset_map)
  then have "map_of xs = map_of ((k, v) # ys)"
    using assms(2) by (intro map_of_mset_cong) auto
  then show ?thesis
    using d by (auto simp: map_of_eq_None_iff fun_eq_iff)
qed

lemma mset_concat_update:
  assumes "i < length bs"
  shows "mset (concat (bs[i := c])) + mset (bs ! i) = mset (concat bs) + mset c"
proof -
  obtain us b vs where bs: "bs = us @ b # vs" "length us = i"
    using split_at_nth [OF assms] by metis
  then show ?thesis
    by (simp add: list_update_append nth_append)
qed

end
