(* ===== verification/Interfaces.thy ===== *)
theory Interfaces
  imports Prelude
begin

text \<open>
  The contracts that components of the framework promise each other, as locales. Each is
  interpreted, in the theory of the component that provides it, on the model of the code.

  \<^item> \<open>byte_buffer\<close>: a buffer that takes bytes one at a time and keeps them in order
    (provided by \<^verbatim>\<open>bufferdata_push\<close> and by \<^verbatim>\<open>str_appendc\<close>, used by every parser).
  \<^item> \<open>reliable_byte_buffer\<close>: the same when no allocation fails.
  \<^item> \<open>kv_store\<close>: a mutable dictionary (provided by the red-black tree \<^verbatim>\<open>map_t\<close> and by the
    chained hash table \<^verbatim>\<open>hashmap_t\<close>).
\<close>

section \<open>Byte buffers\<close>

primrec put_all :: "('b \<Rightarrow> char \<Rightarrow> (bool \<times> 'b) option) \<Rightarrow> 'b \<Rightarrow> char list \<Rightarrow> (bool \<times> 'b) option" where
  "put_all put b [] = Some (True, b)"
| "put_all put b (c # cs) = do {
     (r, b1) \<leftarrow> put b c;
     if r then put_all put b1 cs else Some (False, b1)
   }"

locale byte_buffer =
  fixes put :: "'b \<Rightarrow> char \<Rightarrow> (bool \<times> 'b) option"
    and content :: "'b \<Rightarrow> char list"
    and invar :: "'b \<Rightarrow> bool"
  assumes put_spec: "invar b \<Longrightarrow>
    returns (put b c) (\<lambda>(r, b'). invar b' \<and> content b' = (if r then content b @ [c] else content b))"
begin

lemma put_all_prefix:
  "invar b \<Longrightarrow> returns (put_all put b cs) (\<lambda>(r, b'). invar b' \<and>
     (\<exists>k\<le>length cs. content b' = content b @ take k cs \<and> (r \<longrightarrow> k = length cs)))"
proof (induction cs arbitrary: b)
  case Nil
  then show ?case by simp
next
  case (Cons c cs)
  obtain r b1 where p: "put b c = Some (r, b1)" "invar b1"
    and ct: "content b1 = (if r then content b @ [c] else content b)"
    using put_spec [OF Cons.prems, of c] by (auto elim!: returnsE)
  show ?case
  proof (cases r)
    case True
    with p have "returns (put_all put b (c # cs)) (\<lambda>(r, b'). invar b' \<and>
        (\<exists>k\<le>length cs. content b' = content b1 @ take k cs \<and> (r \<longrightarrow> k = length cs)))"
      using Cons.IH [OF p(2)] by simp
    then show ?thesis
      by (rule returns_mono) (use True ct in \<open>force intro: exI [of _ "Suc k" for k]\<close>)
  next
    case False
    with p ct show ?thesis
      by (auto intro: exI [of _ 0])
  qed
qed

lemma put_all_content:
  "invar b \<Longrightarrow> put_all put b cs = Some (True, b') \<Longrightarrow> invar b' \<and> content b' = content b @ cs"
  using put_all_prefix [of b cs] by auto

end

locale reliable_byte_buffer = byte_buffer +
  assumes put_succeeds: "invar b \<Longrightarrow> returns (put b c) fst"
begin

lemma put_all_succeeds:
  "invar b \<Longrightarrow> returns (put_all put b cs) (\<lambda>(r, b'). r \<and> invar b' \<and> content b' = content b @ cs)"
proof (induction cs arbitrary: b)
  case Nil
  then show ?case by simp
next
  case (Cons c cs)
  obtain b1 where p: "put b c = Some (True, b1)" "invar b1" "content b1 = content b @ [c]"
    using put_spec [OF Cons.prems, of c] put_succeeds [OF Cons.prems, of c]
    by (auto elim!: returnsE)
  then have "returns (put_all put b1 cs) (\<lambda>(r, b'). r \<and> invar b' \<and> content b' = content b1 @ cs)"
    by (intro Cons.IH)
  then show ?case
    using p by simp
qed

end

section \<open>Dictionaries\<close>

text \<open>\<open>update\<close> binds a key whether or not it was bound; \<open>remove\<close> unbinds it; \<open>entries\<close>
  counts the bindings.\<close>

locale kv_store =
  fixes invar :: "'m \<Rightarrow> bool"
    and lookup :: "'m \<Rightarrow> 'k \<Rightarrow> 'v option"
    and update :: "'k \<Rightarrow> 'v \<Rightarrow> 'm \<Rightarrow> 'm"
    and remove :: "'k \<Rightarrow> 'm \<Rightarrow> 'm"
    and entries :: "'m \<Rightarrow> nat"
  assumes lookup_update: "invar m \<Longrightarrow> lookup (update k v m) = (lookup m)(k \<mapsto> v)"
    and lookup_remove: "invar m \<Longrightarrow> lookup (remove k m) = (lookup m)(k := None)"
    and invar_update: "invar m \<Longrightarrow> invar (update k v m)"
    and invar_remove: "invar m \<Longrightarrow> invar (remove k m)"
    and entries_card: "invar m \<Longrightarrow> finite (dom (lookup m)) \<and> entries m = card (dom (lookup m))"
begin

lemma lookup_update_same: "invar m \<Longrightarrow> lookup (update k v m) k = Some v"
  by (simp add: lookup_update)

lemma update_update: "invar m \<Longrightarrow> lookup (update k v (update k w m)) = lookup (update k v m)"
  by (simp add: lookup_update invar_update)

lemma remove_update: "invar m \<Longrightarrow> lookup (remove k (update k v m)) = lookup (remove k m)"
  by (simp add: lookup_update lookup_remove invar_update)

lemma entries_update:
  "invar m \<Longrightarrow> entries (update k v m) = (if lookup m k = None then entries m + 1 else entries m)"
  using entries_card [of m] entries_card [of "update k v m"]
  by (simp add: lookup_update invar_update card_insert_if domIff)

lemma entries_remove:
  "invar m \<Longrightarrow> entries (remove k m) = (if lookup m k = None then entries m else entries m - 1)"
  using entries_card [of m] entries_card [of "remove k m"]
  by (simp add: lookup_remove invar_remove card_Diff_singleton_if domIff)

text \<open>Loading a list of bindings, as a configuration reader does.\<close>

lemma invar_fold_update: "invar m \<Longrightarrow> invar (fold (\<lambda>(k, v). update k v) kvs m)"
  by (induction kvs arbitrary: m) (auto simp: invar_update)

lemma lookup_fold_update:
  "invar m \<Longrightarrow> lookup (fold (\<lambda>(k, v). update k v) kvs m) = lookup m ++ map_of (rev kvs)"
proof (induction kvs arbitrary: m)
  case Nil
  then show ?case by simp
next
  case (Cons kv kvs)
  obtain k v where kv: "kv = (k, v)"
    by (cases kv)
  have "lookup (fold (\<lambda>(k, v). update k v) kvs (update k v m)) = lookup (update k v m) ++ map_of (rev kvs)"
    using Cons.prems by (intro Cons.IH invar_update)
  then show ?case
    using Cons.prems by (simp add: kv lookup_update map_add_upd_left)
qed

end

section \<open>Callbacks of the maps\<close>

text \<open>An optional copy callback applied to a datum, and the log of the calls of the optional free
  callbacks.\<close>

definition apply_copy :: "('a \<Rightarrow> 'a) option \<Rightarrow> 'a \<Rightarrow> 'a" where
  "apply_copy f x = (case f of None \<Rightarrow> x | Some g \<Rightarrow> g x)"

datatype ('k, 'v) free_call = Key_free 'k | Value_free 'v

primrec freed_values :: "('k, 'v) free_call list \<Rightarrow> 'v list" where
  "freed_values [] = []"
| "freed_values (c # cs) = (case c of Value_free v \<Rightarrow> [v] | Key_free _ \<Rightarrow> []) @ freed_values cs"

lemma freed_values_append [simp]: "freed_values (xs @ ys) = freed_values xs @ freed_values ys"
  by (induction xs) simp_all

text \<open>The result of a call: a return code or what a search found.\<close>

datatype 'v map_result = Ret int | Found "'v option"

end
