(* ===== verification/Bufferdata.thy ===== *)
theory Bufferdata
  imports Interfaces
begin

text \<open>
  The growing byte buffer of the protocol parsers (misc/bufferdata.c). Bytes are
  collected in a fixed \<open>static_buffer\<close> of \<open>BUFFERDATA_SIZE\<close> bytes; when it is full they
  are moved to a heap block that grows by \<^verbatim>\<open>realloc\<close>. The theory models the operations on
  memory blocks, states the representation invariant \<open>bufferdata_ok\<close>, and shows that
  every operation stays inside its blocks and acts as the corresponding operation on the
  byte string \<open>bufferdata_content\<close>.
\<close>

section \<open>State\<close>

definition BUFFERDATA_SIZE :: nat where
  "BUFFERDATA_SIZE = 4096"

definition BUFFERDATA_CAPACITY :: nat where
  "BUFFERDATA_CAPACITY = BUFFERDATA_SIZE - 1"

datatype bufferdata_type = BUFFERDATA_STATIC | BUFFERDATA_DYNAMIC

record bufferdata =
  static_buffer :: "char list"
  dynamic_buffer :: "char list option"
  offset_sbuffer :: nat
  offset_dbuffer :: nat
  dbuffer_size :: nat
  buf_type :: bufferdata_type

section \<open>Operations\<close>

definition bufferdata_init :: "bufferdata \<Rightarrow> bufferdata option" where
  "bufferdata_init b = do {
     s \<leftarrow> poke (static_buffer b) 0 [nul];
     Some (b\<lparr>dynamic_buffer := None, offset_sbuffer := 0, offset_dbuffer := 0,
             dbuffer_size := 0, buf_type := BUFFERDATA_STATIC, static_buffer := s\<rparr>)
   }"

text \<open>The growth step and the copy step of \<open>bufferdata_move\<close>.\<close>

definition bufferdata_grow :: "allocator \<Rightarrow> bufferdata \<Rightarrow> nat \<Rightarrow> bufferdata option" where
  "bufferdata_grow m b dbuffer_length =
     (if dbuffer_size b \<le> dbuffer_length
      then map_option (\<lambda>data. b\<lparr>dbuffer_size := dbuffer_length + 1, dynamic_buffer := Some data\<rparr>)
             (realloc m (case dynamic_buffer b of None \<Rightarrow> [] | Some d \<Rightarrow> d) (dbuffer_length + 1))
      else Some b)"

definition bufferdata_copy_static :: "bufferdata \<Rightarrow> nat \<Rightarrow> bufferdata option" where
  "bufferdata_copy_static b dbuffer_length = do {
     d \<leftarrow> dynamic_buffer b;
     src \<leftarrow> peek (static_buffer b) 0 (offset_sbuffer b);
     d1 \<leftarrow> poke d (offset_dbuffer b) src;
     d2 \<leftarrow> poke d1 dbuffer_length [nul];
     Some (b\<lparr>dynamic_buffer := Some d2, offset_dbuffer := dbuffer_length, offset_sbuffer := 0\<rparr>)
   }"

definition bufferdata_move :: "allocator \<Rightarrow> bufferdata \<Rightarrow> (bool \<times> bufferdata) option" where
  "bufferdata_move m b =
     (if buf_type b \<noteq> BUFFERDATA_DYNAMIC then Some (True, b)
      else
        let dbuffer_length = offset_dbuffer b + offset_sbuffer b
        in case bufferdata_grow m b dbuffer_length of
             None \<Rightarrow> Some (False, b)
           | Some b1 \<Rightarrow> map_option (Pair True) (bufferdata_copy_static b1 dbuffer_length))"

definition bufferdata_push :: "allocator \<Rightarrow> bufferdata \<Rightarrow> char \<Rightarrow> (bool \<times> bufferdata) option" where
  "bufferdata_push m b ch = do {
     (ok, b1) \<leftarrow>
       (if BUFFERDATA_CAPACITY \<le> offset_sbuffer b
        then do {
          (r, b') \<leftarrow> bufferdata_move m
             (if buf_type b = BUFFERDATA_STATIC then b\<lparr>buf_type := BUFFERDATA_DYNAMIC\<rparr> else b);
          Some (if r then (True, b') else (False, b'\<lparr>buf_type := buf_type b\<rparr>))
        }
        else Some (True, b));
     if \<not> ok then Some (False, b1)
     else do {
       s1 \<leftarrow> poke (static_buffer b1) (offset_sbuffer b1) [ch];
       s2 \<leftarrow> poke s1 (offset_sbuffer b1 + 1) [nul];
       Some (True, b1\<lparr>static_buffer := s2, offset_sbuffer := offset_sbuffer b1 + 1\<rparr>)
     }
   }"

definition bufferdata_reset :: "bufferdata \<Rightarrow> bufferdata option" where
  "bufferdata_reset b = do {
     s \<leftarrow> poke (static_buffer b) 0 [nul];
     Some (b\<lparr>offset_dbuffer := 0, offset_sbuffer := 0, buf_type := BUFFERDATA_STATIC, static_buffer := s\<rparr>)
   }"

definition bufferdata_clear :: "bufferdata \<Rightarrow> bufferdata option" where
  "bufferdata_clear b = do {
     b1 \<leftarrow> bufferdata_reset b;
     Some (b1\<lparr>dynamic_buffer := None, dbuffer_size := 0\<rparr>)
   }"

definition bufferdata_writed :: "bufferdata \<Rightarrow> nat" where
  "bufferdata_writed b =
     (if buf_type b = BUFFERDATA_DYNAMIC then offset_dbuffer b + offset_sbuffer b else offset_sbuffer b)"

definition bufferdata_complete :: "allocator \<Rightarrow> bufferdata \<Rightarrow> (bool \<times> bufferdata) option" where
  "bufferdata_complete m b =
     (if buf_type b = BUFFERDATA_DYNAMIC then bufferdata_move m b else Some (True, b))"

definition bufferdata_move_data_to_start ::
    "allocator \<Rightarrow> bufferdata \<Rightarrow> nat \<Rightarrow> nat \<Rightarrow> (bool \<times> bufferdata) option" where
  "bufferdata_move_data_to_start m b offset sz =
     (if buf_type b = BUFFERDATA_STATIC then
        if BUFFERDATA_SIZE \<le> offset \<or> BUFFERDATA_SIZE \<le> sz then Some (False, b)
        else if BUFFERDATA_SIZE \<le> offset + sz then Some (False, b)
        else do {
          s1 \<leftarrow> memmove (static_buffer b) 0 offset sz;
          s2 \<leftarrow> poke s1 sz [nul];
          Some (True, b\<lparr>static_buffer := s2, offset_sbuffer := sz, offset_dbuffer := 0\<rparr>)
        }
      else
        let current_size = offset_dbuffer b in
        if sz = 0 then
          if current_size < offset then Some (False, b)
          else Some (True, b\<lparr>offset_dbuffer := 0, offset_sbuffer := 0\<rparr>)
        else if current_size \<le> offset then Some (False, b)
        else if current_size - offset < sz then Some (False, b)
        else do {
          d \<leftarrow> dynamic_buffer b;
          d1 \<leftarrow> memmove d 0 offset sz;
          (case realloc m d1 (sz + 1) of
             None \<Rightarrow> Some (False, b\<lparr>dynamic_buffer := Some d1\<rparr>)
           | Some d2 \<Rightarrow> do {
               d3 \<leftarrow> poke d2 sz [nul];
               Some (True, b\<lparr>dbuffer_size := sz + 1, dynamic_buffer := Some d3,
                             offset_dbuffer := sz, offset_sbuffer := 0\<rparr>)
             })
        })"

text \<open>\<open>bufferdata_get\<close> returns the memory block whose first bytes are the string; the
  NULL result is \<open>None\<close> inside the pair.\<close>

definition bufferdata_get :: "allocator \<Rightarrow> bufferdata \<Rightarrow> (char list option \<times> bufferdata) option" where
  "bufferdata_get m b =
     (if buf_type b = BUFFERDATA_DYNAMIC then
        if 0 < offset_sbuffer b then do {
          (r, b1) \<leftarrow> bufferdata_move m b;
          Some (if r then dynamic_buffer b1 else None, b1)
        }
        else Some (dynamic_buffer b, b)
      else Some (Some (static_buffer b), b))"

text \<open>\<open>bufferdata_copy\<close> returns a fresh block holding the string and its terminator.\<close>

definition bufferdata_copy :: "allocator \<Rightarrow> bufferdata \<Rightarrow> (char list option \<times> bufferdata) option" where
  "bufferdata_copy m b = do {
     (s, b1) \<leftarrow> bufferdata_get m b;
     (case s of
        None \<Rightarrow> Some (None, b1)
      | Some string \<Rightarrow>
          (case malloc m (bufferdata_writed b1 + 1) of
             None \<Rightarrow> Some (None, b1)
           | Some data \<Rightarrow> do {
               src \<leftarrow> peek string 0 (bufferdata_writed b1);
               data1 \<leftarrow> poke data 0 src;
               data2 \<leftarrow> poke data1 (bufferdata_writed b1) [nul];
               Some (Some data2, b1)
             }))
   }"

definition bufferdata_back :: "bufferdata \<Rightarrow> char option" where
  "bufferdata_back b =
     (if bufferdata_writed b = 0 then Some nul
      else if 0 < offset_sbuffer b then map_option hd (peek (static_buffer b) (offset_sbuffer b - 1) 1)
      else case dynamic_buffer b of
             None \<Rightarrow> Some nul
           | Some d \<Rightarrow> map_option hd (peek d (offset_dbuffer b - 1) 1))"

definition bufferdata_pop_back :: "bufferdata \<Rightarrow> (char \<times> bufferdata) option" where
  "bufferdata_pop_back b =
     (if bufferdata_writed b = 0 then Some (nul, b)
      else if 0 < offset_sbuffer b then do {
        c \<leftarrow> peek (static_buffer b) (offset_sbuffer b - 1) 1;
        s \<leftarrow> poke (static_buffer b) (offset_sbuffer b - 1) [nul];
        Some (hd c, b\<lparr>static_buffer := s, offset_sbuffer := offset_sbuffer b - 1\<rparr>)
      }
      else case dynamic_buffer b of
             None \<Rightarrow> Some (nul, b)
           | Some d \<Rightarrow> do {
               c \<leftarrow> peek d (offset_dbuffer b - 1) 1;
               d1 \<leftarrow> poke d (offset_dbuffer b - 1) [nul];
               Some (hd c, b\<lparr>dynamic_buffer := Some d1, offset_dbuffer := offset_dbuffer b - 1\<rparr>)
             })"

section \<open>Representation invariant and abstraction\<close>

text \<open>The block behind \<open>dynamic_buffer\<close> has the recorded size and room for a terminator
  after the bytes in use.\<close>

definition dbuffer_ok :: "bufferdata \<Rightarrow> bool" where
  "dbuffer_ok b \<longleftrightarrow>
     (case dynamic_buffer b of
        None \<Rightarrow> dbuffer_size b = 0 \<and> offset_dbuffer b = 0
      | Some d \<Rightarrow> dbuffer_size b = length d \<and> offset_dbuffer b < length d)"

definition bufferdata_ok :: "bufferdata \<Rightarrow> bool" where
  "bufferdata_ok b \<longleftrightarrow>
     length (static_buffer b) = BUFFERDATA_SIZE \<and>
     offset_sbuffer b \<le> BUFFERDATA_CAPACITY \<and>
     dbuffer_ok b \<and>
     (buf_type b = BUFFERDATA_STATIC \<longrightarrow> offset_dbuffer b = 0) \<and>
     (buf_type b = BUFFERDATA_DYNAMIC \<longrightarrow> dynamic_buffer b \<noteq> None)"

definition bufferdata_content :: "bufferdata \<Rightarrow> char list" where
  "bufferdata_content b =
     (case dynamic_buffer b of None \<Rightarrow> [] | Some d \<Rightarrow> take (offset_dbuffer b) d) @
     take (offset_sbuffer b) (static_buffer b)"

text \<open>The byte after the bytes in use of the current block is the NUL terminator.\<close>

definition bufferdata_terminated :: "bufferdata \<Rightarrow> bool" where
  "bufferdata_terminated b \<longleftrightarrow>
     (if buf_type b = BUFFERDATA_STATIC then static_buffer b ! offset_sbuffer b = nul
      else the (dynamic_buffer b) ! offset_dbuffer b = nul)"

section \<open>Lemmas\<close>

lemmas bufferdata_inv_defs =
  bufferdata_ok_def dbuffer_ok_def bufferdata_content_def bufferdata_terminated_def bufferdata_writed_def
  BUFFERDATA_CAPACITY_def BUFFERDATA_SIZE_def

lemma take_drop_single: "Suc i \<le> length xs \<Longrightarrow> take (Suc 0) (drop i xs) = [xs ! i]"
  by (simp add: take_Suc_conv_app_nth)

lemma bufferdata_copy_static_spec:
  assumes "length (static_buffer b) = BUFFERDATA_SIZE" and "offset_sbuffer b \<le> BUFFERDATA_CAPACITY"
    and d: "dynamic_buffer b = Some d" and sz: "dbuffer_size b = length d"
    and room: "offset_dbuffer b + offset_sbuffer b < length d"
    and ty: "buf_type b = BUFFERDATA_DYNAMIC"
  shows "returns (bufferdata_copy_static b (offset_dbuffer b + offset_sbuffer b)) (\<lambda>b'.
           bufferdata_ok b' \<and> bufferdata_terminated b' \<and> offset_sbuffer b' = 0 \<and>
           bufferdata_content b' = bufferdata_content b)"
proof -
  have "offset_sbuffer b \<le> length (static_buffer b)"
    using assms(1,2) by (simp add: BUFFERDATA_CAPACITY_def)
  then obtain us vs where st: "static_buffer b = us @ vs" "length us = offset_sbuffer b"
    by (rule split_at)
  obtain pre c zs where 1: "d = pre @ c # zs" "length pre = offset_dbuffer b + offset_sbuffer b"
    using room by (rule split_at_nth)
  have "offset_dbuffer b \<le> length pre"
    using 1 by simp
  then obtain xs ys where 2: "pre = xs @ ys" "length xs = offset_dbuffer b"
    by (rule split_at)
  with 1 have dd: "d = xs @ ys @ c # zs" and ys: "length ys = length us"
    using st by auto
  have "bufferdata_copy_static b (offset_dbuffer b + offset_sbuffer b) =
          Some (b\<lparr>dynamic_buffer := Some (xs @ us @ nul # zs),
                  offset_dbuffer := length xs + length us, offset_sbuffer := 0\<rparr>)"
    using 2 ys st by (simp add: bufferdata_copy_static_def d dd peek_def poke_def)
  then show ?thesis
    using assms(1) st 2 ys ty sz
    by (simp add: d dd bufferdata_ok_def dbuffer_ok_def bufferdata_terminated_def bufferdata_content_def
        nth_append)
qed

text \<open>Growing keeps the bytes in use and makes room for all bytes and a terminator.\<close>

lemma bufferdata_grow_spec:
  assumes dyn: "dbuffer_ok b" and g: "bufferdata_grow m b (offset_dbuffer b + k) = Some b1"
  obtains d where "b1 = b\<lparr>dbuffer_size := length d, dynamic_buffer := Some d\<rparr>"
    and "offset_dbuffer b + k < length d"
    and "take (offset_dbuffer b) d = (case dynamic_buffer b of None \<Rightarrow> [] | Some d \<Rightarrow> take (offset_dbuffer b) d)"
proof (cases "dbuffer_size b \<le> offset_dbuffer b + k")
  case True
  let ?old = "case dynamic_buffer b of None \<Rightarrow> [] | Some d \<Rightarrow> d"
  from True g obtain d where r: "realloc m ?old (offset_dbuffer b + k + 1) = Some d"
    and "b1 = b\<lparr>dbuffer_size := offset_dbuffer b + k + 1, dynamic_buffer := Some d\<rparr>"
    by (auto simp: bufferdata_grow_def)
  moreover have "offset_dbuffer b \<le> length ?old"
    using dyn by (auto simp: dbuffer_ok_def split: option.splits)
  then have "take (offset_dbuffer b) d = take (offset_dbuffer b) ?old"
    by (intro realloc_prefix [OF r]) auto
  moreover have "length d = offset_dbuffer b + k + 1"
    using r by (rule realloc_length)
  ultimately show ?thesis
    by (intro that [of d]) (auto split: option.splits)
next
  case False
  with dyn obtain d where "dynamic_buffer b = Some d" "dbuffer_size b = length d"
    by (auto simp: dbuffer_ok_def split: option.splits)
  with False g show ?thesis
    by (intro that [of d]) (auto simp: bufferdata_grow_def)
qed

lemma bufferdata_grow_never_fails: "never_fails m \<Longrightarrow> bufferdata_grow m b n \<noteq> None"
  using realloc_never_fails [of m "case dynamic_buffer b of None \<Rightarrow> [] | Some d \<Rightarrow> d" "n + 1"]
  by (auto simp: bufferdata_grow_def)

text \<open>A move succeeds or leaves the buffer alone; when it succeeds the static part is empty
  and the content is the same.\<close>

lemma bufferdata_move_spec:
  assumes st: "length (static_buffer b) = BUFFERDATA_SIZE" "offset_sbuffer b \<le> BUFFERDATA_CAPACITY"
    and dyn: "dbuffer_ok b" and ty: "buf_type b = BUFFERDATA_DYNAMIC"
  shows "returns (bufferdata_move m b) (\<lambda>(r, b').
           (never_fails m \<longrightarrow> r) \<and>
           (if r then bufferdata_ok b' \<and> bufferdata_terminated b' \<and> offset_sbuffer b' = 0 \<and>
                      bufferdata_content b' = bufferdata_content b
            else b' = b))"
proof (cases "bufferdata_grow m b (offset_dbuffer b + offset_sbuffer b)")
  case None
  then have "\<not> never_fails m"
    using bufferdata_grow_never_fails by metis
  with None ty show ?thesis
    by (simp add: bufferdata_move_def Let_def)
next
  case (Some b1)
  with dyn obtain d where d: "b1 = b\<lparr>dbuffer_size := length d, dynamic_buffer := Some d\<rparr>"
    and n: "offset_dbuffer b + offset_sbuffer b < length d"
    and pre: "take (offset_dbuffer b) d =
                (case dynamic_buffer b of None \<Rightarrow> [] | Some d \<Rightarrow> take (offset_dbuffer b) d)"
    by (rule bufferdata_grow_spec)
  have "bufferdata_content b1 = bufferdata_content b"
    using pre by (simp add: d bufferdata_content_def)
  moreover have "returns (bufferdata_copy_static b1 (offset_dbuffer b1 + offset_sbuffer b1)) (\<lambda>b'.
           bufferdata_ok b' \<and> bufferdata_terminated b' \<and> offset_sbuffer b' = 0 \<and>
           bufferdata_content b' = bufferdata_content b1)"
    using st ty n by (intro bufferdata_copy_static_spec [where d = d]) (simp_all add: d)
  ultimately show ?thesis
    using Some ty by (simp add: bufferdata_move_def Let_def d)
qed

lemma bufferdata_store_spec:
  assumes ok: "bufferdata_ok b" and room: "offset_sbuffer b < BUFFERDATA_CAPACITY"
  shows "returns (do { s1 \<leftarrow> poke (static_buffer b) (offset_sbuffer b) [ch];
                       s2 \<leftarrow> poke s1 (offset_sbuffer b + 1) [nul];
                       Some (True, b\<lparr>static_buffer := s2, offset_sbuffer := offset_sbuffer b + 1\<rparr>) })
           (\<lambda>(r, b'). r \<and> bufferdata_ok b' \<and> (bufferdata_terminated b \<longrightarrow> bufferdata_terminated b') \<and>
                bufferdata_content b' = bufferdata_content b @ [ch])"
proof -
  have "offset_sbuffer b < length (static_buffer b)"
    using assms by (simp add: bufferdata_ok_def BUFFERDATA_CAPACITY_def)
  then obtain us c vs where 1: "static_buffer b = us @ c # vs" "length us = offset_sbuffer b"
    by (rule split_at_nth)
  obtain d zs where 2: "vs = d # zs"
    using assms 1 by (cases vs) (auto simp: bufferdata_ok_def BUFFERDATA_CAPACITY_def)
  have "poke (us @ c # d # zs) (length us) [ch] = Some (us @ ch # d # zs)"
    and "poke (us @ ch # d # zs) (length us + 1) [nul] = Some (us @ ch # nul # zs)"
    by (simp_all add: poke_def)
  then show ?thesis
    using assms 1(2) [symmetric]
    by (simp add: 1(1) 2 bufferdata_ok_def dbuffer_ok_def bufferdata_terminated_def bufferdata_content_def
        nth_append split: option.splits)
qed

lemma bufferdata_push_spec:
  assumes "bufferdata_ok b"
  shows "returns (bufferdata_push m b ch) (\<lambda>(r, b'). bufferdata_ok b' \<and> (never_fails m \<longrightarrow> r) \<and>
           (bufferdata_terminated b \<longrightarrow> bufferdata_terminated b') \<and>
           (if r then bufferdata_content b' = bufferdata_content b @ [ch] else b' = b))"
proof (cases "BUFFERDATA_CAPACITY \<le> offset_sbuffer b")
  case False
  then have "returns (bufferdata_push m b ch) (\<lambda>(r, b'). r \<and> bufferdata_ok b' \<and>
               (bufferdata_terminated b \<longrightarrow> bufferdata_terminated b') \<and>
               bufferdata_content b' = bufferdata_content b @ [ch])"
    using bufferdata_store_spec [of b ch] assms by (simp add: bufferdata_push_def)
  then show ?thesis
    by (rule returns_mono) auto
next
  case True
  let ?b0 = "if buf_type b = BUFFERDATA_STATIC then b\<lparr>buf_type := BUFFERDATA_DYNAMIC\<rparr> else b"
  have ty: "buf_type ?b0 = BUFFERDATA_DYNAMIC"
    by (cases "buf_type b") simp_all
  have ct: "bufferdata_content ?b0 = bufferdata_content b"
    by (simp add: bufferdata_content_def split: option.split)
  have undo: "?b0\<lparr>buf_type := buf_type b\<rparr> = b"
    by simp
  have "returns (bufferdata_move m ?b0) (\<lambda>(r, b'). (never_fails m \<longrightarrow> r) \<and>
          (if r then bufferdata_ok b' \<and> bufferdata_terminated b' \<and> offset_sbuffer b' = 0 \<and>
                     bufferdata_content b' = bufferdata_content ?b0
           else b' = ?b0))"
    using assms ty
    by (intro bufferdata_move_spec) (auto simp: bufferdata_ok_def dbuffer_ok_def split: option.splits)
  then obtain r b' where mv: "bufferdata_move m ?b0 = Some (r, b')"
    and nf: "never_fails m \<longrightarrow> r" and f: "\<not> r \<longrightarrow> b' = ?b0"
    and s: "r \<longrightarrow> bufferdata_ok b' \<and> bufferdata_terminated b' \<and> offset_sbuffer b' = 0 \<and>
                bufferdata_content b' = bufferdata_content ?b0"
    by (auto elim!: returnsE split: if_splits)
  show ?thesis
  proof (cases r)
    case False
    then have "bufferdata_push m b ch = Some (False, b)"
      using True mv f undo by (simp add: bufferdata_push_def)
    with False nf assms show ?thesis
      by simp
  next
    case rt: True
    have "offset_sbuffer b' < BUFFERDATA_CAPACITY"
      using s rt by (simp add: BUFFERDATA_CAPACITY_def BUFFERDATA_SIZE_def)
    then have "returns (bufferdata_push m b ch) (\<lambda>(r, b''). r \<and> bufferdata_ok b'' \<and>
               (bufferdata_terminated b' \<longrightarrow> bufferdata_terminated b'') \<and>
               bufferdata_content b'' = bufferdata_content b' @ [ch])"
      using bufferdata_store_spec [of b' ch] s rt True mv by (simp add: bufferdata_push_def)
    then show ?thesis
      using s rt ct by (elim returns_mono) auto
  qed
qed

lemma bufferdata_reset_spec:
  assumes "bufferdata_ok b"
  shows "returns (bufferdata_reset b)
           (\<lambda>b'. bufferdata_ok b' \<and> bufferdata_terminated b' \<and> bufferdata_content b' = [])"
  using assms
  by (auto simp: bufferdata_reset_def mem_simps bufferdata_inv_defs split: option.splits)

lemma bufferdata_clear_spec:
  assumes "bufferdata_ok b"
  shows "returns (bufferdata_clear b)
           (\<lambda>b'. bufferdata_ok b' \<and> bufferdata_terminated b' \<and> bufferdata_content b' = [])"
  using assms
  by (auto simp: bufferdata_clear_def bufferdata_reset_def mem_simps bufferdata_inv_defs)

lemma bufferdata_init_spec:
  assumes "length (static_buffer b) = BUFFERDATA_SIZE"
  shows "returns (bufferdata_init b)
           (\<lambda>b'. bufferdata_ok b' \<and> bufferdata_terminated b' \<and> bufferdata_content b' = [])"
  using assms by (auto simp: bufferdata_init_def mem_simps bufferdata_inv_defs)

lemma bufferdata_writed_content: "bufferdata_ok b \<Longrightarrow> bufferdata_writed b = length (bufferdata_content b)"
  by (cases "buf_type b") (auto simp: bufferdata_inv_defs split: option.splits)

lemma bufferdata_complete_spec:
  assumes "bufferdata_ok b"
  shows "returns (bufferdata_complete m b) (\<lambda>(r, b'). bufferdata_ok b' \<and> (never_fails m \<longrightarrow> r) \<and>
           (bufferdata_terminated b \<longrightarrow> bufferdata_terminated b') \<and>
           bufferdata_content b' = bufferdata_content b \<and> (\<not> r \<longrightarrow> b' = b))"
proof (cases "buf_type b")
  case BUFFERDATA_STATIC
  with assms show ?thesis
    by (simp add: bufferdata_complete_def)
next
  case BUFFERDATA_DYNAMIC
  with assms have "returns (bufferdata_move m b) (\<lambda>(r, b'). (never_fails m \<longrightarrow> r) \<and>
           (if r then bufferdata_ok b' \<and> bufferdata_terminated b' \<and> offset_sbuffer b' = 0 \<and>
                      bufferdata_content b' = bufferdata_content b
            else b' = b))"
    by (intro bufferdata_move_spec) (auto simp: bufferdata_ok_def)
  then show ?thesis
    using BUFFERDATA_DYNAMIC assms
    by (auto simp: bufferdata_complete_def elim!: returns_mono split: if_splits)
qed

text \<open>What a reader of the block sees: the content, then the terminator.\<close>

definition holds_cstring :: "char list \<Rightarrow> char list \<Rightarrow> bool" where
  "holds_cstring blk xs \<longleftrightarrow> length xs < length blk \<and> take (length xs) blk = xs \<and> blk ! length xs = nul"

lemma bufferdata_get_static:
  assumes "bufferdata_ok b" and "bufferdata_terminated b" and "buf_type b = BUFFERDATA_STATIC"
  shows "holds_cstring (static_buffer b) (bufferdata_content b)"
  using assms by (auto simp: holds_cstring_def bufferdata_inv_defs split: option.splits)

lemma bufferdata_get_dynamic:
  assumes "bufferdata_ok b" and "bufferdata_terminated b" and "buf_type b = BUFFERDATA_DYNAMIC"
    and "offset_sbuffer b = 0"
  shows "\<exists>d. dynamic_buffer b = Some d \<and> holds_cstring d (bufferdata_content b)"
  using assms by (auto simp: holds_cstring_def bufferdata_inv_defs split: option.splits)

lemma bufferdata_move_type:
  "bufferdata_move m b = Some (r, b') \<Longrightarrow> buf_type b' = buf_type b"
  by (auto simp: bufferdata_move_def bufferdata_grow_def bufferdata_copy_static_def Let_def
      split: if_splits option.splits Option.bind_splits)

lemma bufferdata_get_spec:
  assumes ok: "bufferdata_ok b" and tm: "bufferdata_terminated b"
  shows "returns (bufferdata_get m b) (\<lambda>(s, b'). bufferdata_ok b' \<and> bufferdata_terminated b' \<and>
           bufferdata_content b' = bufferdata_content b \<and> (never_fails m \<longrightarrow> s \<noteq> None) \<and>
           (\<forall>blk. s = Some blk \<longrightarrow> holds_cstring blk (bufferdata_content b)))"
proof (cases "buf_type b = BUFFERDATA_DYNAMIC \<and> 0 < offset_sbuffer b")
  case False
  with assms show ?thesis
    using bufferdata_get_static [OF ok tm] bufferdata_get_dynamic [OF ok tm]
    by (cases "buf_type b") (auto simp: bufferdata_get_def)
next
  case True
  with ok have "returns (bufferdata_move m b) (\<lambda>(r, b'). (never_fails m \<longrightarrow> r) \<and>
           (if r then bufferdata_ok b' \<and> bufferdata_terminated b' \<and> offset_sbuffer b' = 0 \<and>
                      bufferdata_content b' = bufferdata_content b
            else b' = b))"
    by (intro bufferdata_move_spec) (auto simp: bufferdata_ok_def)
  then obtain r b' where mv: "bufferdata_move m b = Some (r, b')" and nf: "never_fails m \<longrightarrow> r"
    and s: "r \<longrightarrow> bufferdata_ok b' \<and> bufferdata_terminated b' \<and> offset_sbuffer b' = 0 \<and>
              bufferdata_content b' = bufferdata_content b" and f: "\<not> r \<longrightarrow> b' = b"
    by (auto elim!: returnsE split: if_splits)
  have "buf_type b' = BUFFERDATA_DYNAMIC"
    using bufferdata_move_type [OF mv] True by simp
  then show ?thesis
    using True mv nf s f ok tm bufferdata_get_dynamic [of b']
    by (cases r) (auto simp: bufferdata_get_def)
qed

lemma bufferdata_copy_spec:
  assumes ok: "bufferdata_ok b" and tm: "bufferdata_terminated b"
  shows "returns (bufferdata_copy m b) (\<lambda>(s, b'). bufferdata_ok b' \<and> bufferdata_terminated b' \<and>
           bufferdata_content b' = bufferdata_content b \<and> (never_fails m \<longrightarrow> s \<noteq> None) \<and>
           (\<forall>data. s = Some data \<longrightarrow> data = bufferdata_content b @ [nul]))"
proof -
  obtain s b' where g: "bufferdata_get m b = Some (s, b')" and ok': "bufferdata_ok b'"
    "bufferdata_terminated b'" "bufferdata_content b' = bufferdata_content b"
    "never_fails m \<longrightarrow> s \<noteq> None" and s: "\<And>blk. s = Some blk \<Longrightarrow> holds_cstring blk (bufferdata_content b)"
    using bufferdata_get_spec [OF assms, of m] by (auto elim!: returnsE)
  let ?n = "length (bufferdata_content b)"
  have n: "bufferdata_writed b' = ?n"
    using ok' by (simp add: bufferdata_writed_content)
  have copied: "returns (do { src \<leftarrow> peek string 0 ?n; data1 \<leftarrow> poke data 0 src;
                              data2 \<leftarrow> poke data1 ?n [nul]; Some (Some data2, b') })
                  (\<lambda>(r, b''). b'' = b' \<and> r = Some (bufferdata_content b @ [nul]))"
    if "s = Some string" "malloc m (?n + 1) = Some data" for string data
  proof -
    have "length data = ?n + 1"
      using that(2) by (rule malloc_length)
    then show ?thesis
      using s [OF that(1)] by (auto simp: holds_cstring_def peek_def poke_def)
  qed
  show ?thesis
    using g ok' n copied malloc_never_fails [of m "?n + 1"]
    by (auto simp: bufferdata_copy_def elim!: returns_mono split: option.splits)
qed

lemma bufferdata_pop_back_spec:
  assumes ok: "bufferdata_ok b" and tm: "bufferdata_terminated b" and ne: "bufferdata_content b \<noteq> []"
  shows "returns (bufferdata_pop_back b) (\<lambda>(c, b'). bufferdata_ok b' \<and> bufferdata_terminated b' \<and>
           c = last (bufferdata_content b) \<and> bufferdata_content b' = butlast (bufferdata_content b))"
proof (cases "0 < offset_sbuffer b")
  case True
  have "offset_sbuffer b - 1 < length (static_buffer b)"
    using ok True by (auto simp: bufferdata_ok_def BUFFERDATA_CAPACITY_def)
  then obtain us c vs where st: "static_buffer b = us @ c # vs" "length us = offset_sbuffer b - 1"
    by (rule split_at_nth)
  then have k: "offset_sbuffer b = Suc (length us)"
    using True by simp
  have w: "bufferdata_writed b \<noteq> 0"
    using True by (simp add: bufferdata_writed_def)
  have "bufferdata_pop_back b = Some (c, b\<lparr>static_buffer := us @ nul # vs, offset_sbuffer := length us\<rparr>)"
    using w by (simp add: bufferdata_pop_back_def st(1) k peek_def poke_def)
  then show ?thesis
    using ok tm
    by (cases "buf_type b") (auto simp: st(1) k bufferdata_inv_defs butlast_append split: option.splits)
next
  case False
  with ok ne obtain d where d: "dynamic_buffer b = Some d" "0 < offset_dbuffer b" "offset_dbuffer b < length d"
    by (auto simp: bufferdata_ok_def dbuffer_ok_def bufferdata_content_def split: option.splits)
  then have "offset_dbuffer b - 1 < length d"
    by simp
  then obtain us c vs where dd: "d = us @ c # vs" "length us = offset_dbuffer b - 1"
    by (rule split_at_nth)
  then have k: "offset_dbuffer b = Suc (length us)"
    using d by simp
  have ty: "buf_type b = BUFFERDATA_DYNAMIC"
    using ok d by (cases "buf_type b") (auto simp: bufferdata_ok_def)
  have "bufferdata_pop_back b = Some (c, b\<lparr>dynamic_buffer := Some (us @ nul # vs), offset_dbuffer := length us\<rparr>)"
    using False ty by (simp add: bufferdata_pop_back_def bufferdata_writed_def d(1) dd(1) k peek_def poke_def)
  then show ?thesis
    using ok tm False ty by (auto simp: d(1) dd(1) k bufferdata_inv_defs)
qed

lemma bufferdata_back_spec:
  assumes ok: "bufferdata_ok b"
  shows "bufferdata_back b =
           Some (if bufferdata_content b = [] then nul else last (bufferdata_content b))"
proof (cases "0 < offset_sbuffer b")
  case True
  have "offset_sbuffer b - 1 < length (static_buffer b)"
    using ok True by (auto simp: bufferdata_ok_def BUFFERDATA_CAPACITY_def)
  then obtain us c vs where st: "static_buffer b = us @ c # vs" "length us = offset_sbuffer b - 1"
    by (rule split_at_nth)
  then have k: "offset_sbuffer b = Suc (length us)"
    using True by simp
  then show ?thesis
    by (auto simp: bufferdata_back_def st(1) bufferdata_writed_def bufferdata_content_def peek_def)
next
  case False
  show ?thesis
  proof (cases "bufferdata_writed b = 0")
    case True
    then show ?thesis
      using bufferdata_writed_content [OF ok] by (simp add: bufferdata_back_def)
  next
    case w: False
    with False ok obtain d where d: "dynamic_buffer b = Some d" "0 < offset_dbuffer b" "offset_dbuffer b < length d"
      by (auto simp: bufferdata_ok_def dbuffer_ok_def bufferdata_writed_def split: option.splits if_splits)
    then have "offset_dbuffer b - 1 < length d"
      by simp
    then obtain us c vs where dd: "d = us @ c # vs" "length us = offset_dbuffer b - 1"
      by (rule split_at_nth)
    then have k: "offset_dbuffer b = Suc (length us)"
      using d by simp
    then show ?thesis
      using False w by (simp add: bufferdata_back_def d(1) dd(1) bufferdata_content_def peek_def)
  qed
qed

lemma bufferdata_move_data_to_start_static:
  assumes ok: "bufferdata_ok b" and ty: "buf_type b = BUFFERDATA_STATIC"
    and n: "offset + sz \<le> offset_sbuffer b"
  shows "returns (bufferdata_move_data_to_start m b offset sz) (\<lambda>(r, b'). r \<and> bufferdata_ok b' \<and>
           bufferdata_terminated b' \<and>
           bufferdata_content b' = take sz (drop offset (bufferdata_content b)))"
proof -
  let ?s = "static_buffer b"
  let ?u = "take sz (drop offset ?s)" and ?v = "drop sz ?s"
  have len: "length ?s = BUFFERDATA_SIZE" "offset + sz < length ?s"
    using assms by (auto simp: bufferdata_ok_def BUFFERDATA_CAPACITY_def BUFFERDATA_SIZE_def)
  have u: "length ?u = sz" and v: "?v \<noteq> []"
    using len by auto
  have "bufferdata_move_data_to_start m b offset sz =
          Some (True, b\<lparr>static_buffer := ?u @ nul # tl ?v, offset_sbuffer := sz, offset_dbuffer := 0\<rparr>)"
    using len ty poke_after_prefix [OF u v, of nul]
    by (simp add: bufferdata_move_data_to_start_def memmove_to_front)
  moreover have "length (?u @ nul # tl ?v) = length ?s" "(?u @ nul # tl ?v) ! sz = nul"
    using len u by (auto simp: nth_append)
  moreover have "take sz (?u @ nul # tl ?v) = ?u"
    using u by simp
  moreover have "?u = take sz (drop offset (take (offset_sbuffer b) ?s))"
    using n by (simp add: drop_take)
  ultimately show ?thesis
    using ok ty n len
    by (auto simp: bufferdata_ok_def dbuffer_ok_def bufferdata_terminated_def bufferdata_content_def
        split: option.splits)
qed

lemma bufferdata_move_data_to_start_dynamic:
  assumes ok: "bufferdata_ok b" and ty: "buf_type b = BUFFERDATA_DYNAMIC"
    and n: "offset + sz \<le> offset_dbuffer b" "0 < sz" and flushed: "offset_sbuffer b = 0"
    and nf: "never_fails m"
  shows "returns (bufferdata_move_data_to_start m b offset sz) (\<lambda>(r, b'). r \<and> bufferdata_ok b' \<and>
           bufferdata_terminated b' \<and>
           bufferdata_content b' = take sz (drop offset (bufferdata_content b)))"
proof -
  obtain d where d: "dynamic_buffer b = Some d" "offset_dbuffer b < length d"
    using ok ty by (auto simp: bufferdata_ok_def dbuffer_ok_def split: option.splits)
  let ?d1 = "take sz (drop offset d) @ drop sz d"
  obtain d2 where r: "realloc m ?d1 (sz + 1) = Some d2"
    using realloc_never_fails [OF nf] by metis
  have l: "length d2 = Suc sz" and p: "take sz d2 = take sz ?d1"
    using realloc_length [OF r] realloc_prefix [OF r, of sz] n d by auto
  have "length (drop sz d2) = Suc 0"
    using l by simp
  then obtain c where "drop sz d2 = [c]"
    by (cases "drop sz d2") (auto simp del: length_drop)
  moreover have "take sz ?d1 = take sz (drop offset d)"
    using n d by simp
  ultimately have d2: "d2 = take sz (drop offset d) @ [c]"
    using p by (metis append_take_drop_id)
  have "bufferdata_move_data_to_start m b offset sz =
          Some (True, b\<lparr>dbuffer_size := sz + 1, dynamic_buffer := Some (take sz (drop offset d) @ [nul]),
                        offset_dbuffer := sz, offset_sbuffer := 0\<rparr>)"
    using ty n d r by (simp add: bufferdata_move_data_to_start_def memmove_to_front d2 poke_def)
  then show ?thesis
    using ok ty n d flushed
    by (auto simp: bufferdata_ok_def dbuffer_ok_def bufferdata_terminated_def bufferdata_content_def
        drop_take nth_append)
qed

text \<open>Whatever the arguments, moving data to the start stays inside the blocks.\<close>

lemma bufferdata_move_data_to_start_safe:
  assumes ok: "bufferdata_ok b"
  shows "returns (bufferdata_move_data_to_start m b offset sz) (\<lambda>(r, b'). bufferdata_ok b')"
proof (cases "buf_type b")
  case BUFFERDATA_STATIC
  have "returns (do { s1 \<leftarrow> memmove (static_buffer b) 0 offset sz; poke s1 sz [nul] })
          (\<lambda>s. length s = BUFFERDATA_SIZE)" if "offset + sz < BUFFERDATA_SIZE"
    using that ok by (simp add: bufferdata_ok_def memmove_to_front poke_def)
  then show ?thesis
    using ok BUFFERDATA_STATIC
    by (auto simp: bufferdata_move_data_to_start_def bufferdata_ok_def dbuffer_ok_def BUFFERDATA_CAPACITY_def
        elim!: returns_mono split: option.splits)
next
  case BUFFERDATA_DYNAMIC
  then obtain d where d: "dynamic_buffer b = Some d" "offset_dbuffer b < length d"
    using ok by (auto simp: bufferdata_ok_def dbuffer_ok_def split: option.splits)
  show ?thesis
  proof (cases "sz = 0 \<or> offset_dbuffer b \<le> offset \<or> offset_dbuffer b - offset < sz")
    case True
    then show ?thesis
      using ok BUFFERDATA_DYNAMIC
      by (auto simp: bufferdata_move_data_to_start_def Let_def bufferdata_ok_def dbuffer_ok_def
          split: option.splits)
  next
    case False
    let ?d1 = "take sz (drop offset d) @ drop sz d"
    have mm: "memmove d 0 offset sz = Some ?d1" "length ?d1 = length d"
      using False d by (auto simp: memmove_to_front)
    show ?thesis
    proof (cases "realloc m ?d1 (sz + 1)")
      case None
      with False mm ok d BUFFERDATA_DYNAMIC show ?thesis
        by (simp add: bufferdata_move_data_to_start_def bufferdata_ok_def dbuffer_ok_def)
    next
      case (Some d2)
      have "length d2 = sz + 1"
        using Some by (rule realloc_length)
      with Some False mm ok d BUFFERDATA_DYNAMIC show ?thesis
        by (simp add: bufferdata_move_data_to_start_def bufferdata_ok_def dbuffer_ok_def poke_def)
    qed
  qed
qed

lemma bufferdata_pop_back_safe:
  assumes ok: "bufferdata_ok b"
  shows "returns (bufferdata_pop_back b) (\<lambda>(c, b'). bufferdata_ok b')"
proof (cases "bufferdata_writed b = 0")
  case True
  with ok show ?thesis
    by (simp add: bufferdata_pop_back_def)
next
  case False
  show ?thesis
  proof (cases "0 < offset_sbuffer b")
    case True
    with False ok show ?thesis
      by (auto simp: bufferdata_pop_back_def peek_def poke_def bufferdata_ok_def dbuffer_ok_def
          BUFFERDATA_CAPACITY_def split: option.splits)
  next
    case s: False
    with False ok obtain d where "dynamic_buffer b = Some d" "0 < offset_dbuffer b" "offset_dbuffer b < length d"
      by (auto simp: bufferdata_ok_def dbuffer_ok_def bufferdata_writed_def split: option.splits if_splits)
    with False s ok show ?thesis
      by (auto simp: bufferdata_pop_back_def peek_def poke_def bufferdata_ok_def dbuffer_ok_def)
  qed
qed

lemma bufferdata_move_safe:
  assumes "bufferdata_ok b"
  shows "returns (bufferdata_move m b) (\<lambda>(r, b'). bufferdata_ok b' \<and>
           (r \<longrightarrow> buf_type b = BUFFERDATA_DYNAMIC \<longrightarrow> offset_sbuffer b' = 0))"
proof (cases "buf_type b")
  case BUFFERDATA_STATIC
  with assms show ?thesis
    by (simp add: bufferdata_move_def)
next
  case BUFFERDATA_DYNAMIC
  with assms have "returns (bufferdata_move m b) (\<lambda>(r, b'). (never_fails m \<longrightarrow> r) \<and>
           (if r then bufferdata_ok b' \<and> bufferdata_terminated b' \<and> offset_sbuffer b' = 0 \<and>
                      bufferdata_content b' = bufferdata_content b
            else b' = b))"
    by (intro bufferdata_move_spec) (auto simp: bufferdata_ok_def)
  then show ?thesis
    using assms by (auto elim!: returns_mono split: if_splits)
qed

lemma bufferdata_get_safe:
  assumes "bufferdata_ok b"
  shows "returns (bufferdata_get m b) (\<lambda>(s, b'). bufferdata_ok b' \<and>
           (\<forall>blk. s = Some blk \<longrightarrow> bufferdata_writed b' < length blk))"
proof (cases "buf_type b = BUFFERDATA_DYNAMIC \<and> 0 < offset_sbuffer b")
  case False
  with assms show ?thesis
    by (cases "buf_type b")
       (auto simp: bufferdata_get_def bufferdata_inv_defs split: option.splits)
next
  case True
  obtain r b' where mv: "bufferdata_move m b = Some (r, b')" and b': "bufferdata_ok b'"
    and z: "r \<longrightarrow> offset_sbuffer b' = 0"
    using bufferdata_move_safe [OF assms, of m] True by (auto elim!: returnsE)
  have "buf_type b' = BUFFERDATA_DYNAMIC"
    using bufferdata_move_type [OF mv] True by simp
  with True mv b' z show ?thesis
    by (cases r) (auto simp: bufferdata_get_def bufferdata_inv_defs split: option.splits)
qed

lemma bufferdata_copy_safe:
  assumes "bufferdata_ok b"
  shows "returns (bufferdata_copy m b) (\<lambda>(s, b'). bufferdata_ok b')"
proof -
  obtain s b' where g: "bufferdata_get m b = Some (s, b')" and b': "bufferdata_ok b'"
    and w: "\<And>blk. s = Some blk \<Longrightarrow> bufferdata_writed b' < length blk"
    using bufferdata_get_safe [OF assms, of m] by (auto elim!: returnsE)
  have "returns (do { src \<leftarrow> peek string 0 (bufferdata_writed b'); data1 \<leftarrow> poke data 0 src;
                      data2 \<leftarrow> poke data1 (bufferdata_writed b') [nul]; Some (Some data2, b') })
          (\<lambda>(r, b''). b'' = b')"
    if "s = Some string" "malloc m (bufferdata_writed b' + 1) = Some data" for string data
    using w [OF that(1)] malloc_length [OF that(2)] by (simp add: peek_def poke_def)
  then show ?thesis
    using g b' by (auto simp: bufferdata_copy_def elim!: returns_mono split: option.splits)
qed

section \<open>The buffer contract\<close>

definition bufferdata_inv :: "bufferdata \<Rightarrow> bool" where
  "bufferdata_inv b \<longleftrightarrow> bufferdata_ok b \<and> bufferdata_terminated b"

interpretation bd: byte_buffer "bufferdata_push m" bufferdata_content bufferdata_inv for m
proof
  fix b :: bufferdata and c
  assume "bufferdata_inv b"
  then show "returns (bufferdata_push m b c) (\<lambda>(r, b'). bufferdata_inv b' \<and>
      bufferdata_content b' = (if r then bufferdata_content b @ [c] else bufferdata_content b))"
    unfolding bufferdata_inv_def
    by (elim conjE, intro returns_mono [OF bufferdata_push_spec]) (auto split: if_splits)
qed

interpretation bdr: reliable_byte_buffer "bufferdata_push (total_allocator g)" bufferdata_content
  bufferdata_inv for g
proof
  fix b :: bufferdata and c
  assume "bufferdata_inv b"
  then show "returns (bufferdata_push (total_allocator g) b c) fst"
    unfolding bufferdata_inv_def
    by (elim conjE, intro returns_mono [OF bufferdata_push_spec]) auto
qed

section \<open>Sequences of calls\<close>

datatype bufferdata_op =
    Push char | Reset | Clear | Complete | Move_To_Start nat nat | Get | Copy | Back | Pop_Back

definition bufferdata_exec :: "allocator \<Rightarrow> bufferdata_op \<Rightarrow> bufferdata \<Rightarrow> bufferdata option" where
  "bufferdata_exec m oper b =
     (case oper of
        Push c \<Rightarrow> map_option snd (bufferdata_push m b c)
      | Reset \<Rightarrow> bufferdata_reset b
      | Clear \<Rightarrow> bufferdata_clear b
      | Complete \<Rightarrow> map_option snd (bufferdata_complete m b)
      | Move_To_Start i n \<Rightarrow> map_option snd (bufferdata_move_data_to_start m b i n)
      | Get \<Rightarrow> map_option snd (bufferdata_get m b)
      | Copy \<Rightarrow> map_option snd (bufferdata_copy m b)
      | Back \<Rightarrow> map_option (\<lambda>_. b) (bufferdata_back b)
      | Pop_Back \<Rightarrow> map_option snd (bufferdata_pop_back b))"

primrec bufferdata_run :: "(allocator \<times> bufferdata_op) list \<Rightarrow> bufferdata \<Rightarrow> bufferdata option" where
  "bufferdata_run [] b = Some b"
| "bufferdata_run (x # xs) b = Option.bind (bufferdata_exec (fst x) (snd x) b) (bufferdata_run xs)"

lemma bufferdata_exec_ok:
  assumes "bufferdata_ok b"
  shows "returns (bufferdata_exec m oper b) bufferdata_ok"
proof (cases oper)
  case (Push c)
  then show ?thesis
    by (auto simp: bufferdata_exec_def intro!: returns_mono [OF bufferdata_push_spec [OF assms]])
next
  case Reset
  then show ?thesis
    by (auto simp: bufferdata_exec_def intro!: returns_mono [OF bufferdata_reset_spec [OF assms]])
next
  case Clear
  then show ?thesis
    by (auto simp: bufferdata_exec_def intro!: returns_mono [OF bufferdata_clear_spec [OF assms]])
next
  case Complete
  then show ?thesis
    by (auto simp: bufferdata_exec_def intro!: returns_mono [OF bufferdata_complete_spec [OF assms]])
next
  case (Move_To_Start i n)
  then show ?thesis
    by (auto simp: bufferdata_exec_def intro!: returns_mono [OF bufferdata_move_data_to_start_safe [OF assms]])
next
  case Get
  then show ?thesis
    by (auto simp: bufferdata_exec_def intro!: returns_mono [OF bufferdata_get_safe [OF assms]])
next
  case Copy
  then show ?thesis
    by (auto simp: bufferdata_exec_def intro!: returns_mono [OF bufferdata_copy_safe [OF assms]])
next
  case Back
  with assms show ?thesis
    by (simp add: bufferdata_exec_def bufferdata_back_spec)
next
  case Pop_Back
  then show ?thesis
    by (auto simp: bufferdata_exec_def intro!: returns_mono [OF bufferdata_pop_back_safe [OF assms]])
qed

section \<open>Properties\<close>

text \<open>Property C29. Memory safety of the parser buffer: starting from an initialised buffer, no
  sequence of \<^verbatim>\<open>bufferdata_*\<close> calls, whatever their arguments and whichever allocations fail,
  reads or writes outside the static array or the heap block, and the representation
  invariant holds throughout.\<close>

theorem bufferdata_run_safe:
  assumes "length (static_buffer b) = BUFFERDATA_SIZE"
  shows "returns (Option.bind (bufferdata_init b) (bufferdata_run ops)) bufferdata_ok"
proof -
  have run: "bufferdata_ok c \<Longrightarrow> returns (bufferdata_run ops c) bufferdata_ok" for c
  proof (induction ops arbitrary: c)
    case Nil
    then show ?case by simp
  next
    case (Cons x ops)
    then show ?case
      by (auto intro!: returns_mono [OF bufferdata_exec_ok])
  qed
  show ?thesis
    using bufferdata_init_spec [OF assms] by (auto intro: returns_mono run)
qed

definition blank_bufferdata :: bufferdata where
  "blank_bufferdata = \<lparr>static_buffer = replicate BUFFERDATA_SIZE nul, dynamic_buffer = None,
     offset_sbuffer = 0, offset_dbuffer = 0, dbuffer_size = 0, buf_type = BUFFERDATA_STATIC\<rparr>"

theorem bufferdata_run_safe_witness:
  "length (static_buffer blank_bufferdata) = BUFFERDATA_SIZE \<and>
   returns (Option.bind (bufferdata_init blank_bufferdata)
     (bufferdata_run [((\<lambda>_. None), Push CHR ''a''), ((\<lambda>_. None), Move_To_Start 7 9), ((\<lambda>_. None), Pop_Back)]))
     bufferdata_ok"
proof -
  have "length (static_buffer blank_bufferdata) = BUFFERDATA_SIZE"
    by (simp add: blank_bufferdata_def)
  then show ?thesis
    using bufferdata_run_safe by blast
qed

text \<open>Property C30. Round trip of the parser buffer: pushing any byte string, however long, into a
  fresh buffer and copying it out gives exactly those bytes followed by one NUL, provided
  that no allocation fails.\<close>

theorem bufferdata_push_copy:
  assumes "length (static_buffer b) = BUFFERDATA_SIZE" and "never_fails m"
  shows "returns (do { b0 \<leftarrow> bufferdata_init b; (r, b1) \<leftarrow> put_all (bufferdata_push m) b0 xs;
                       bufferdata_copy m b1 })
           (\<lambda>(s, b2). s = Some (xs @ [nul]) \<and> bufferdata_writed b2 = length xs)"
proof -
  obtain g where m: "m = total_allocator g"
    using assms(2) by (rule never_failsE)
  obtain b0 where b0: "bufferdata_init b = Some b0" "bufferdata_inv b0" "bufferdata_content b0 = []"
    using bufferdata_init_spec [OF assms(1)] by (auto simp: bufferdata_inv_def elim: returnsE)
  obtain b1 where b1: "put_all (bufferdata_push m) b0 xs = Some (True, b1)" "bufferdata_inv b1"
    "bufferdata_content b1 = xs"
    using bdr.put_all_succeeds [OF b0(2), of g xs] b0(3) by (auto simp: m elim!: returnsE)
  have "returns (bufferdata_copy m b1) (\<lambda>(s, b2). s = Some (xs @ [nul]) \<and> bufferdata_writed b2 = length xs)"
    using b1 assms(2) bufferdata_copy_spec [of b1 m]
    by (auto simp: bufferdata_inv_def bufferdata_writed_content elim!: returns_mono)
  then show ?thesis
    using b0 b1 by simp
qed

theorem bufferdata_push_copy_witness:
  "never_fails (total_allocator (\<lambda>_ _. nul)) \<and>
   returns (do { b0 \<leftarrow> bufferdata_init blank_bufferdata;
                 (r, b1) \<leftarrow> put_all (bufferdata_push (total_allocator (\<lambda>_ _. nul))) b0 (replicate 9000 CHR ''x'');
                 bufferdata_copy (total_allocator (\<lambda>_ _. nul)) b1 })
     (\<lambda>(s, b2). s = Some (replicate 9000 CHR ''x'' @ [nul]) \<and>
                bufferdata_writed b2 = length (replicate 9000 CHR ''x''))"
proof -
  have 1: "length (static_buffer blank_bufferdata) = BUFFERDATA_SIZE"
    by (simp add: blank_bufferdata_def)
  have 2: "never_fails (total_allocator (\<lambda>_ _. nul))"
    by simp
  show ?thesis
    using bufferdata_push_copy [OF 1 2] 2 by blast
qed

section \<open>Short contents\<close>

text \<open>A buffer whose content never left the static block: what parsers of short tokens rely on.\<close>

definition holds_static :: "bufferdata \<Rightarrow> char list \<Rightarrow> bool" where
  "holds_static b xs \<longleftrightarrow> bufferdata_inv b \<and> buf_type b = BUFFERDATA_STATIC \<and> dynamic_buffer b = None \<and>
     dbuffer_size b = 0 \<and> bufferdata_content b = xs"

lemma holds_static_offset: "holds_static b xs \<Longrightarrow> offset_sbuffer b = length xs"
  using bufferdata_writed_content [of b]
  by (simp add: holds_static_def bufferdata_inv_def bufferdata_writed_def)

lemma holds_static_push:
  assumes "holds_static b xs" and "length xs < BUFFERDATA_CAPACITY"
  shows "\<exists>b'. bufferdata_push m b c = Some (True, b') \<and> holds_static b' (xs @ [c])"
proof -
  have ok: "bufferdata_ok b" and off: "offset_sbuffer b < BUFFERDATA_CAPACITY"
    using assms holds_static_offset [OF assms(1)] by (simp_all add: holds_static_def bufferdata_inv_def)
  obtain s1 s2 where "poke (static_buffer b) (offset_sbuffer b) [c] = Some s1"
    and "poke s1 (offset_sbuffer b + 1) [nul] = Some s2"
    using bufferdata_store_spec [OF ok off, of c] by (auto elim!: returnsE)
  then show ?thesis
    using assms off bufferdata_store_spec [OF ok off, of c]
    by (auto simp: bufferdata_push_def holds_static_def bufferdata_inv_def)
qed

lemma holds_static_complete: "holds_static b xs \<Longrightarrow> bufferdata_complete m b = Some (True, b)"
  by (simp add: bufferdata_complete_def holds_static_def)

lemma holds_static_get:
  assumes "holds_static b xs"
  shows "bufferdata_get m b = Some (Some (static_buffer b), b)" and "holds_cstring (static_buffer b) xs"
  using assms bufferdata_get_static [of b]
  by (simp_all add: bufferdata_get_def holds_static_def bufferdata_inv_def)

lemma holds_static_reset:
  assumes "holds_static b xs"
  shows "\<exists>b'. bufferdata_reset b = Some b' \<and> holds_static b' []"
    and "\<exists>b'. bufferdata_clear b = Some b' \<and> holds_static b' []"
  using assms bufferdata_reset_spec [of b] bufferdata_clear_spec [of b]
  by (auto simp: holds_static_def bufferdata_inv_def bufferdata_reset_def bufferdata_clear_def returns_iff
      split: Option.bind_splits)

lemma holds_static_writed: "holds_static b xs \<Longrightarrow> bufferdata_writed b = length xs"
  using holds_static_offset [of b xs] by (simp add: bufferdata_writed_def holds_static_def)

end
