(* ===== verification/Helpers.thy ===== *)
theory Helpers
  imports Prelude "HOL-Library.Sublist"
begin

unbundle bit_operations_syntax

text \<open>
  The string utilities of misc/helpers.c: case-insensitive comparison, file extensions, hex
  and URL codecs, bounded appends and the path-traversal test. Input strings are byte lists
  (with the length the C code receives or finds by \<^verbatim>\<open>strlen\<close>); output buffers are
  memory blocks. The lemmas show that the codecs are inverse to each other, that every
  output fits the buffer the code allocates for it, and what the recognisers accept.
\<close>

section \<open>Comparison\<close>

fun cmp_lower_loop :: "char list \<Rightarrow> char list \<Rightarrow> bool" where
  "cmp_lower_loop (x # xs) (y # ys) = (if c_tolower x \<noteq> c_tolower y then False else cmp_lower_loop xs ys)"
| "cmp_lower_loop _ _ = True"

definition cmpstrn_lower :: "char list \<Rightarrow> char list \<Rightarrow> bool" where
  "cmpstrn_lower a b = (if length a \<noteq> length b then False else cmp_lower_loop a b)"

definition cmpstr_lower :: "char list \<Rightarrow> char list \<Rightarrow> bool" where
  "cmpstr_lower a b = cmpstrn_lower a b"

text \<open>The loop of \<^verbatim>\<open>cmpsubstr_lower\<close>: \<open>j\<close> and \<open>cmpsize\<close> are reset at the first mismatch
  and the scan goes on with the next byte of \<open>a\<close>.\<close>

fun cmpsubstr_loop :: "char list \<Rightarrow> char list \<Rightarrow> nat \<Rightarrow> nat \<Rightarrow> bool" where
  "cmpsubstr_loop [] b j cmpsize = (cmpsize = length b)"
| "cmpsubstr_loop (x # xs) b j cmpsize =
     (if length b \<le> j then cmpsize = length b
      else if c_tolower x \<noteq> c_tolower (b ! j) then cmpsubstr_loop xs b 0 0
      else if Suc cmpsize = length b then True
      else cmpsubstr_loop xs b (Suc j) (Suc cmpsize))"

definition cmpsubstr_lower :: "char list \<Rightarrow> char list \<Rightarrow> bool" where
  "cmpsubstr_lower a b = cmpsubstr_loop a b 0 0"

section \<open>File extension\<close>

text \<open>The scan runs over the reversed path; \<open>seen\<close> is what follows the current byte.\<close>

fun file_extension_loop :: "char list \<Rightarrow> char list \<Rightarrow> char list option" where
  "file_extension_loop [] seen = None"
| "file_extension_loop (c # cs) seen =
     (if c = CHR ''.'' then (if seen = [] then None else Some seen)
      else if c = CHR ''/'' then None
      else file_extension_loop cs (c # seen))"

definition file_extension :: "char list \<Rightarrow> char list option" where
  "file_extension path = (if path = [] then None else file_extension_loop (rev path) [])"

section \<open>Hexadecimal codec\<close>

definition hex_char_to_int :: "char \<Rightarrow> int" where
  "hex_char_to_int c =
     (if 48 \<le> ord c \<and> ord c \<le> 57 then int (ord c) - 48
      else if 97 \<le> ord c \<and> ord c \<le> 102 then int (ord c) - 97 + 10
      else if 65 \<le> ord c \<and> ord c \<le> 70 then int (ord c) - 65 + 10
      else -1)"

definition join_nibbles :: "int \<Rightarrow> int \<Rightarrow> char" where
  "join_nibbles high low = char_of (push_bit 4 (nat high) OR nat low)"

fun hex_to_bytes_loop :: "char list \<Rightarrow> nat \<Rightarrow> char list \<Rightarrow> (bool \<times> char list) option" where
  "hex_to_bytes_loop (a # b # hex) k raw =
     (let high = hex_char_to_int a; low = hex_char_to_int b in
      if high = -1 \<or> low = -1 then Some (False, raw)
      else do { raw' \<leftarrow> poke raw k [join_nibbles high low]; hex_to_bytes_loop hex (Suc k) raw' })"
| "hex_to_bytes_loop _ k raw = Some (True, raw)"

definition hex_to_bytes :: "char list \<Rightarrow> char list \<Rightarrow> nat \<Rightarrow> (bool \<times> char list) option" where
  "hex_to_bytes hex raw raw_size =
     (if length hex mod 2 \<noteq> 0 then Some (False, raw)
      else if raw_size < length hex div 2 then Some (False, raw)
      else hex_to_bytes_loop hex 0 raw)"

definition hexChars :: "char list" where
  "hexChars = ''0123456789abcdef''"

fun bytes_to_hex_loop :: "char list \<Rightarrow> nat \<Rightarrow> char list \<Rightarrow> char list option" where
  "bytes_to_hex_loop [] i hex = poke hex (i * 2) [nul]"
| "bytes_to_hex_loop (c # raw) i hex = do {
     hex1 \<leftarrow> poke hex (i * 2) [hexChars ! (drop_bit 4 (ord c) AND 15)];
     hex2 \<leftarrow> poke hex1 (i * 2 + 1) [hexChars ! (ord c AND 15)];
     bytes_to_hex_loop raw (Suc i) hex2
   }"

definition bytes_to_hex :: "char list \<Rightarrow> char list \<Rightarrow> char list option" where
  "bytes_to_hex raw hex = bytes_to_hex_loop raw 0 hex"

section \<open>URL codec\<close>

definition byte_to_hex :: "nat \<Rightarrow> char" where
  "byte_to_hex code = ''0123456789ABCDEF'' ! (code AND 15)"

text \<open>The bytes written for one input byte, and the bytes the loop writes.\<close>

definition urlencode_char :: "char \<Rightarrow> char list" where
  "urlencode_char ch =
     (if c_isalnum ch \<or> ch = CHR ''-'' \<or> ch = CHR ''_'' \<or> ch = CHR ''.'' \<or> ch = CHR ''~'' then [ch]
      else if ch = CHR '' '' then [CHR ''+'']
      else [CHR ''%'', byte_to_hex (drop_bit 4 (ord ch)), byte_to_hex (ord ch AND 15)])"

primrec urlencode_loop :: "char list \<Rightarrow> char list" where
  "urlencode_loop [] = []"
| "urlencode_loop (c # cs) = urlencode_char c @ urlencode_loop cs"

text \<open>\<open>Some None\<close> is the NULL result of a failed allocation; otherwise the block and the
  output length.\<close>

definition urlencodel :: "allocator \<Rightarrow> char list \<Rightarrow> (char list \<times> nat) option option" where
  "urlencodel m string =
     (case malloc m (szadd (szmul (length string) 3) 1) of
        None \<Rightarrow> Some None
      | Some buffer \<Rightarrow> do {
          buffer' \<leftarrow> poke buffer 0 (urlencode_loop string @ [nul]);
          Some (Some (buffer', length (urlencode_loop string)))
        })"

definition urlencode :: "allocator \<Rightarrow> char list \<Rightarrow> char list option option" where
  "urlencode m string = map_option (map_option fst) (urlencodel m string)"

fun urldecode_loop :: "char list \<Rightarrow> char list" where
  "urldecode_loop [] = []"
| "urldecode_loop (ch # cs) =
     (if ch = CHR ''%'' then
        (case cs of
           a # b # rest \<Rightarrow>
             (let hi = hex_char_to_int a; lo = hex_char_to_int b in
              if 0 \<le> hi \<and> 0 \<le> lo then join_nibbles hi lo # urldecode_loop rest
              else CHR ''%'' # urldecode_loop cs)
         | _ \<Rightarrow> CHR ''%'' # urldecode_loop cs)
      else if ch = CHR ''+'' then CHR '' '' # urldecode_loop cs
      else ch # urldecode_loop cs)"

definition urldecodel :: "allocator \<Rightarrow> char list \<Rightarrow> (char list \<times> nat) option option" where
  "urldecodel m string =
     (case malloc m (szadd (length string) 1) of
        None \<Rightarrow> Some None
      | Some buffer \<Rightarrow> do {
          buffer' \<leftarrow> poke buffer 0 (urldecode_loop string @ [nul]);
          Some (Some (buffer', length (urldecode_loop string)))
        })"

definition urldecode :: "allocator \<Rightarrow> char list \<Rightarrow> char list option option" where
  "urldecode m string = map_option (map_option fst) (urldecodel m string)"

section \<open>Bounded appends and copies\<close>

definition data_append :: "char list \<Rightarrow> nat \<Rightarrow> char list \<Rightarrow> (bool \<times> char list \<times> nat) option" where
  "data_append data pos string = do {
     data' \<leftarrow> poke data pos string;
     Some (True, data', pos + length string)
   }"

definition data_appendn ::
    "char list \<Rightarrow> nat \<Rightarrow> nat \<Rightarrow> char list \<Rightarrow> (bool \<times> char list \<times> nat) option" where
  "data_appendn data pos max_size string =
     (if max_size \<le> pos then Some (False, data, pos)
      else if max_size - pos \<le> length string then Some (False, data, pos)
      else do { data' \<leftarrow> poke data pos string; Some (True, data', pos + length string) })"

definition copy_cstringn :: "allocator \<Rightarrow> char list option \<Rightarrow> nat \<Rightarrow> char list option option" where
  "copy_cstringn m string n =
     (case malloc m (n + 1) of
        None \<Rightarrow> Some None
      | Some value \<Rightarrow> do {
          v1 \<leftarrow> (case string of
                  None \<Rightarrow> Some value
                | Some s \<Rightarrow> do { src \<leftarrow> peek s 0 n; poke value 0 src });
          v2 \<leftarrow> poke v1 n [nul];
          Some (Some v2)
        })"

section \<open>Path traversal\<close>

fun is_path_traversal_loop :: "char list \<Rightarrow> char \<Rightarrow> char \<Rightarrow> char \<Rightarrow> bool" where
  "is_path_traversal_loop [] ch_1 ch_2 ch_3 =
     (if ch_1 = CHR ''/'' \<and> ch_2 = CHR ''.'' \<and> ch_3 = CHR ''.'' then True else False)"
| "is_path_traversal_loop (c # cs) ch_1 ch_2 ch_3 =
     (if ch_1 = CHR ''/'' \<and> ch_2 = CHR ''.'' \<and> ch_3 = CHR ''.'' \<and> c = CHR ''/'' then True
      else is_path_traversal_loop cs ch_2 ch_3 c)"

definition is_path_traversal :: "char list \<Rightarrow> bool" where
  "is_path_traversal string = is_path_traversal_loop string nul nul (CHR ''/'')"

section \<open>Reference definitions\<close>

text \<open>The segments of a path between slashes.\<close>

fun path_segments :: "char list \<Rightarrow> char list \<Rightarrow> char list list" where
  "path_segments seg [] = [rev seg]"
| "path_segments seg (c # cs) =
     (if c = CHR ''/'' then rev seg # path_segments [] cs else path_segments (c # seg) cs)"

section \<open>Lemmas\<close>

subsection \<open>Nibbles\<close>

lemma and_15: "n AND 15 = n mod (16 :: nat)"
  using take_bit_eq_mask [of 4 n] by (simp add: take_bit_eq_mod mask_eq_exp_minus_1)

lemma ord_join_nibbles:
  assumes "h < 16" and "l < 16"
  shows "ord (join_nibbles (int h) (int l)) = 16 * h + l"
proof -
  have "take_bit 4 l = l"
    using assms(2) by (simp add: take_bit_nat_eq_self_iff)
  then have "bit l n \<Longrightarrow> n < 4" for n
    by (metis bit_take_bit_iff)
  then have "push_bit 4 h AND l = 0"
    by (intro bit_eqI) (auto simp: bit_and_iff bit_push_bit_iff_nat dest: leD)
  then have "push_bit 4 h OR l = push_bit 4 h + l"
    by (simp add: disjunctive_add_eq_or)
  then show ?thesis
    using assms by (simp add: join_nibbles_def push_bit_eq_mult)
qed

lemma hex_char_to_int_upper: "k < 16 \<Longrightarrow> hex_char_to_int (''0123456789ABCDEF'' ! k) = int k"
proof -
  have "list_all (\<lambda>k. hex_char_to_int (''0123456789ABCDEF'' ! k) = int k) [0..<16]"
    by code_simp
  then show "k < 16 \<Longrightarrow> hex_char_to_int (''0123456789ABCDEF'' ! k) = int k"
    by (simp add: list_all_iff)
qed

lemma hex_char_to_int_lower: "k < 16 \<Longrightarrow> hex_char_to_int (hexChars ! k) = int k"
proof -
  have "list_all (\<lambda>k. hex_char_to_int (hexChars ! k) = int k) [0..<16]"
    by code_simp
  then show "k < 16 \<Longrightarrow> hex_char_to_int (hexChars ! k) = int k"
    by (simp add: list_all_iff)
qed

lemma ord_div_16: "ord c div 16 < 16"
  using less_mult_imp_div_less [of "ord c" 16 16] by simp

lemma join_split_nibbles: "join_nibbles (int (ord c div 16)) (int (ord c mod 16)) = c"
proof -
  have "ord (join_nibbles (int (ord c div 16)) (int (ord c mod 16))) = ord c"
    using ord_div_16 [of c] by (simp add: ord_join_nibbles)
  then show ?thesis
    by simp
qed

lemma hex_char_to_int_range: "hex_char_to_int c < 16 \<and> -1 \<le> hex_char_to_int c"
  by (auto simp: hex_char_to_int_def)

subsection \<open>Comparison\<close>

lemma cmp_lower_loop_iff:
  "length a = length b \<Longrightarrow> cmp_lower_loop a b \<longleftrightarrow> map c_tolower a = map c_tolower b"
  by (induction a b rule: list_induct2) auto

lemma cmpstrn_lower_iff: "cmpstrn_lower a b \<longleftrightarrow> map c_tolower a = map c_tolower b"
  using cmp_lower_loop_iff [of a b] by (auto simp: cmpstrn_lower_def dest: map_eq_imp_length_eq)

lemma cmpsubstr_loop_sound:
  assumes "map c_tolower p = us @ map c_tolower (take j b)"
    and "cmpsubstr_loop a b j j" and "j < length b"
  shows "sublist (map c_tolower b) (map c_tolower (p @ a))"
  using assms
proof (induction a arbitrary: p us j)
  case Nil
  then show ?case by simp
next
  case (Cons x xs)
  have snoc: "take (Suc j) b = take j b @ [b ! j]"
    using Cons.prems(3) by (rule take_Suc_conv_app_nth)
  show ?case
  proof (cases "c_tolower x = c_tolower (b ! j)")
    case False
    then have "cmpsubstr_loop xs b 0 0"
      using Cons.prems by simp
    moreover have "map c_tolower (p @ [x]) = map c_tolower (p @ [x]) @ map c_tolower (take 0 b)"
      by simp
    ultimately have "sublist (map c_tolower b) (map c_tolower ((p @ [x]) @ xs))"
      using Cons.prems(3) Cons.IH [where p = "p @ [x]" and us = "map c_tolower (p @ [x])" and j = 0]
      by (cases b) auto
    then show ?thesis
      by simp
  next
    case True
    have px: "map c_tolower (p @ [x]) = us @ map c_tolower (take (Suc j) b)"
      using Cons.prems(1) True by (simp add: snoc)
    show ?thesis
    proof (cases "Suc j = length b")
      case True
      then have "map c_tolower (p @ x # xs) = us @ map c_tolower b @ map c_tolower xs"
        using px by simp
      then show ?thesis
        by (metis sublist_appendI)
    next
      case False
      then have "cmpsubstr_loop xs b (Suc j) (Suc j)"
        using Cons.prems True by simp
      then have "sublist (map c_tolower b) (map c_tolower ((p @ [x]) @ xs))"
        using px False Cons.prems(3) by (intro Cons.IH [where us = us and j = "Suc j"]) auto
      then show ?thesis
        by simp
    qed
  qed
qed

lemma cmpsubstr_lower_sound_aux:
  assumes "cmpsubstr_lower a b"
  shows "sublist (map c_tolower b) (map c_tolower a)"
proof (cases "b = []")
  case False
  then show ?thesis
    using cmpsubstr_loop_sound [of "[]" "[]" 0 b a] assms by (simp add: cmpsubstr_lower_def)
qed simp

subsection \<open>URL codec\<close>

lemma urlencode_char_length: "1 \<le> length (urlencode_char c) \<and> length (urlencode_char c) \<le> 3"
  by (simp add: urlencode_char_def)

lemma urlencode_loop_length: "length (urlencode_loop s) \<le> 3 * length s"
proof (induction s)
  case (Cons c cs)
  then show ?case
    using urlencode_char_length [of c] by simp
qed simp

declare urldecode_loop.simps(2) [simp del]

lemma urldecode_percent:
  "hex_char_to_int a = int h \<Longrightarrow> hex_char_to_int b = int l \<Longrightarrow>
   urldecode_loop (CHR ''%'' # a # b # rest) = join_nibbles (int h) (int l) # urldecode_loop rest"
  by (simp add: urldecode_loop.simps(2))

lemma urldecode_plain:
  "c \<noteq> CHR ''%'' \<Longrightarrow> c \<noteq> CHR ''+'' \<Longrightarrow> urldecode_loop (c # rest) = c # urldecode_loop rest"
  by (simp add: urldecode_loop.simps(2))

lemma urldecode_plus: "urldecode_loop (CHR ''+'' # rest) = CHR '' '' # urldecode_loop rest"
  by (simp add: urldecode_loop.simps(2))

lemma urldecode_loop_length: "length (urldecode_loop s) \<le> length s"
proof (induction s rule: length_induct)
  case (1 s)
  have IH: "length (urldecode_loop t) \<le> length t" if "length t < length s" for t
    using 1 that by blast
  show ?case
  proof (cases s)
    case s: (Cons ch cs)
    have tl: "length (urldecode_loop cs) \<le> length cs"
      using IH [of cs] s by simp
    show ?thesis
    proof (cases "\<exists>a b rest. cs = a # b # rest")
      case True
      then obtain a b rest where cs: "cs = a # b # rest"
        by blast
      then have "length (urldecode_loop rest) \<le> length rest"
        using IH [of rest] s by simp
      with tl show ?thesis
        by (simp add: s cs urldecode_loop.simps(2) [of ch "a # b # rest"] Let_def)
    next
      case False
      then show ?thesis
        using tl by (auto simp: s urldecode_loop.simps(2) [of ch cs] split: list.splits)
    qed
  qed simp
qed

lemma urldecode_urlencode_char: "urldecode_loop (urlencode_char c @ rest) = c # urldecode_loop rest"
proof (cases "c_isalnum c \<or> c = CHR ''-'' \<or> c = CHR ''_'' \<or> c = CHR ''.'' \<or> c = CHR ''~''")
  case True
  then have "c \<noteq> CHR ''%'' \<and> c \<noteq> CHR ''+''"
    by (auto simp: c_isalnum_def c_isdigit_def c_isupper_def c_islower_def)
  with True show ?thesis
    by (simp add: urlencode_char_def urldecode_plain)
next
  case False
  show ?thesis
  proof (cases "c = CHR '' ''")
    case True
    with False show ?thesis
      by (simp add: urlencode_char_def urldecode_plus)
  next
    case sp: False
    have h: "hex_char_to_int (byte_to_hex (drop_bit 4 (ord c))) = int (ord c div 16)"
      using ord_div_16 [of c] by (simp add: byte_to_hex_def and_15 drop_bit_eq_div hex_char_to_int_upper)
    have l: "hex_char_to_int (byte_to_hex (ord c AND 15)) = int (ord c mod 16)"
      by (simp add: byte_to_hex_def and_15 hex_char_to_int_upper)
    have "urlencode_char c @ rest =
            CHR ''%'' # byte_to_hex (drop_bit 4 (ord c)) # byte_to_hex (ord c AND 15) # rest"
      using False sp by (simp add: urlencode_char_def)
    then show ?thesis
      using urldecode_percent [OF h l] by (simp add: join_split_nibbles)
  qed
qed

lemma urldecode_urlencode_loop: "urldecode_loop (urlencode_loop s) = s"
  by (induction s) (simp_all add: urldecode_urlencode_char)

subsection \<open>Path traversal\<close>

text \<open>The loop looks at the four last bytes only: whether the text so far, read from the last
  slash, is \<^verbatim>\<open>..\<close> exactly. The relation says what the three remembered bytes know about
  the current segment.\<close>

definition last_three :: "char list \<Rightarrow> char \<Rightarrow> char \<Rightarrow> char \<Rightarrow> bool" where
  "last_three seg c1 c2 c3 \<longleftrightarrow> CHR ''/'' \<notin> set seg \<and>
     (case seg of
        [] \<Rightarrow> c3 = CHR ''/''
      | [a] \<Rightarrow> c2 = CHR ''/'' \<and> c3 = a
      | [b, a] \<Rightarrow> c1 = CHR ''/'' \<and> c2 = a \<and> c3 = b
      | c # b # a # _ \<Rightarrow> c1 = a \<and> c2 = b \<and> c3 = c)"

lemma last_three_dotdot:
  "last_three seg c1 c2 c3 \<Longrightarrow>
   (c1 = CHR ''/'' \<and> c2 = CHR ''.'' \<and> c3 = CHR ''.'') \<longleftrightarrow> ''..'' = rev seg"
  by (auto simp: last_three_def split: list.splits)

lemma last_three_slash: "last_three [] c2 c3 (CHR ''/'')"
  by (simp add: last_three_def)

lemma last_three_snoc: "last_three seg c1 c2 c3 \<Longrightarrow> c \<noteq> CHR ''/'' \<Longrightarrow> last_three (c # seg) c2 c3 c"
  by (auto simp: last_three_def split: list.splits)

lemma is_path_traversal_loop_iff:
  "last_three seg c1 c2 c3 \<Longrightarrow>
   is_path_traversal_loop cs c1 c2 c3 \<longleftrightarrow> ''..'' \<in> set (path_segments seg cs)"
proof (induction cs arbitrary: seg c1 c2 c3)
  case Nil
  then show ?case
    using last_three_dotdot [OF Nil] by auto
next
  case (Cons c cs)
  show ?case
  proof (cases "c = CHR ''/''")
    case True
    then show ?thesis
      using last_three_dotdot [OF Cons.prems] Cons.IH [OF last_three_slash, of c2 c3] by auto
  next
    case False
    then show ?thesis
      using Cons.IH [OF last_three_snoc [OF Cons.prems False]] by simp
  qed
qed

subsection \<open>File extension\<close>

lemma file_extension_loop_iff:
  "CHR ''.'' \<notin> set seen \<Longrightarrow> CHR ''/'' \<notin> set seen \<Longrightarrow>
   file_extension_loop rp seen = Some ext \<longleftrightarrow>
   (\<exists>base. rev rp @ seen = base @ CHR ''.'' # ext) \<and> ext \<noteq> [] \<and>
   CHR ''.'' \<notin> set ext \<and> CHR ''/'' \<notin> set ext"
proof (induction rp arbitrary: seen)
  case Nil
  then show ?case
    by (auto simp: append_eq_Cons_conv)
next
  case (Cons c cs)
  have last_dot: "CHR ''.'' \<notin> set ext \<Longrightarrow> rev cs @ CHR ''.'' # seen = base @ CHR ''.'' # ext \<longleftrightarrow>
      base = rev cs \<and> ext = seen" for base
    using Cons.prems by (auto simp: append_eq_append_conv2 Cons_eq_append_conv append_eq_Cons_conv)
  have last_slash: "\<nexists>base. CHR ''/'' \<notin> set ext \<and> rev cs @ CHR ''/'' # seen = base @ CHR ''.'' # ext"
    using Cons.prems by (auto simp: append_eq_append_conv2 Cons_eq_append_conv append_eq_Cons_conv)
  consider "c = CHR ''.''" | "c = CHR ''/''" | "c \<noteq> CHR ''.''" "c \<noteq> CHR ''/''"
    by blast
  then show ?case
  proof cases
    case 1
    with last_dot Cons.prems show ?thesis
      by auto
  next
    case 2
    with last_slash show ?thesis
      by auto
  next
    case 3
    with Cons.IH [of "c # seen"] Cons.prems show ?thesis
      by simp
  qed
qed

lemma file_extension_iff:
  "file_extension path = Some ext \<longleftrightarrow>
   (\<exists>base. path = base @ CHR ''.'' # ext) \<and> ext \<noteq> [] \<and>
   CHR ''.'' \<notin> set ext \<and> CHR ''/'' \<notin> set ext"
  using file_extension_loop_iff [of "[]" "rev path" ext] by (auto simp: file_extension_def)

subsection \<open>Hexadecimal codec\<close>

text \<open>The text written for a byte string, and the two loops in terms of it.\<close>

definition hex_text :: "char list \<Rightarrow> char list" where
  "hex_text raw = concat (map (\<lambda>c. [hexChars ! (ord c div 16), hexChars ! (ord c mod 16)]) raw)"

lemma hex_text_simps [simp]:
  "hex_text [] = []"
  "hex_text (c # raw) = hexChars ! (ord c div 16) # hexChars ! (ord c mod 16) # hex_text raw"
  by (simp_all add: hex_text_def)

lemma length_hex_text [simp]: "length (hex_text raw) = 2 * length raw"
  by (induction raw) simp_all

lemma drop_bit_4_mod_16: "drop_bit 4 (ord c) mod 16 = ord c div 16"
  using ord_div_16 [of c] by (simp add: drop_bit_eq_div)

lemma bytes_to_hex_loop_spec:
  assumes "length done = 2 * i" and "length rest = 2 * length raw + 1"
  shows "bytes_to_hex_loop raw i (done @ rest @ tail) = Some (done @ hex_text raw @ nul # tail)"
  using assms
proof (induction raw arbitrary: i "done" rest)
  case Nil
  then obtain x where "rest = [x]"
    by (auto simp: length_Suc_conv)
  with Nil show ?case
    by (simp add: poke_one)
next
  case (Cons c raw)
  then obtain x y rest' where rest: "rest = x # y # rest'" and len: "length rest' = 2 * length raw + 1"
    by (auto simp: length_Suc_conv)
  have p1: "poke (done @ x # y # rest' @ tail) (i * 2) [h] = Some (done @ h # y # rest' @ tail)" for h
    using Cons.prems(1) by (simp add: poke_one)
  have p2: "poke (done @ h # y # rest' @ tail) (i * 2 + 1) [l] = Some (done @ h # l # rest' @ tail)" for h l
    using poke_one [of "done @ [h]" "i * 2 + 1" y "rest' @ tail" l] Cons.prems(1) by simp
  show ?case
    using Cons.IH [of "done @ [hexChars ! (ord c div 16), hexChars ! (ord c mod 16)]" "Suc i" rest']
      Cons.prems(1) len p1 p2
    by (simp add: rest and_15 drop_bit_4_mod_16)
qed

lemma hex_to_bytes_loop_spec:
  assumes "length done = k" and "length rest = length raw"
  shows "hex_to_bytes_loop (hex_text raw) k (done @ rest @ tail) = Some (True, done @ raw @ tail)"
  using assms
proof (induction raw arbitrary: k "done" rest)
  case (Cons c raw)
  then obtain x rest' where rest: "rest = x # rest'" and len: "length rest' = length raw"
    by (auto simp: length_Suc_conv)
  have h: "hex_char_to_int (hexChars ! (ord c div 16)) = int (ord c div 16)"
    using hex_char_to_int_lower [of "ord c div 16"] ord_div_16 [of c] by simp
  have l: "hex_char_to_int (hexChars ! (ord c mod 16)) = int (ord c mod 16)"
    using hex_char_to_int_lower [of "ord c mod 16"] by simp
  have p: "poke (done @ x # rest' @ tail) k [c] = Some (done @ c # rest' @ tail)"
    using Cons.prems(1) by (simp add: poke_one)
  show ?case
    using Cons.IH [of "done @ [c]" "Suc k" rest'] Cons.prems(1) len p
    by (simp add: rest h l join_split_nibbles)
qed simp

subsection \<open>URL codec in memory\<close>

lemma urlencodel_spec:
  assumes "never_fails m" and "length string < 2 ^ 62"
  obtains rest where "urlencodel m string =
    Some (Some (urlencode_loop string @ nul # rest, length (urlencode_loop string)))"
proof -
  have size: "szadd (szmul (length string) 3) 1 = 3 * length string + 1"
    using assms(2) by (simp add: szadd_exact szmul_exact size_modulus_def)
  obtain blk where blk: "malloc m (3 * length string + 1) = Some blk"
    using malloc_never_fails [OF assms(1)] by blast
  have "length (urlencode_loop string @ [nul]) \<le> length blk"
    using malloc_length [OF blk] urlencode_loop_length [of string] by simp
  then have "poke blk 0 (urlencode_loop string @ [nul]) =
      Some (urlencode_loop string @ nul # drop (length (urlencode_loop string @ [nul])) blk)"
    by (subst poke_in) auto
  then have "urlencodel m string = Some (Some (urlencode_loop string @ nul #
      drop (length (urlencode_loop string @ [nul])) blk, length (urlencode_loop string)))"
    unfolding urlencodel_def size blk by simp
  then show thesis
    by (rule that)
qed

lemma urldecodel_spec:
  assumes "never_fails m" and "length string < size_modulus - 1"
  obtains rest where "urldecodel m string =
    Some (Some (urldecode_loop string @ nul # rest, length (urldecode_loop string)))"
proof -
  have size: "szadd (length string) 1 = length string + 1"
    using assms(2) by (simp add: szadd_exact)
  obtain blk where blk: "malloc m (length string + 1) = Some blk"
    using malloc_never_fails [OF assms(1)] by blast
  have "length (urldecode_loop string @ [nul]) \<le> length blk"
    using malloc_length [OF blk] urldecode_loop_length [of string] by simp
  then have "poke blk 0 (urldecode_loop string @ [nul]) =
      Some (urldecode_loop string @ nul # drop (length (urldecode_loop string @ [nul])) blk)"
    by (subst poke_in) auto
  then have "urldecodel m string = Some (Some (urldecode_loop string @ nul #
      drop (length (urldecode_loop string @ [nul])) blk, length (urldecode_loop string)))"
    unfolding urldecodel_def size blk by simp
  then show thesis
    by (rule that)
qed

section \<open>Properties\<close>

text \<open>Property C14. URL coding round trip: with a working allocator and a string short enough for its
  size computation, \<open>urlencodel\<close> writes at most three bytes per input byte and a terminator inside
  its block, and decoding its output with \<open>urldecodel\<close> returns the original bytes.\<close>

theorem urlencode_urldecode:
  assumes "never_fails m" and "length string < 2 ^ 62"
  shows "returns (urlencodel m string) (\<lambda>r. \<exists>enc n. r = Some (enc, n) \<and>
      n \<le> 3 * length string \<and> n < length enc \<and> enc ! n = nul \<and>
      returns (urldecodel m (take n enc)) (\<lambda>r'. \<exists>dec. r' = Some (dec, length string) \<and>
        length string < length dec \<and> dec ! length string = nul \<and> take (length string) dec = string))"
proof -
  obtain rest where e: "urlencodel m string =
      Some (Some (urlencode_loop string @ nul # rest, length (urlencode_loop string)))"
    using urlencodel_spec [OF assms] by blast
  have le: "length (urlencode_loop string) \<le> 3 * length string"
    by (rule urlencode_loop_length)
  then obtain rest' where d: "urldecodel m (urlencode_loop string) =
      Some (Some (string @ nul # rest', length string))"
    using urldecodel_spec [OF assms(1), of "urlencode_loop string"] assms(2)
    by (auto simp: size_modulus_def urldecode_urlencode_loop)
  show ?thesis
    by (simp add: e d le)
qed

theorem urlencode_urldecode_witness:
  "returns (urlencodel (total_allocator (\<lambda>_ _. nul)) ''a b&c'') (\<lambda>r. \<exists>enc n. r = Some (enc, n) \<and>
      n \<le> 15 \<and> n < length enc \<and> enc ! n = nul \<and>
      returns (urldecodel (total_allocator (\<lambda>_ _. nul)) (take n enc)) (\<lambda>r'. \<exists>dec. r' = Some (dec, 5) \<and>
        5 < length dec \<and> dec ! 5 = nul \<and> take 5 dec = ''a b&c''))"
proof -
  have len: "length ''a b&c'' = 5"
    by simp
  show ?thesis
    using urlencode_urldecode [of "total_allocator (\<lambda>_ _. nul)" "''a b&c''", unfolded len] by simp
qed

text \<open>Property C20. A path is reported as a traversal exactly when one of its segments between
  slashes is two dots.\<close>

theorem is_path_traversal_iff: "is_path_traversal string \<longleftrightarrow> ''..'' \<in> set (path_segments [] string)"
  unfolding is_path_traversal_def by (rule is_path_traversal_loop_iff) (rule last_three_slash)

text \<open>Property C26. Hexadecimal round trip: \<open>bytes_to_hex\<close> stays inside an output buffer of
  two bytes per input byte and a terminator, and \<open>hex_to_bytes\<close> of the text it wrote restores the
  bytes in any buffer of that size.\<close>

theorem hex_round_trip:
  assumes "2 * length raw < length out" and "length raw \<le> length raw'"
  shows "returns (bytes_to_hex raw out) (\<lambda>hex. length hex = length out \<and> hex ! (2 * length raw) = nul \<and>
      hex_to_bytes (take (2 * length raw) hex) raw' (length raw') =
        Some (True, raw @ drop (length raw) raw'))"
proof -
  obtain rest u tail where out: "out = (rest @ [u]) @ tail" "length rest = 2 * length raw"
    using split_at_nth [OF assms(1)] by (metis append.assoc append_Cons append_Nil)
  obtain a b where raw': "raw' = a @ b" "length a = length raw"
    using split_at [OF assms(2)] by blast
  have "bytes_to_hex raw out = Some (hex_text raw @ nul # tail)"
    using bytes_to_hex_loop_spec [of "[]" 0 "rest @ [u]" raw tail] out
    by (simp add: bytes_to_hex_def)
  moreover have "hex_to_bytes (hex_text raw) raw' (length raw') = Some (True, raw @ b)"
    using hex_to_bytes_loop_spec [of "[]" 0 a raw b] raw' by (simp add: hex_to_bytes_def)
  ultimately show ?thesis
    using out raw' by (simp add: nth_append)
qed

theorem hex_round_trip_witness:
  "returns (bytes_to_hex ''kz'' ''........'') (\<lambda>hex. length hex = 8 \<and> hex ! 4 = nul \<and>
      hex_to_bytes (take 4 hex) ''abc'' 3 = Some (True, ''kzc''))"
proof -
  have len: "length ''kz'' = 2" "length ''........'' = 8" "length ''abc'' = 3"
    by simp_all
  show ?thesis
    using hex_round_trip [of "''kz''" "''........''" "''abc''", unfolded len] by simp
qed



end
