(* ===== verification/Map_Tree.thy ===== *)
theory Map_Tree
  imports Prelude Interfaces
begin

text \<open>
  The ordered map of \<open>misc/map.c\<close>: a red-black tree with parent pointers and a shared
  sentinel \<open>nil\<close>. The tree of nodes is a datatype; a node pointer together with the chain of
  its \<open>parent\<close> pointers is a \<^emph>\<open>location\<close>: the subtree at the node and the
  list of frames from its parent up to the root, each frame holding the parent's own fields, the side
  the child hangs on and the other child. Writing a field of an ancestor is an update of its frame,
  and \<open>x->parent = y\<close> is a change of the frame list. Reading a child of the sentinel yields NULL
  in the C code and following it is undefined behaviour, so the operations return \<open>None\<close>
  there; the lemmas show this never happens on a tree the operations built.

  Keys and values are modelled by their content. The callbacks of a map are fields of its record; the
  calls of the two free callbacks are logged. An iterator is a location of the tree it was made from:
  using it after the tree changed is outside the model. A failing \<open>strdup\<close> in a copy callback
  is not modelled.
\<close>

section \<open>Data\<close>

datatype map_color = MAP_RED | MAP_BLACK

datatype ('k, 'v) map_node =
    Nil_node
  | Node (node_color: map_color) (node_left: "('k, 'v) map_node") (node_key: 'k) (node_value: 'v)
      (node_right: "('k, 'v) map_node")

datatype side = Left_child | Right_child

datatype ('k, 'v) frame =
  Frame (f_side: side) (f_color: map_color) (f_key: 'k) (f_value: 'v) (f_sibling: "('k, 'v) map_node")

type_synonym ('k, 'v) location = "('k, 'v) map_node \<times> ('k, 'v) frame list"

record ('k, 'v) map_t =
  m_root :: "('k, 'v) map_node"
  m_size :: nat
  m_compare :: "'k \<Rightarrow> 'k \<Rightarrow> int"
  m_key_copy :: "('k \<Rightarrow> 'k) option"
  m_key_free :: bool
  m_value_copy :: "('v \<Rightarrow> 'v) option"
  m_value_free :: bool
  m_freed :: "('k, 'v) free_call list"

datatype ('k, 'v) map_iterator = It_null | It_nil | It_at "('k, 'v) location"

section \<open>Node access\<close>

definition color_of :: "('k, 'v) map_node \<Rightarrow> map_color" where
  "color_of t = (case t of Nil_node \<Rightarrow> MAP_BLACK | Node c _ _ _ _ \<Rightarrow> c)"

definition set_color :: "map_color \<Rightarrow> ('k, 'v) map_node \<Rightarrow> ('k, 'v) map_node" where
  "set_color c t = (case t of Nil_node \<Rightarrow> Nil_node | Node _ l k v r \<Rightarrow> Node c l k v r)"

definition plug :: "('k, 'v) frame \<Rightarrow> ('k, 'v) map_node \<Rightarrow> ('k, 'v) map_node" where
  "plug f t = (case f of
     Frame Left_child c k v r \<Rightarrow> Node c t k v r
   | Frame Right_child c k v l \<Rightarrow> Node c l k v t)"

primrec plugs :: "('k, 'v) map_node \<Rightarrow> ('k, 'v) frame list \<Rightarrow> ('k, 'v) map_node" where
  "plugs t [] = t"
| "plugs t (f # fs) = plugs (plug f t) fs"

section \<open>Creation\<close>

text \<open>The two allocations are for the map and for its sentinel.\<close>

definition map_create_ex ::
    "bool \<Rightarrow> bool \<Rightarrow> ('k \<Rightarrow> 'k \<Rightarrow> int) option \<Rightarrow> ('k \<Rightarrow> 'k) option \<Rightarrow> bool \<Rightarrow> ('v \<Rightarrow> 'v) option \<Rightarrow> bool \<Rightarrow>
     ('k, 'v) map_t option" where
  "map_create_ex ok1 ok2 compare key_copy key_free value_copy value_free =
     (case compare of
        None \<Rightarrow> None
      | Some cmp \<Rightarrow>
          if \<not> ok1 then None
          else if \<not> ok2 then None
          else Some \<lparr> m_root = Nil_node, m_size = 0, m_compare = cmp, m_key_copy = key_copy,
                      m_key_free = key_free, m_value_copy = value_copy, m_value_free = value_free,
                      m_freed = [] \<rparr>)"

definition map_create :: "bool \<Rightarrow> bool \<Rightarrow> ('k \<Rightarrow> 'k \<Rightarrow> int) option \<Rightarrow> ('k, 'v) map_t option" where
  "map_create ok1 ok2 compare = map_create_ex ok1 ok2 compare None False None False"

section \<open>Search\<close>

text \<open>The loop of \<open>map_find_node\<close>; \<open>None\<close> is the sentinel.\<close>

primrec find_loop ::
    "('k \<Rightarrow> 'k \<Rightarrow> int) \<Rightarrow> 'k \<Rightarrow> ('k, 'v) map_node \<Rightarrow> ('k, 'v) frame list \<Rightarrow> ('k, 'v) location option" where
  "find_loop compare key Nil_node fs = None"
| "find_loop compare key (Node c l k v r) fs =
     (let cmp = compare key k in
      if cmp = 0 then Some (Node c l k v r, fs)
      else if cmp < 0 then find_loop compare key l (Frame Left_child c k v r # fs)
      else find_loop compare key r (Frame Right_child c k v l # fs))"

definition map_find_node :: "('k, 'v) map_t \<Rightarrow> 'k \<Rightarrow> ('k, 'v) location option" where
  "map_find_node m key = find_loop (m_compare m) key (m_root m) []"

definition map_find :: "('k, 'v) map_t \<Rightarrow> 'k \<Rightarrow> 'v option" where
  "map_find m key = (case map_find_node m key of None \<Rightarrow> None | Some (t, fs) \<Rightarrow> Some (node_value t))"

definition map_contains :: "('k, 'v) map_t \<Rightarrow> 'k \<Rightarrow> bool" where
  "map_contains m key = (map_find_node m key \<noteq> None)"

definition map_size_of :: "('k, 'v) map_t \<Rightarrow> nat" where
  "map_size_of m = m_size m"

definition map_empty_of :: "('k, 'v) map_t \<Rightarrow> bool" where
  "map_empty_of m = (map_size_of m = 0)"

section \<open>Rotations\<close>

text \<open>A rotation at the node whose subtree is the argument; the result replaces that subtree in
  its parent. Rotating towards a missing child dereferences the sentinel's NULL child.\<close>

fun map_rotate_left :: "('k, 'v) map_node \<Rightarrow> ('k, 'v) map_node option" where
  "map_rotate_left (Node cx a kx vx (Node cy b ky vy d)) = Some (Node cy (Node cx a kx vx b) ky vy d)"
| "map_rotate_left _ = None"

fun map_rotate_right :: "('k, 'v) map_node \<Rightarrow> ('k, 'v) map_node option" where
  "map_rotate_right (Node cx (Node cy a ky vy b) kx vx d) = Some (Node cy a ky vy (Node cx b kx vx d))"
| "map_rotate_right _ = None"

section \<open>Insertion\<close>

text \<open>The descent to the place of the new node.\<close>

primrec insert_descend ::
    "('k \<Rightarrow> 'k \<Rightarrow> int) \<Rightarrow> 'k \<Rightarrow> ('k, 'v) map_node \<Rightarrow> ('k, 'v) frame list \<Rightarrow> ('k, 'v) frame list" where
  "insert_descend compare key Nil_node fs = fs"
| "insert_descend compare key (Node c l k v r) fs =
     (if compare key k < 0 then insert_descend compare key l (Frame Left_child c k v r # fs)
      else insert_descend compare key r (Frame Right_child c k v l # fs))"

text \<open>The fix-up loop at the red node \<open>z\<close>. A red parent without a grandparent makes the code
  read the sentinel's children. After the rotation at the grandparent the parent of \<open>z\<close> is black
  and the loop ends; the last statement paints the root black.\<close>

fun map_insert_fixup :: "('k, 'v) map_node \<Rightarrow> ('k, 'v) frame list \<Rightarrow> ('k, 'v) map_node option" where
  "map_insert_fixup z [] = Some (set_color MAP_BLACK z)"
| "map_insert_fixup z [p] =
     (if f_color p = MAP_RED then None else Some (set_color MAP_BLACK (plug p z)))"
| "map_insert_fixup z (p # g # fs) =
     (if f_color p = MAP_RED then
        (let y = f_sibling g in
         if f_side g = Left_child then
           if color_of y = MAP_RED then
             map_insert_fixup
               (set_color MAP_RED (plug (Frame (f_side g) (f_color g) (f_key g) (f_value g) (set_color MAP_BLACK y))
                  (set_color MAP_BLACK (plug p z)))) fs
           else do {
             sub \<leftarrow> (if f_side p = Right_child then map_rotate_left (plug p z) else Some (plug p z));
             top \<leftarrow> map_rotate_right (set_color MAP_RED (plug g (set_color MAP_BLACK sub)));
             Some (set_color MAP_BLACK (plugs top fs))
           }
         else
           if color_of y = MAP_RED then
             map_insert_fixup
               (set_color MAP_RED (plug (Frame (f_side g) (f_color g) (f_key g) (f_value g) (set_color MAP_BLACK y))
                  (set_color MAP_BLACK (plug p z)))) fs
           else do {
             sub \<leftarrow> (if f_side p = Left_child then map_rotate_right (plug p z) else Some (plug p z));
             top \<leftarrow> map_rotate_left (set_color MAP_RED (plug g (set_color MAP_BLACK sub)));
             Some (set_color MAP_BLACK (plugs top fs))
           })
      else Some (set_color MAP_BLACK (plugs z (p # g # fs))))"

text \<open>\<open>ok\<close> tells whether the allocation of the node succeeds.\<close>

definition map_create_node :: "bool \<Rightarrow> ('k, 'v) map_t \<Rightarrow> 'k \<Rightarrow> 'v \<Rightarrow> ('k, 'v) map_node option" where
  "map_create_node ok m key value =
     (if \<not> ok then None
      else Some (Node MAP_RED Nil_node (apply_copy (m_key_copy m) key) (apply_copy (m_value_copy m) value) Nil_node))"

text \<open>The results are the return value and the map. The second comparison of \<open>z->key\<close> with the
  key of the last node selects the side the descent took.\<close>

definition map_insert :: "bool \<Rightarrow> ('k, 'v) map_t \<Rightarrow> 'k \<Rightarrow> 'v \<Rightarrow> (int \<times> ('k, 'v) map_t) option" where
  "map_insert ok m key value =
     (if map_find_node m key \<noteq> None then Some (0, m)
      else case map_create_node ok m key value of
        None \<Rightarrow> Some (-1, m)
      | Some z \<Rightarrow> do {
          t \<leftarrow> map_insert_fixup z (insert_descend (m_compare m) (node_key z) (m_root m) []);
          Some (1, m\<lparr>m_root := t, m_size := m_size m + 1\<rparr>)
        })"

definition free_value :: "('k, 'v) map_t \<Rightarrow> 'v \<Rightarrow> ('k, 'v) map_t" where
  "free_value m v = (if m_value_free m then m\<lparr>m_freed := m_freed m @ [Value_free v]\<rparr> else m)"

definition free_key :: "('k, 'v) map_t \<Rightarrow> 'k \<Rightarrow> ('k, 'v) map_t" where
  "free_key m k = (if m_key_free m then m\<lparr>m_freed := m_freed m @ [Key_free k]\<rparr> else m)"

definition set_value :: "'v \<Rightarrow> ('k, 'v) map_node \<Rightarrow> ('k, 'v) map_node" where
  "set_value v t = (case t of Nil_node \<Rightarrow> Nil_node | Node c l k _ r \<Rightarrow> Node c l k v r)"

definition map_insert_or_assign ::
    "bool \<Rightarrow> ('k, 'v) map_t \<Rightarrow> 'k \<Rightarrow> 'v \<Rightarrow> (int \<times> ('k, 'v) map_t) option" where
  "map_insert_or_assign ok m key value =
     (case map_find_node m key of
        Some (existing, fs) \<Rightarrow>
          (let m1 = free_value m (node_value existing) in
           Some (2, m1\<lparr>m_root := plugs (set_value (apply_copy (m_value_copy m) value) existing) fs\<rparr>))
      | None \<Rightarrow> map_insert ok m key value)"

section \<open>Deletion\<close>

text \<open>The leftmost and the rightmost node of a subtree; \<open>None\<close> where the code would follow the
  sentinel's NULL child.\<close>

fun map_minimum :: "('k, 'v) map_node \<Rightarrow> ('k, 'v) frame list \<Rightarrow> ('k, 'v) location option" where
  "map_minimum Nil_node fs = None"
| "map_minimum (Node c l k v r) fs =
     (if l = Nil_node then Some (Node c l k v r, fs) else map_minimum l (Frame Left_child c k v r # fs))"

fun map_maximum :: "('k, 'v) map_node \<Rightarrow> ('k, 'v) frame list \<Rightarrow> ('k, 'v) location option" where
  "map_maximum Nil_node fs = None"
| "map_maximum (Node c l k v r) fs =
     (if r = Nil_node then Some (Node c l k v r, fs) else map_maximum r (Frame Right_child c k v l # fs))"

text \<open>The first conditional of the loop of \<open>__map_delete_fixup\<close>: a red sibling is painted black,
  the parent red, and the parent is rotated towards \<open>x\<close>; the result is the parent's frame (whose
  sibling is the new \<open>w\<close>) and the frames above.\<close>

definition red_sibling ::
    "('k, 'v) frame \<Rightarrow> ('k, 'v) frame list \<Rightarrow> ('k, 'v) frame \<times> ('k, 'v) frame list" where
  "red_sibling p fs = (case p of Frame d c k v w \<Rightarrow>
     (case w of
        Node MAP_RED l wk wv r \<Rightarrow>
          (case d of
             Left_child \<Rightarrow> (Frame Left_child MAP_RED k v l, Frame Left_child MAP_BLACK wk wv r # fs)
           | Right_child \<Rightarrow> (Frame Right_child MAP_RED k v r, Frame Right_child MAP_BLACK wk wv l # fs))
      | _ \<Rightarrow> (p, fs)))"

text \<open>The last branch of the loop: the sibling \<open>w\<close> has a red child. \<open>x\<close> becomes the root
  afterwards, so the loop ends and the root is painted black.\<close>

definition fix_red_nephew ::
    "('k, 'v) map_node \<Rightarrow> ('k, 'v) frame \<Rightarrow> ('k, 'v) frame list \<Rightarrow> ('k, 'v) map_node option" where
  "fix_red_nephew x p fs = (case p of Frame d c k v w \<Rightarrow>
     (if d = Left_child then do {
        w' \<leftarrow> (if color_of (node_right w) = MAP_BLACK
              then map_rotate_right (Node MAP_RED (set_color MAP_BLACK (node_left w)) (node_key w) (node_value w) (node_right w))
              else Some w);
        top \<leftarrow> map_rotate_left (Node MAP_BLACK x k v
              (Node c (node_left w') (node_key w') (node_value w') (set_color MAP_BLACK (node_right w'))));
        Some (set_color MAP_BLACK (plugs top fs))
      } else do {
        w' \<leftarrow> (if color_of (node_left w) = MAP_BLACK
              then map_rotate_left (Node MAP_RED (node_left w) (node_key w) (node_value w) (set_color MAP_BLACK (node_right w)))
              else Some w);
        top \<leftarrow> map_rotate_right (Node MAP_BLACK
              (Node c (set_color MAP_BLACK (node_left w')) (node_key w') (node_value w') (node_right w')) k v x);
        Some (set_color MAP_BLACK (plugs top fs))
      }))"

lemma color_of_plug [simp]: "color_of (plug f t) = f_color f"
  by (cases f) (simp add: plug_def color_of_def split: side.splits)

lemma red_sibling_cases:
  "red_sibling p fs = (Frame d c k v w, fs1) \<Longrightarrow> c = MAP_RED \<or> fs1 = fs"
  by (auto simp: red_sibling_def split: frame.splits map_node.splits map_color.splits side.splits)

text \<open>The fix-up loop at \<open>x\<close>, which carries one black too few. A missing sibling makes the code
  follow the sentinel's NULL children. After the first conditional the parent is red, so moving up to
  it ends the loop: the measure counts nothing for a red \<open>x\<close>.\<close>

function map_delete_fixup :: "('k, 'v) map_node \<Rightarrow> ('k, 'v) frame list \<Rightarrow> ('k, 'v) map_node option" where
  "map_delete_fixup x [] = Some (set_color MAP_BLACK x)"
| "map_delete_fixup x (p # fs) =
     (if color_of x = MAP_RED then Some (plugs (set_color MAP_BLACK x) (p # fs))
      else case red_sibling p fs of (Frame d c k v w, fs1) \<Rightarrow>
        (case w of
           Nil_node \<Rightarrow> None
         | Node wc wl wk wv wr \<Rightarrow>
             if color_of wl = MAP_BLACK \<and> color_of wr = MAP_BLACK
             then map_delete_fixup (plug (Frame d c k v (Node MAP_RED wl wk wv wr)) x) fs1
             else fix_red_nephew x (Frame d c k v w) fs1))"
  by pat_completeness auto

termination
  by (relation "measure (\<lambda>(x, fs). if color_of x = MAP_RED then 0 else Suc (length fs))")
     (auto dest!: sym [of _ "red_sibling _ _"] red_sibling_cases)

declare map_delete_fixup.simps(2) [simp del]

definition map_free_node :: "('k, 'v) map_t \<Rightarrow> ('k, 'v) map_node \<Rightarrow> ('k, 'v) map_t" where
  "map_free_node m z = free_value (free_key m (node_key z)) (node_value z)"

text \<open>The unlinking part of \<open>map_erase\<close>: the location of \<open>x\<close> after the transplants and the
  original colour of \<open>y\<close>. With two children, \<open>y\<close> is the minimum of the right subtree; it
  moves to the place of \<open>z\<close> with the colour of \<open>z\<close>, and \<open>x\<close>, its right child, stays
  below the former ancestors of \<open>y\<close> in the right subtree (below \<open>y\<close> itself if \<open>y\<close>
  was the child of \<open>z\<close>).\<close>

definition map_unlink :: "('k, 'v) location \<Rightarrow> (('k, 'v) location \<times> map_color) option" where
  "map_unlink loc = (case loc of
     (Node c l k v r, fs) \<Rightarrow>
       if l = Nil_node then Some ((r, fs), c)
       else if r = Nil_node then Some ((l, fs), c)
       else do {
         (y, ys) \<leftarrow> map_minimum r [];
         Some ((node_right y, ys @ Frame Right_child c (node_key y) (node_value y) l # fs), node_color y)
       }
   | (Nil_node, fs) \<Rightarrow> None)"

definition map_erase :: "('k, 'v) map_t \<Rightarrow> 'k \<Rightarrow> (int \<times> ('k, 'v) map_t) option" where
  "map_erase m key =
     (case map_find_node m key of
        None \<Rightarrow> Some (0, m)
      | Some (z, fs) \<Rightarrow> do {
          ((x, fs'), y_original_color) \<leftarrow> map_unlink (z, fs);
          t \<leftarrow> (if y_original_color = MAP_BLACK then map_delete_fixup x fs' else Some (plugs x fs'));
          Some (1, (map_free_node m z)\<lparr>m_root := t, m_size := m_size m - 1\<rparr>)
        })"

primrec map_clear_recursive :: "('k, 'v) map_node \<Rightarrow> ('k, 'v) map_t \<Rightarrow> ('k, 'v) map_t" where
  "map_clear_recursive Nil_node m = m"
| "map_clear_recursive (Node c l k v r) m =
     map_free_node (map_clear_recursive r (map_clear_recursive l m)) (Node c l k v r)"

definition map_clear :: "('k, 'v) map_t \<Rightarrow> ('k, 'v) map_t" where
  "map_clear m = (map_clear_recursive (m_root m) m)\<lparr>m_root := Nil_node, m_size := 0\<rparr>"

section \<open>Iterators\<close>

primrec climb_right :: "('k, 'v) map_node \<Rightarrow> ('k, 'v) frame list \<Rightarrow> ('k, 'v) map_iterator" where
  "climb_right t [] = It_nil"
| "climb_right t (f # fs) =
     (if f_side f = Right_child then climb_right (plug f t) fs else It_at (plug f t, fs))"

primrec climb_left :: "('k, 'v) map_node \<Rightarrow> ('k, 'v) frame list \<Rightarrow> ('k, 'v) map_iterator" where
  "climb_left t [] = It_nil"
| "climb_left t (f # fs) =
     (if f_side f = Left_child then climb_left (plug f t) fs else It_at (plug f t, fs))"

fun map_successor :: "('k, 'v) location \<Rightarrow> ('k, 'v) map_iterator option" where
  "map_successor (Nil_node, fs) = None"
| "map_successor (Node c l k v r, fs) =
     (if r \<noteq> Nil_node then map_option It_at (map_minimum r (Frame Right_child c k v l # fs))
      else Some (climb_right (Node c l k v r) fs))"

fun map_predecessor :: "('k, 'v) location \<Rightarrow> ('k, 'v) map_iterator option" where
  "map_predecessor (Nil_node, fs) = None"
| "map_predecessor (Node c l k v r, fs) =
     (if l \<noteq> Nil_node then map_option It_at (map_maximum l (Frame Left_child c k v r # fs))
      else Some (climb_left (Node c l k v r) fs))"

definition map_begin :: "('k, 'v) map_t \<Rightarrow> ('k, 'v) map_iterator option" where
  "map_begin m =
     (if m_root m = Nil_node then Some It_null else map_option It_at (map_minimum (m_root m) []))"

definition map_end :: "('k, 'v) map_t \<Rightarrow> ('k, 'v) map_iterator" where
  "map_end m = It_nil"

definition map_next :: "('k, 'v) map_iterator \<Rightarrow> ('k, 'v) map_iterator option" where
  "map_next it = (case it of It_at loc \<Rightarrow> map_successor loc | _ \<Rightarrow> Some It_null)"

definition map_prev :: "('k, 'v) map_t \<Rightarrow> ('k, 'v) map_iterator \<Rightarrow> ('k, 'v) map_iterator option" where
  "map_prev m it = (case it of
     It_null \<Rightarrow> Some It_null
   | It_nil \<Rightarrow> map_option It_at (map_maximum (m_root m) [])
   | It_at loc \<Rightarrow> map_predecessor loc)"

definition map_iterator_valid :: "('k, 'v) map_iterator \<Rightarrow> bool" where
  "map_iterator_valid it = (case it of It_at _ \<Rightarrow> True | _ \<Rightarrow> False)"

definition map_iterator_key :: "('k, 'v) map_iterator \<Rightarrow> 'k option" where
  "map_iterator_key it = (case it of It_at (t, _) \<Rightarrow> Some (node_key t) | _ \<Rightarrow> None)"

definition map_iterator_value :: "('k, 'v) map_iterator \<Rightarrow> 'v option" where
  "map_iterator_value it = (case it of It_at (t, _) \<Rightarrow> Some (node_value t) | _ \<Rightarrow> None)"

section \<open>Comparison functions\<close>

definition map_compare_int :: "64 word \<Rightarrow> 64 word \<Rightarrow> int" where
  "map_compare_int a b = (if sint a < sint b then -1 else if sint b < sint a then 1 else 0)"

definition map_compare_ptr :: "64 word \<Rightarrow> 64 word \<Rightarrow> int" where
  "map_compare_ptr a b = (if a < b then -1 else if b < a then 1 else 0)"

definition map_compare_string :: "cstr \<Rightarrow> cstr \<Rightarrow> int" where
  "map_compare_string a b = strcmp (cstr_bytes a) (cstr_bytes b)"

definition map_copy_string :: "cstr \<Rightarrow> cstr" where
  "map_copy_string a = a"

section \<open>Contents\<close>

primrec inorder :: "('k, 'v) map_node \<Rightarrow> ('k \<times> 'v) list" where
  "inorder Nil_node = []"
| "inorder (Node c l k v r) = inorder l @ (k, v) # inorder r"

primrec before :: "('k, 'v) frame list \<Rightarrow> ('k \<times> 'v) list" where
  "before [] = []"
| "before (f # fs) =
     (if f_side f = Right_child then before fs @ inorder (f_sibling f) @ [(f_key f, f_value f)] else before fs)"

primrec after :: "('k, 'v) frame list \<Rightarrow> ('k \<times> 'v) list" where
  "after [] = []"
| "after (f # fs) =
     (if f_side f = Left_child then (f_key f, f_value f) # inorder (f_sibling f) @ after fs else after fs)"

lemma set_color_simps [simp]:
  "set_color c Nil_node = Nil_node"
  "set_color c (Node c' l k v r) = Node c l k v r"
  by (simp_all add: set_color_def)

lemma color_of_simps [simp]:
  "color_of Nil_node = MAP_BLACK"
  "color_of (Node c l k v r) = c"
  by (simp_all add: color_of_def)

lemma plug_simps [simp]:
  "plug (Frame Left_child c k v r) t = Node c t k v r"
  "plug (Frame Right_child c k v l) t = Node c l k v t"
  by (simp_all add: plug_def)

lemma inorder_set_color [simp]: "inorder (set_color c t) = inorder t"
  by (cases t) simp_all

lemma inorder_plugs: "inorder (plugs t fs) = before fs @ inorder t @ after fs"
proof (induction fs arbitrary: t)
  case (Cons f fs)
  then show ?case
    by (cases f; cases "f_side f") simp_all
qed simp

lemma plugs_append: "plugs t (fs @ gs) = plugs (plugs t fs) gs"
  by (induction fs arbitrary: t) simp_all

lemma before_append: "before (fs @ gs) = before gs @ before fs"
  by (induction fs) auto

lemma after_append: "after (fs @ gs) = after fs @ after gs"
  by (induction fs) auto

section \<open>Red-black invariants\<close>

text \<open>No red node has a red child; all paths to the sentinel have the same number of black nodes.\<close>

primrec no_red_red :: "('k, 'v) map_node \<Rightarrow> bool" where
  "no_red_red Nil_node = True"
| "no_red_red (Node c l k v r) \<longleftrightarrow>
     (c = MAP_RED \<longrightarrow> color_of l = MAP_BLACK \<and> color_of r = MAP_BLACK) \<and> no_red_red l \<and> no_red_red r"

primrec black_height :: "('k, 'v) map_node \<Rightarrow> nat" where
  "black_height Nil_node = 0"
| "black_height (Node c l k v r) = (if c = MAP_BLACK then Suc (black_height l) else black_height l)"

primrec balanced :: "('k, 'v) map_node \<Rightarrow> bool" where
  "balanced Nil_node = True"
| "balanced (Node c l k v r) \<longleftrightarrow> black_height l = black_height r \<and> balanced l \<and> balanced r"

definition red_black :: "('k, 'v) map_node \<Rightarrow> bool" where
  "red_black t \<longleftrightarrow> no_red_red t \<and> balanced t \<and> color_of t = MAP_BLACK"

text \<open>The invariant of the frames above a subtree of black height \<open>h\<close>: a red frame has a black
  sibling and a black parent frame.\<close>

definition parent_color :: "('k, 'v) frame list \<Rightarrow> map_color" where
  "parent_color fs = (case fs of [] \<Rightarrow> MAP_BLACK | f # _ \<Rightarrow> f_color f)"

primrec frames_ok :: "nat \<Rightarrow> ('k, 'v) frame list \<Rightarrow> bool" where
  "frames_ok h [] = True"
| "frames_ok h (f # fs) \<longleftrightarrow>
     no_red_red (f_sibling f) \<and> balanced (f_sibling f) \<and> black_height (f_sibling f) = h \<and>
     (f_color f = MAP_RED \<longrightarrow> color_of (f_sibling f) = MAP_BLACK \<and> parent_color fs = MAP_BLACK \<and> fs \<noteq> []) \<and>
     frames_ok (if f_color f = MAP_BLACK then Suc h else h) fs"

lemma parent_color_simps [simp]:
  "parent_color [] = MAP_BLACK"
  "parent_color (f # fs) = f_color f"
  by (simp_all add: parent_color_def)

lemma not_black [simp]: "c \<noteq> MAP_BLACK \<longleftrightarrow> c = MAP_RED" "c \<noteq> MAP_RED \<longleftrightarrow> c = MAP_BLACK"
  by (cases c; simp)+

lemma not_left [simp]: "d \<noteq> Left_child \<longleftrightarrow> d = Right_child" "d \<noteq> Right_child \<longleftrightarrow> d = Left_child"
  by (cases d; simp)+

lemma black_height_set_black: "color_of t = MAP_RED \<Longrightarrow> black_height (set_color MAP_BLACK t) = Suc (black_height t)"
  by (cases t) simp_all

lemma no_red_red_set_black [simp]: "no_red_red t \<Longrightarrow> no_red_red (set_color MAP_BLACK t)"
  by (cases t) simp_all

lemma balanced_set_color [simp]: "balanced (set_color c t) = balanced t"
  by (cases t) simp_all

lemma set_color_same [simp]: "color_of t = c \<Longrightarrow> set_color c t = t"
  by (cases t) simp_all

lemma color_of_set_black [simp]: "color_of (set_color MAP_BLACK t) = MAP_BLACK"
  by (cases t) simp_all

text \<open>Filling the hole with a fitting subtree gives a red-black tree.\<close>

lemma red_black_plugs:
  "frames_ok (black_height t) fs \<Longrightarrow> no_red_red t \<Longrightarrow> balanced t \<Longrightarrow>
   (color_of t = MAP_RED \<Longrightarrow> parent_color fs = MAP_BLACK) \<Longrightarrow>
   red_black (set_color MAP_BLACK (plugs t fs))"
proof (induction fs arbitrary: t)
  case Nil
  then show ?case by (simp add: red_black_def)
next
  case (Cons f fs)
  have "red_black (set_color MAP_BLACK (plugs (plug f t) fs))"
    using Cons.prems by (intro Cons.IH; cases f; cases "f_side f"; cases "color_of t") (auto split: if_splits)
  then show ?case by simp
qed

lemma frames_ok_plugs:
  "red_black (plugs t fs) \<Longrightarrow>
   frames_ok (black_height t) fs \<and> no_red_red t \<and> balanced t \<and>
   (color_of t = MAP_RED \<longrightarrow> parent_color fs = MAP_BLACK \<and> fs \<noteq> [])"
proof (induction fs arbitrary: t)
  case Nil
  then show ?case by (simp add: red_black_def)
next
  case (Cons f fs)
  then have "frames_ok (black_height (plug f t)) fs \<and> no_red_red (plug f t) \<and> balanced (plug f t) \<and>
     (color_of (plug f t) = MAP_RED \<longrightarrow> parent_color fs = MAP_BLACK \<and> fs \<noteq> [])"
    by simp
  then show ?case
    by (cases f; cases "f_side f") (auto split: if_splits)
qed

section \<open>Fix-up after insertion\<close>

lemma map_insert_fixup_spec:
  assumes "color_of z = MAP_RED" and "no_red_red z" and "balanced z" and "frames_ok (black_height z) fs"
  shows "returns (map_insert_fixup z fs) (\<lambda>t. red_black t \<and> inorder t = inorder (plugs z fs))"
  using assms
proof (induction z fs rule: map_insert_fixup.induct)
  case (1 z)
  then show ?case by (simp add: red_black_def)
next
  case (2 z p)
  then have "red_black (set_color MAP_BLACK (plugs z [p]))"
    by (intro red_black_plugs) auto
  with 2 show ?case by simp
next
  case (3 z p g fs)
  show ?case
  proof (cases "f_color p = MAP_RED")
    case False
    have "red_black (set_color MAP_BLACK (plugs z (p # g # fs)))"
      using False "3.prems" by (intro red_black_plugs) auto
    with False show ?thesis by simp
  next
    case red: True
    show ?thesis
    proof (cases "color_of (f_sibling g) = MAP_RED")
      case True
      with red "3.prems" show ?thesis
        using "3.IH"
        by (cases p; cases g; cases "f_side p"; cases "f_side g")
           (auto simp: black_height_set_black inorder_plugs)
    next
      case False
      with red "3.prems" show ?thesis
        by (cases p; cases g; cases "f_side p"; cases "f_side g"; cases z)
           (auto simp: inorder_plugs intro!: red_black_plugs)
    qed
  qed
qed

section \<open>Fix-up after deletion\<close>

lemma color_of_plugs: "frames_ok h fs \<Longrightarrow> fs \<noteq> [] \<Longrightarrow> color_of (plugs t fs) = MAP_BLACK"
proof (induction fs arbitrary: h t)
  case (Cons f fs)
  then show ?case
    by (cases "fs = []") auto
qed simp

lemma red_sibling_spec:
  assumes "frames_ok (Suc h) (p # fs)" and "red_sibling p fs = (p1, fs1)"
  shows "frames_ok (Suc h) (p1 # fs1)"
    and "color_of (f_sibling p1) = MAP_BLACK"
    and "before (p1 # fs1) = before (p # fs)"
    and "after (p1 # fs1) = after (p # fs)"
  using assms
  by (auto simp: red_sibling_def split: frame.splits map_node.splits map_color.splits side.splits if_splits)

lemma fix_red_nephew_spec:
  assumes "no_red_red x" and "balanced x" and "frames_ok (Suc (black_height x)) (p # fs)" and "color_of x = MAP_BLACK"
    and "f_sibling p = Node MAP_BLACK wl wk wv wr" and "color_of wl = MAP_RED \<or> color_of wr = MAP_RED"
  shows "returns (fix_red_nephew x p fs)
    (\<lambda>t. red_black t \<and> inorder t = before (p # fs) @ inorder x @ after (p # fs))"
  using assms
  by (cases p; cases "f_side p"; cases "color_of wl"; cases "color_of wr"; cases wl; cases wr)
     (auto simp: fix_red_nephew_def inorder_plugs intro!: red_black_plugs split: if_splits)

lemma map_delete_fixup_spec:
  assumes "no_red_red (set_color MAP_BLACK x)" and "balanced x" and "frames_ok (Suc (black_height x)) fs"
  shows "returns (map_delete_fixup x fs) (\<lambda>t. red_black t \<and> inorder t = before fs @ inorder x @ after fs)"
  using assms
proof (induction x fs rule: map_delete_fixup.induct)
  case (1 x)
  then show ?case by (simp add: red_black_def)
next
  case (2 x p fs)
  show ?case
  proof (cases "color_of x = MAP_RED")
    case True
    then have "red_black (set_color MAP_BLACK (plugs (set_color MAP_BLACK x) (p # fs)))"
      using "2.prems" by (intro red_black_plugs) (auto simp: black_height_set_black)
    moreover have "color_of (plugs (set_color MAP_BLACK x) (p # fs)) = MAP_BLACK"
      using color_of_plugs [OF "2.prems"(3)] by blast
    moreover have "inorder (plugs (set_color MAP_BLACK x) (p # fs)) = before (p # fs) @ inorder x @ after (p # fs)"
      by (simp only: inorder_plugs inorder_set_color)
    ultimately show ?thesis
      using True by (simp add: map_delete_fixup.simps(2))
  next
    case False
    then have black: "color_of x = MAP_BLACK" by simp
    then have nrr: "no_red_red x"
      using "2.prems"(1) by simp
    obtain d c k v w fs1 where rs: "red_sibling p fs = (Frame d c k v w, fs1)"
      by (metis frame.exhaust surj_pair)
    note sib = red_sibling_spec [OF "2.prems"(3) rs]
    then have "w \<noteq> Nil_node"
      by auto
    then obtain wl wk wv wr where w: "w = Node MAP_BLACK wl wk wv wr"
      using sib(2) by (cases w) auto
    show ?thesis
    proof (cases "color_of wl = MAP_BLACK \<and> color_of wr = MAP_BLACK")
      case True
      let ?x' = "plug (Frame d c k v (Node MAP_RED wl wk wv wr)) x"
      have "no_red_red (set_color MAP_BLACK ?x') \<and> balanced ?x' \<and> frames_ok (Suc (black_height ?x')) fs1"
        using True sib(1) nrr "2.prems"(2) black by (cases d; cases c) (auto simp: w)
      then have "returns (map_delete_fixup ?x' fs1)
          (\<lambda>t. red_black t \<and> inorder t = before fs1 @ inorder ?x' @ after fs1)"
        using "2.IH" [OF _ rs [symmetric] refl] False True w by auto
      moreover have "before fs1 @ inorder ?x' @ after fs1 = before (p # fs) @ inorder x @ after (p # fs)"
        using sib(3,4) by (cases d) (auto simp: w)
      ultimately show ?thesis
        using True black by (simp add: map_delete_fixup.simps(2) rs w)
    next
      case False
      then show ?thesis
        using fix_red_nephew_spec [OF nrr "2.prems"(2) sib(1) black, of wl wk wv wr] black sib(3,4)
        by (auto simp: map_delete_fixup.simps(2) rs w)
    qed
  qed
qed

section \<open>Order\<close>

text \<open>What the map relies on its comparison function for.\<close>

locale comparator =
  fixes cmp :: "'k \<Rightarrow> 'k \<Rightarrow> int"
  assumes cmp_0: "cmp a b = 0 \<longleftrightarrow> a = b"
    and cmp_swap: "0 < cmp a b \<longleftrightarrow> cmp b a < 0"
    and cmp_trans: "cmp a b < 0 \<Longrightarrow> cmp b c < 0 \<Longrightarrow> cmp a c < 0"

definition ordered :: "('k \<Rightarrow> 'k \<Rightarrow> int) \<Rightarrow> ('k \<times> 'v) list \<Rightarrow> bool" where
  "ordered cmp xs = sorted_wrt (\<lambda>x y. cmp (fst x) (fst y) < 0) xs"

lemma ordered_append:
  "ordered cmp (xs @ ys) \<longleftrightarrow> ordered cmp xs \<and> ordered cmp ys \<and>
     (\<forall>x\<in>set xs. \<forall>y\<in>set ys. cmp (fst x) (fst y) < 0)"
  by (simp add: ordered_def sorted_wrt_append)

lemma ordered_Cons: "ordered cmp (x # ys) \<longleftrightarrow> (\<forall>y\<in>set ys. cmp (fst x) (fst y) < 0) \<and> ordered cmp ys"
  by (simp add: ordered_def)

lemma ordered_Nil [simp]: "ordered cmp []"
  by (simp add: ordered_def)

context comparator
begin

lemma cmp_irrefl: "\<not> cmp a a < 0"
  using cmp_0 [of a a] by simp

lemma cmp_total: "cmp a b < 0 \<or> a = b \<or> cmp b a < 0"
  using cmp_0 [of a b] cmp_swap [of a b] by auto

lemma cmp_pos: "\<not> cmp a b < 0 \<Longrightarrow> cmp a b \<noteq> 0 \<Longrightarrow> cmp b a < 0"
  using cmp_swap [of a b] by simp

lemma above_notin: "\<forall>y\<in>set ys. cmp k (fst y) < 0 \<Longrightarrow> k \<notin> fst ` set ys"
  using cmp_irrefl [of k] by (metis image_iff)

lemma below_notin: "\<forall>y\<in>set ys. cmp (fst y) k < 0 \<Longrightarrow> k \<notin> fst ` set ys"
  using cmp_irrefl [of k] by (metis image_iff)

lemma ordered_distinct: "ordered cmp xs \<Longrightarrow> distinct (map fst xs)"
  by (induction xs) (simp_all add: ordered_Cons above_notin)

lemma find_loop_Some:
  "find_loop cmp key t fs = Some (z, fs') \<Longrightarrow>
   z \<noteq> Nil_node \<and> node_key z = key \<and> plugs z fs' = plugs t fs"
  by (induction t arbitrary: fs) (auto simp: Let_def cmp_0 split: if_splits)

lemma find_loop_None:
  "find_loop cmp key t fs = None \<Longrightarrow> ordered cmp (inorder t) \<Longrightarrow> key \<notin> fst ` set (inorder t)"
proof (induction t arbitrary: fs)
  case (Node c l k v r)
  have ne: "cmp key k \<noteq> 0"
    using Node.prems(1) by (auto simp: Let_def)
  show ?case
  proof (cases "cmp key k < 0")
    case True
    then have "key \<notin> fst ` set (inorder l)"
      using Node by (auto simp: Let_def ordered_append ordered_Cons)
    moreover have "key \<notin> fst ` set (inorder r)"
      using Node.prems(2) cmp_trans [OF True] by (intro above_notin) (simp add: ordered_append ordered_Cons)
    ultimately show ?thesis
      using ne cmp_0 by auto
  next
    case False
    then have "key \<notin> fst ` set (inorder r)"
      using Node ne by (auto simp: Let_def ordered_append ordered_Cons)
    moreover have "key \<notin> fst ` set (inorder l)"
      using Node.prems(2) cmp_trans [OF _ cmp_pos [OF False ne]]
      by (intro below_notin) (simp add: ordered_append ordered_Cons)
    ultimately show ?thesis
      using ne cmp_0 by auto
  qed
qed simp

lemma insert_descend_spec:
  assumes "ordered cmp (inorder t)" and "key \<notin> fst ` set (inorder t)"
    and "\<forall>x\<in>set (before fs). cmp (fst x) key < 0" and "\<forall>x\<in>set (after fs). cmp key (fst x) < 0"
  shows "plugs Nil_node (insert_descend cmp key t fs) = plugs t fs \<and>
    (\<forall>x\<in>set (before (insert_descend cmp key t fs)). cmp (fst x) key < 0) \<and>
    (\<forall>x\<in>set (after (insert_descend cmp key t fs)). cmp key (fst x) < 0)"
  using assms
proof (induction t arbitrary: fs)
  case (Node c l k v r)
  show ?case
  proof (cases "cmp key k < 0")
    case True
    have "\<forall>x\<in>set (inorder r). cmp key (fst x) < 0"
      using Node.prems(1) cmp_trans [OF True] by (auto simp: ordered_append ordered_Cons)
    then show ?thesis
      using Node.IH(1) [of "Frame Left_child c k v r # fs"] Node.prems True
      by (simp add: ordered_append ordered_Cons ball_Un image_Un)
  next
    case False
    then have k: "cmp k key < 0"
      using cmp_pos [OF False] Node.prems(2) cmp_0 [of key k] by auto
    have "\<forall>x\<in>set (inorder l). cmp (fst x) key < 0"
      using Node.prems(1) cmp_trans [OF _ k] by (auto simp: ordered_append ordered_Cons)
    then show ?thesis
      using Node.IH(2) [of "Frame Right_child c k v l # fs"] Node.prems False k
      by (simp add: ordered_append ordered_Cons ball_Un image_Un)
  qed
qed simp

lemma ordered_insert:
  assumes "ordered cmp (xs @ ys)" and "\<forall>x\<in>set xs. cmp (fst x) k < 0" and "\<forall>y\<in>set ys. cmp k (fst y) < 0"
  shows "ordered cmp (xs @ (k, v) # ys)"
  using assms by (auto simp: ordered_append ordered_Cons)

end

lemma ordered_delete: "ordered cmp (xs @ z # ys) \<Longrightarrow> ordered cmp (xs @ ys)"
  by (auto simp: ordered_append ordered_Cons)

lemma ordered_replace: "ordered cmp (xs @ (k, v) # ys) \<Longrightarrow> ordered cmp (xs @ (k, w) # ys)"
  by (auto simp: ordered_append ordered_Cons)

section \<open>Unlinking\<close>

lemma red_black_plugs_black:
  assumes "frames_ok (black_height t) fs" and "no_red_red t" and "balanced t" and "color_of t = MAP_BLACK"
  shows "red_black (plugs t fs)"
proof (cases "fs = []")
  case True
  with assms show ?thesis by (simp add: red_black_def)
next
  case False
  then have "color_of (plugs t fs) = MAP_BLACK"
    using color_of_plugs assms(1) by blast
  then show ?thesis
    using red_black_plugs [of t fs] assms by simp
qed

lemma frames_ok_rename:
  "frames_ok h (ys @ Frame d c k v s # fs) \<longleftrightarrow> frames_ok h (ys @ Frame d c k' v' s # fs)"
proof (induction ys arbitrary: h)
  case (Cons y ys)
  have "parent_color (ys @ Frame d c k v s # fs) = parent_color (ys @ Frame d c k' v' s # fs)"
    by (cases ys) simp_all
  then show ?case
    using Cons.IH by simp
qed simp

lemma map_minimum_spec:
  "t \<noteq> Nil_node \<Longrightarrow> returns (map_minimum t fs) (\<lambda>(y, ys). y \<noteq> Nil_node \<and> node_left y = Nil_node \<and>
     plugs y ys = plugs t fs \<and> before ys = before fs)"
proof (induction t arbitrary: fs)
  case (Node c l k v r)
  then show ?case
    using Node.IH(1) [of "Frame Left_child c k v r # fs"] by simp
qed simp

lemma map_maximum_spec:
  "t \<noteq> Nil_node \<Longrightarrow> returns (map_maximum t fs) (\<lambda>(y, ys). y \<noteq> Nil_node \<and> node_right y = Nil_node \<and>
     plugs y ys = plugs t fs \<and> after ys = after fs)"
proof (induction t arbitrary: fs)
  case (Node c l k v r)
  then show ?case
    using Node.IH(2) [of "Frame Right_child c k v l # fs"] by simp
qed simp

text \<open>The hole left by the unlinked node either lacks nothing or one black node.\<close>

definition unlinked :: "('k, 'v) map_node \<Rightarrow> ('k, 'v) frame list \<Rightarrow> map_color \<Rightarrow> bool" where
  "unlinked x fs y_original_color \<longleftrightarrow>
     (if y_original_color = MAP_BLACK
      then no_red_red x \<and> balanced x \<and> frames_ok (Suc (black_height x)) fs
      else red_black (plugs x fs))"

lemma unlinked_child:
  assumes "red_black (plugs (Node c l k v r) fs)" and "l = Nil_node \<and> x = r \<or> r = Nil_node \<and> x = l"
  shows "unlinked x fs c"
  using frames_ok_plugs [OF assms(1)] assms(2)
  by (auto simp: unlinked_def intro!: red_black_plugs_black split: if_splits)

lemma map_unlink_spec:
  assumes "red_black (plugs (Node c l k v r) fs)"
  shows "returns (map_unlink (Node c l k v r, fs)) (\<lambda>((x, fs'), col). unlinked x fs' col \<and>
     before fs' @ inorder x @ after fs' = before fs @ inorder l @ inorder r @ after fs)"
proof (cases "l = Nil_node \<or> r = Nil_node")
  case True
  then show ?thesis
    using unlinked_child [OF assms] by (auto simp: map_unlink_def)
next
  case False
  obtain y ys where min: "map_minimum r [] = Some (y, ys)" and y: "y \<noteq> Nil_node" "node_left y = Nil_node"
    and plug: "plugs y ys = r" and bef: "before ys = []"
    using map_minimum_spec [of r "[]"] False by (auto simp: returns_iff)
  obtain cy yk yv yr where yeq: "y = Node cy Nil_node yk yv yr"
    using y by (cases y) auto
  have r: "inorder r = (yk, yv) # inorder yr @ after ys"
    using inorder_plugs [of y ys] plug bef by (simp add: yeq)
  have "red_black (plugs y (ys @ Frame Right_child c k v l # fs))"
    using assms plug by (simp add: plugs_append)
  then have "frames_ok (black_height y) (ys @ Frame Right_child c yk yv l # fs) \<and> no_red_red y \<and> balanced y"
    using frames_ok_plugs frames_ok_rename [of _ ys Right_child c k v l fs yk yv] by blast
  then have "unlinked yr (ys @ Frame Right_child c yk yv l # fs) cy"
    by (cases cy) (simp_all add: unlinked_def yeq red_black_plugs_black)
  moreover have "before (ys @ Frame Right_child c yk yv l # fs) @ inorder yr @ after (ys @ Frame Right_child c yk yv l # fs) =
      before fs @ inorder l @ inorder r @ after fs"
    using bef r by (simp add: before_append after_append)
  ultimately show ?thesis
    using False min by (simp add: map_unlink_def yeq)
qed

lemma erase_fixup_spec:
  assumes "unlinked x fs col"
  shows "returns (if col = MAP_BLACK then map_delete_fixup x fs else Some (plugs x fs))
    (\<lambda>t. red_black t \<and> inorder t = before fs @ inorder x @ after fs)"
  using assms map_delete_fixup_spec [of x fs]
  by (cases col) (auto simp: unlinked_def inorder_plugs)

section \<open>Specification of the operations\<close>

text \<open>The representation invariant and the finite map a tree stands for.\<close>

definition map_ok :: "('k, 'v) map_t \<Rightarrow> bool" where
  "map_ok m \<longleftrightarrow> comparator (m_compare m) \<and> (\<forall>k. apply_copy (m_key_copy m) k = k) \<and>
     red_black (m_root m) \<and> ordered (m_compare m) (inorder (m_root m)) \<and>
     m_size m = length (inorder (m_root m))"

definition map_alpha :: "('k, 'v) map_t \<Rightarrow> 'k \<rightharpoonup> 'v" where
  "map_alpha m = map_of (inorder (m_root m))"

text \<open>Everything but the tree, its size and the log.\<close>

definition same_callbacks :: "('k, 'v) map_t \<Rightarrow> ('k, 'v) map_t \<Rightarrow> bool" where
  "same_callbacks m m' \<longleftrightarrow> m_compare m' = m_compare m \<and> m_key_copy m' = m_key_copy m \<and>
     m_key_free m' = m_key_free m \<and> m_value_copy m' = m_value_copy m \<and> m_value_free m' = m_value_free m"

lemma same_callbacks_refl [simp]: "same_callbacks m m"
  by (simp add: same_callbacks_def)

lemma map_of_insert_middle:
  "k \<notin> fst ` set xs \<Longrightarrow> map_of (xs @ (k, v) # ys) = (map_of (xs @ ys))(k \<mapsto> v)"
  by (induction xs) (auto simp: fun_upd_twist)

lemma map_of_delete_middle:
  "distinct (map fst (xs @ (k, v) # ys)) \<Longrightarrow> map_of (xs @ ys) = (map_of (xs @ (k, v) # ys))(k := None)"
proof (induction xs)
  case Nil
  then show ?case
    by (auto simp: map_of_eq_None_iff)
next
  case (Cons x xs)
  then show ?case
    by (auto simp: fun_upd_twist)
qed

lemma map_find_node_Some:
  assumes "map_ok m" and "map_find_node m key = Some (z, fs)"
  obtains c l v r where "z = Node c l key v r" and "plugs z fs = m_root m"
    and "inorder (m_root m) = before fs @ inorder l @ (key, v) # inorder r @ after fs"
    and "map_alpha m key = Some v"
proof -
  have cmp: "comparator (m_compare m)" and ord: "ordered (m_compare m) (inorder (m_root m))"
    using assms(1) by (simp_all add: map_ok_def)
  have z: "z \<noteq> Nil_node \<and> node_key z = key \<and> plugs z fs = m_root m"
    using comparator.find_loop_Some [OF cmp] assms(2) by (fastforce simp: map_find_node_def)
  then obtain c l v r where node: "z = Node c l key v r"
    by (cases z) auto
  have io: "inorder (m_root m) = before fs @ inorder l @ (key, v) # inorder r @ after fs"
    using inorder_plugs [of z fs] z by (simp add: node)
  moreover have "map_alpha m key = Some v"
    unfolding map_alpha_def
    using comparator.ordered_distinct [OF cmp ord] by (rule map_of_is_SomeI) (simp add: io)
  ultimately show thesis
    using that node z by blast
qed

lemma map_find_node_None:
  assumes "map_ok m"
  shows "map_find_node m key = None \<longleftrightarrow> map_alpha m key = None"
proof
  assume "map_find_node m key = None"
  then have "key \<notin> fst ` set (inorder (m_root m))"
    using assms comparator.find_loop_None [of "m_compare m" key "m_root m" "[]"]
    by (simp add: map_ok_def map_find_node_def)
  then show "map_alpha m key = None"
    by (simp add: map_alpha_def map_of_eq_None_iff)
next
  assume none: "map_alpha m key = None"
  show "map_find_node m key = None"
  proof (rule ccontr)
    assume "map_find_node m key \<noteq> None"
    then obtain z fs where loc: "map_find_node m key = Some (z, fs)"
      by auto
    show False
      by (rule map_find_node_Some [OF assms loc]) (simp add: none)
  qed
qed

lemma map_find_spec:
  assumes "map_ok m"
  shows "map_find m key = map_alpha m key"
proof (cases "map_find_node m key")
  case None
  then show ?thesis
    using map_find_node_None [OF assms, of key] by (simp add: map_find_def)
next
  case (Some loc)
  then obtain z fs where loc: "map_find_node m key = Some (z, fs)"
    by (cases loc) auto
  obtain c l v r where "z = Node c l key v r" "map_alpha m key = Some v"
    by (rule map_find_node_Some [OF assms loc])
  then show ?thesis
    by (simp add: map_find_def loc)
qed

lemma map_contains_spec: "map_ok m \<Longrightarrow> map_contains m key \<longleftrightarrow> key \<in> dom (map_alpha m)"
  using map_find_node_None [of m key] by (simp add: map_contains_def domIff)

lemma map_insert_spec:
  assumes "map_ok m"
  shows "returns (map_insert ok m key value) (\<lambda>(r, m').
    if key \<in> dom (map_alpha m) then r = 0 \<and> m' = m
    else if \<not> ok then r = -1 \<and> m' = m
    else r = 1 \<and> map_ok m' \<and> same_callbacks m m' \<and> m_freed m' = m_freed m \<and>
      map_alpha m' = (map_alpha m)(key \<mapsto> apply_copy (m_value_copy m) value) \<and>
      mset (inorder (m_root m')) = add_mset (key, apply_copy (m_value_copy m) value) (mset (inorder (m_root m))))"
proof (cases "map_find_node m key = None")
  case False
  then show ?thesis
    using map_find_node_None [OF assms, of key] by (auto simp: map_insert_def)
next
  case none: True
  then have new: "map_alpha m key = None"
    using map_find_node_None [OF assms] by simp
  show ?thesis
  proof (cases ok)
    case False
    with none new show ?thesis
      by (simp add: map_insert_def map_create_node_def domIff)
  next
    case True
    let ?v = "apply_copy (m_value_copy m) value"
    let ?z = "Node MAP_RED Nil_node key ?v Nil_node"
    let ?fs = "insert_descend (m_compare m) key (m_root m) []"
    have cmp: "comparator (m_compare m)" and ord: "ordered (m_compare m) (inorder (m_root m))"
      and rb: "red_black (m_root m)" and key: "apply_copy (m_key_copy m) key = key"
      and sz: "m_size m = length (inorder (m_root m))"
      using assms by (simp_all add: map_ok_def)
    have "key \<notin> fst ` set (inorder (m_root m))"
      using new by (simp add: map_alpha_def map_of_eq_None_iff)
    then have desc: "plugs Nil_node ?fs = m_root m" "\<forall>x\<in>set (before ?fs). m_compare m (fst x) key < 0"
      "\<forall>x\<in>set (after ?fs). m_compare m key (fst x) < 0"
      using comparator.insert_descend_spec [OF cmp ord, of key "[]"] by simp_all
    have io: "inorder (m_root m) = before ?fs @ after ?fs"
      using inorder_plugs [of Nil_node ?fs] desc(1) by simp
    have "frames_ok 0 ?fs"
      using frames_ok_plugs [of Nil_node ?fs] rb desc(1) by simp
    then have fixup: "returns (map_insert_fixup ?z ?fs)
        (\<lambda>t. red_black t \<and> inorder t = before ?fs @ (key, ?v) # after ?fs)"
      using map_insert_fixup_spec [of ?z ?fs] by (simp add: inorder_plugs)
    have "ordered (m_compare m) (before ?fs @ (key, ?v) # after ?fs)"
      using comparator.ordered_insert [OF cmp] ord desc io by metis
    moreover have "map_of (before ?fs @ (key, ?v) # after ?fs) = (map_alpha m)(key \<mapsto> ?v)"
      unfolding map_alpha_def io
      by (rule map_of_insert_middle) (rule comparator.below_notin [OF cmp desc(2)])
    ultimately show ?thesis
      using fixup none new True assms sz
      by (simp add: map_insert_def map_create_node_def key domIff)
         (auto elim!: returns_mono simp: map_ok_def same_callbacks_def map_alpha_def io)
  qed
qed

lemma free_simps [simp]:
  "m_root (free_value m v) = m_root m" "m_size (free_value m v) = m_size m"
  "m_root (free_key m k) = m_root m" "m_size (free_key m k) = m_size m"
  "m_compare (free_value m v) = m_compare m" "m_compare (free_key m k) = m_compare m"
  "m_key_copy (free_value m v) = m_key_copy m" "m_key_copy (free_key m k) = m_key_copy m"
  "m_key_free (free_value m v) = m_key_free m" "m_key_free (free_key m k) = m_key_free m"
  "m_value_copy (free_value m v) = m_value_copy m" "m_value_copy (free_key m k) = m_value_copy m"
  "m_value_free (free_value m v) = m_value_free m" "m_value_free (free_key m k) = m_value_free m"
  "m_freed (free_value m v) = m_freed m @ (if m_value_free m then [Value_free v] else [])"
  "m_freed (free_key m k) = m_freed m @ (if m_key_free m then [Key_free k] else [])"
  by (simp_all add: free_value_def free_key_def)

lemma map_assign_existing_spec:
  assumes "map_ok m" and "map_alpha m key = Some v"
  shows "returns (map_insert_or_assign ok m key value) (\<lambda>(r, m').
    r = 2 \<and> map_ok m' \<and> same_callbacks m m' \<and>
    map_alpha m' = (map_alpha m)(key \<mapsto> apply_copy (m_value_copy m) value) \<and>
    m_freed m' = m_freed m @ (if m_value_free m then [Value_free v] else []) \<and>
    add_mset (key, v) (mset (inorder (m_root m'))) =
      add_mset (key, apply_copy (m_value_copy m) value) (mset (inorder (m_root m))))"
proof -
  let ?w = "apply_copy (m_value_copy m) value"
  obtain z fs where loc: "map_find_node m key = Some (z, fs)"
    using map_find_node_None [OF assms(1), of key] assms(2) by auto
  obtain c l v' r where z: "z = Node c l key v' r" and root: "plugs z fs = m_root m"
    and io: "inorder (m_root m) = before fs @ inorder l @ (key, v') # inorder r @ after fs"
    and "map_alpha m key = Some v'"
    by (rule map_find_node_Some [OF assms(1) loc])
  then have v: "v' = v"
    using assms(2) by simp
  have cmp: "comparator (m_compare m)" and ord: "ordered (m_compare m) (inorder (m_root m))"
    and rb: "red_black (m_root m)"
    using assms(1) by (simp_all add: map_ok_def)
  let ?z = "Node c l key ?w r"
  have io': "inorder (plugs ?z fs) = before fs @ inorder l @ (key, ?w) # inorder r @ after fs"
    by (simp add: inorder_plugs)
  have ok: "frames_ok (black_height ?z) fs \<and> no_red_red ?z \<and> balanced ?z \<and>
      (c = MAP_RED \<longrightarrow> parent_color fs = MAP_BLACK \<and> fs \<noteq> [])"
    using frames_ok_plugs [of z fs] rb root by (simp add: z)
  then have "red_black (set_color MAP_BLACK (plugs ?z fs))"
    by (intro red_black_plugs) auto
  moreover have "color_of (plugs ?z fs) = MAP_BLACK"
    using ok color_of_plugs [of "black_height ?z" fs ?z] by (cases "fs = []") auto
  ultimately have "red_black (plugs ?z fs)"
    by simp
  moreover have "ordered (m_compare m) (inorder (plugs ?z fs))"
    using ordered_replace [of "m_compare m" "before fs @ inorder l" key v'] ord by (simp add: io io')
  moreover have "key \<notin> fst ` set (before fs @ inorder l)"
    using comparator.ordered_distinct [OF cmp ord] by (auto simp: io)
  then have "map_of (inorder (plugs ?z fs)) = (map_alpha m)(key \<mapsto> ?w)"
    using map_of_insert_middle [of key "before fs @ inorder l" _ "inorder r @ after fs"]
    by (simp add: map_alpha_def io io')
  ultimately show ?thesis
    using assms(1) loc
    by (simp add: map_insert_or_assign_def z set_value_def same_callbacks_def map_ok_def map_alpha_def)
       (simp add: io io' v)
qed

lemma map_assign_new_spec:
  assumes "map_ok m" and "map_alpha m key = None"
  shows "map_insert_or_assign ok m key value = map_insert ok m key value"
  using map_find_node_None [OF assms(1), of key] assms(2) by (simp add: map_insert_or_assign_def)

lemma map_erase_missing: "map_ok m \<Longrightarrow> map_alpha m key = None \<Longrightarrow> map_erase m key = Some (0, m)"
  using map_find_node_None [of m key] by (simp add: map_erase_def)

lemma map_erase_spec:
  assumes "map_ok m" and "map_alpha m key = Some v"
  shows "returns (map_erase m key) (\<lambda>(r, m').
    r = 1 \<and> map_ok m' \<and> same_callbacks m m' \<and> map_alpha m' = (map_alpha m)(key := None) \<and>
    m_freed m' = m_freed m @ (if m_key_free m then [Key_free key] else []) @
      (if m_value_free m then [Value_free v] else []) \<and>
    add_mset (key, v) (mset (inorder (m_root m'))) = mset (inorder (m_root m)))"
proof -
  obtain z fs where loc: "map_find_node m key = Some (z, fs)"
    using map_find_node_None [OF assms(1), of key] assms(2) by auto
  obtain c l v' r where z: "z = Node c l key v' r" and root: "plugs z fs = m_root m"
    and io: "inorder (m_root m) = before fs @ inorder l @ (key, v') # inorder r @ after fs"
    and "map_alpha m key = Some v'"
    by (rule map_find_node_Some [OF assms(1) loc])
  then have v: "v' = v"
    using assms(2) by simp
  have cmp: "comparator (m_compare m)" and ord: "ordered (m_compare m) (inorder (m_root m))"
    and rb: "red_black (m_root m)"
    using assms(1) by (simp_all add: map_ok_def)
  obtain x fs' col where unlink: "map_unlink (z, fs) = Some ((x, fs'), col)" and un: "unlinked x fs' col"
    and eq: "before fs' @ inorder x @ after fs' = before fs @ inorder l @ inorder r @ after fs"
    using map_unlink_spec [of c l key v' r fs] rb root by (auto simp: z returns_iff)
  have fixup: "returns (if col = MAP_BLACK then map_delete_fixup x fs' else Some (plugs x fs'))
      (\<lambda>t. red_black t \<and> inorder t = before fs @ inorder l @ inorder r @ after fs)"
    using erase_fixup_spec [OF un] by (simp add: eq)
  have "ordered (m_compare m) (before fs @ inorder l @ inorder r @ after fs)"
    using ordered_delete [of "m_compare m" "before fs @ inorder l"] ord by (simp add: io)
  moreover have "map_of (before fs @ inorder l @ inorder r @ after fs) = (map_alpha m)(key := None)"
    using map_of_delete_middle [of "before fs @ inorder l" key v' "inorder r @ after fs"]
      comparator.ordered_distinct [OF cmp ord]
    by (simp add: map_alpha_def io)
  ultimately show ?thesis
    using assms(1) loc unlink fixup v
    by (simp add: map_erase_def)
       (auto elim!: returns_mono simp: map_ok_def same_callbacks_def map_alpha_def map_free_node_def io z)
qed

lemma map_free_node_simps [simp]:
  "m_root (map_free_node m z) = m_root m"
  "m_compare (map_free_node m z) = m_compare m"
  "m_key_copy (map_free_node m z) = m_key_copy m"
  "m_key_free (map_free_node m z) = m_key_free m"
  "m_value_copy (map_free_node m z) = m_value_copy m"
  "m_value_free (map_free_node m z) = m_value_free m"
  by (simp_all add: map_free_node_def)

lemma map_clear_recursive_spec:
  "same_callbacks m (map_clear_recursive t m) \<and>
   mset (freed_values (m_freed (map_clear_recursive t m))) =
     mset (freed_values (m_freed m)) + (if m_value_free m then mset (map snd (inorder t)) else {#})"
proof (induction t arbitrary: m)
  case (Node c l k v r)
  from Node(1) [of m] Node(2) [of "map_clear_recursive l m"] show ?case
    by (simp add: map_free_node_def same_callbacks_def)
qed simp

lemma map_clear_spec:
  assumes "map_ok m"
  shows "map_ok (map_clear m)" and "map_alpha (map_clear m) = Map.empty"
    and "same_callbacks m (map_clear m)"
    and "mset (freed_values (m_freed (map_clear m))) =
      mset (freed_values (m_freed m)) + (if m_value_free m then mset (map snd (inorder (m_root m))) else {#})"
  using assms map_clear_recursive_spec [of m "m_root m"]
  by (simp_all add: map_clear_def map_ok_def map_alpha_def red_black_def same_callbacks_def)

section \<open>Comparison functions\<close>

interpretation cmp_int: comparator map_compare_int
  by unfold_locales (auto simp: map_compare_int_def signed_word_eqI split: if_splits)

interpretation cmp_ptr: comparator map_compare_ptr
  by unfold_locales (auto simp: map_compare_ptr_def split: if_splits)

interpretation cmp_string: comparator map_compare_string
proof
  fix a b c :: cstr
  show "map_compare_string a b = 0 \<longleftrightarrow> a = b"
    by (simp add: map_compare_string_def strcmp_0 nul_notin_cstr_bytes cstr_bytes_inject)
  show "0 < map_compare_string a b \<longleftrightarrow> map_compare_string b a < 0"
    using strcmp_swap [of "cstr_bytes a" "cstr_bytes b"] by (simp add: map_compare_string_def)
  show "map_compare_string a b < 0 \<Longrightarrow> map_compare_string b c < 0 \<Longrightarrow> map_compare_string a c < 0"
    unfolding map_compare_string_def by (rule strcmp_trans)
qed

section \<open>Sequences of operations\<close>

datatype ('k, 'v) map_op =
    Op_insert bool 'k 'v
  | Op_assign bool 'k 'v
  | Op_erase 'k
  | Op_find 'k
  | Op_clear

definition map_exec :: "('k, 'v) map_op \<Rightarrow> ('k, 'v) map_t \<Rightarrow> ('v map_result \<times> ('k, 'v) map_t) option" where
  "map_exec op m = (case op of
     Op_insert ok k v \<Rightarrow> map_option (\<lambda>(r, m'). (Ret r, m')) (map_insert ok m k v)
   | Op_assign ok k v \<Rightarrow> map_option (\<lambda>(r, m'). (Ret r, m')) (map_insert_or_assign ok m k v)
   | Op_erase k \<Rightarrow> map_option (\<lambda>(r, m'). (Ret r, m')) (map_erase m k)
   | Op_find k \<Rightarrow> Some (Found (map_find m k), m)
   | Op_clear \<Rightarrow> Some (Ret 0, map_clear m))"

primrec map_run :: "('k, 'v) map_op list \<Rightarrow> ('k, 'v) map_t \<Rightarrow> ('v map_result list \<times> ('k, 'v) map_t) option" where
  "map_run [] m = Some ([], m)"
| "map_run (op # ops) m = do {
     (r, m1) \<leftarrow> map_exec op m;
     (rs, m2) \<leftarrow> map_run ops m1;
     Some (r # rs, m2)
   }"

text \<open>The same calls on a finite map, with the value copy callback applied to what is stored.\<close>

definition fmap_exec :: "('v \<Rightarrow> 'v) \<Rightarrow> ('k, 'v) map_op \<Rightarrow> ('k \<rightharpoonup> 'v) \<Rightarrow> 'v map_result \<times> ('k \<rightharpoonup> 'v)" where
  "fmap_exec copy op f = (case op of
     Op_insert ok k v \<Rightarrow>
       (case f k of Some _ \<Rightarrow> (Ret 0, f) | None \<Rightarrow> if ok then (Ret 1, f(k \<mapsto> copy v)) else (Ret (-1), f))
   | Op_assign ok k v \<Rightarrow>
       (case f k of Some _ \<Rightarrow> (Ret 2, f(k \<mapsto> copy v)) | None \<Rightarrow> if ok then (Ret 1, f(k \<mapsto> copy v)) else (Ret (-1), f))
   | Op_erase k \<Rightarrow> (case f k of Some _ \<Rightarrow> (Ret 1, f(k := None)) | None \<Rightarrow> (Ret 0, f))
   | Op_find k \<Rightarrow> (Found (f k), f)
   | Op_clear \<Rightarrow> (Ret 0, Map.empty))"

primrec fmap_run ::
    "('v \<Rightarrow> 'v) \<Rightarrow> ('k, 'v) map_op list \<Rightarrow> ('k \<rightharpoonup> 'v) \<Rightarrow> 'v map_result list \<times> ('k \<rightharpoonup> 'v)" where
  "fmap_run copy [] f = ([], f)"
| "fmap_run copy (op # ops) f =
     (case fmap_exec copy op f of (r, f1) \<Rightarrow> (case fmap_run copy ops f1 of (rs, f2) \<Rightarrow> (r # rs, f2)))"

text \<open>The values a call hands over to the map, seen from its result.\<close>

fun stored_values :: "('v \<Rightarrow> 'v) \<Rightarrow> ('k, 'v) map_op list \<Rightarrow> 'v map_result list \<Rightarrow> 'v list" where
  "stored_values copy (Op_insert ok k v # ops) (r # rs) =
     (if r = Ret 1 then [copy v] else []) @ stored_values copy ops rs"
| "stored_values copy (Op_assign ok k v # ops) (r # rs) =
     (if r = Ret 1 \<or> r = Ret 2 then [copy v] else []) @ stored_values copy ops rs"
| "stored_values copy (op # ops) (r # rs) = stored_values copy ops rs"
| "stored_values copy _ _ = []"

text \<open>Values owned by the map: those in the tree and those already released.\<close>

definition owned :: "('k, 'v) map_t \<Rightarrow> 'v multiset" where
  "owned m = mset (map snd (inorder (m_root m))) + mset (freed_values (m_freed m))"

lemma map_exec_spec:
  assumes "map_ok m"
  shows "returns (map_exec op m) (\<lambda>(r, m'). map_ok m' \<and> same_callbacks m m' \<and>
    fmap_exec (apply_copy (m_value_copy m)) op (map_alpha m) = (r, map_alpha m') \<and>
    (m_value_free m \<longrightarrow> owned m' = owned m + mset (stored_values (apply_copy (m_value_copy m)) [op] [r])))"
proof (cases op)
  case (Op_insert ok k v)
  then show ?thesis
    using map_insert_spec [OF assms, of ok k v] assms
    by (auto simp: map_exec_def fmap_exec_def owned_def domIff elim!: returns_mono
        split: option.splits if_splits)
next
  case (Op_assign ok k v)
  then show ?thesis
  proof (cases "map_alpha m k")
    case None
    with Op_assign show ?thesis
      using map_insert_spec [OF assms, of ok k v] assms
      by (auto simp: map_exec_def fmap_exec_def owned_def domIff map_assign_new_spec elim!: returns_mono
          split: option.splits if_splits)
  next
    case (Some w)
    with Op_assign show ?thesis
      using map_assign_existing_spec [OF assms Some, of ok v] assms
      by (auto simp: map_exec_def fmap_exec_def owned_def elim!: returns_mono
          dest!: arg_cong [where f = "image_mset snd"])
  qed
next
  case (Op_erase k)
  then show ?thesis
  proof (cases "map_alpha m k")
    case None
    with Op_erase assms show ?thesis
      by (simp add: map_exec_def fmap_exec_def map_erase_missing)
  next
    case (Some w)
    with Op_erase show ?thesis
      using map_erase_spec [OF assms Some] assms
      by (auto simp: map_exec_def fmap_exec_def owned_def elim!: returns_mono
          dest!: arg_cong [where f = "image_mset snd"])
  qed
next
  case (Op_find k)
  with assms show ?thesis
    by (simp add: map_exec_def fmap_exec_def map_find_spec)
next
  case Op_clear
  with assms map_clear_spec [OF assms] show ?thesis
    by (simp add: map_exec_def fmap_exec_def owned_def) (simp add: map_clear_def)
qed

lemma same_callbacks_trans: "same_callbacks m m1 \<Longrightarrow> same_callbacks m1 m2 \<Longrightarrow> same_callbacks m m2"
  by (simp add: same_callbacks_def)

lemma stored_values_Cons:
  "stored_values copy (op # ops) (r # rs) = stored_values copy [op] [r] @ stored_values copy ops rs"
  by (cases op) simp_all

lemma map_run_spec:
  assumes "map_ok m"
  shows "returns (map_run ops m) (\<lambda>(rs, m'). map_ok m' \<and> same_callbacks m m' \<and>
    fmap_run (apply_copy (m_value_copy m)) ops (map_alpha m) = (rs, map_alpha m') \<and>
    (m_value_free m \<longrightarrow> owned m' = owned m + mset (stored_values (apply_copy (m_value_copy m)) ops rs)))"
  using assms
proof (induction ops arbitrary: m)
  case (Cons op ops)
  obtain r m1 where e: "map_exec op m = Some (r, m1)" and ok: "map_ok m1" and cb: "same_callbacks m m1"
    and f: "fmap_exec (apply_copy (m_value_copy m)) op (map_alpha m) = (r, map_alpha m1)"
    and o: "m_value_free m \<longrightarrow> owned m1 = owned m + mset (stored_values (apply_copy (m_value_copy m)) [op] [r])"
    using map_exec_spec [OF Cons.prems, of op] by (auto simp: returns_iff)
  have vc: "m_value_copy m1 = m_value_copy m" "m_value_free m1 = m_value_free m"
    using cb by (simp_all add: same_callbacks_def)
  obtain rs m2 where e2: "map_run ops m1 = Some (rs, m2)" and ok2: "map_ok m2" and cb2: "same_callbacks m1 m2"
    and f2: "fmap_run (apply_copy (m_value_copy m)) ops (map_alpha m1) = (rs, map_alpha m2)"
    and o2: "m_value_free m \<longrightarrow> owned m2 = owned m1 + mset (stored_values (apply_copy (m_value_copy m)) ops rs)"
    using Cons.IH [OF ok] by (auto simp: returns_iff vc)
  show ?case
    using same_callbacks_trans [OF cb cb2] ok2 o o2
    by (simp add: e e2 f f2 stored_values_Cons [of _ op ops])
qed simp

section \<open>Height\<close>

primrec height :: "('k, 'v) map_node \<Rightarrow> nat" where
  "height Nil_node = 0"
| "height (Node c l k v r) = Suc (max (height l) (height r))"

lemma height_black_height:
  "no_red_red t \<Longrightarrow> balanced t \<Longrightarrow>
   height t \<le> 2 * black_height t + (if color_of t = MAP_RED then 1 else 0)"
proof (induction t)
  case (Node c l k v r)
  then show ?case
    by (cases c) (auto split: if_splits)
qed simp

lemma black_height_entries: "balanced t \<Longrightarrow> 2 ^ black_height t \<le> Suc (length (inorder t))"
proof (induction t)
  case (Node c l k v r)
  then show ?case
    by (cases c) auto
qed simp

text \<open>The number of comparisons of a search.\<close>

primrec find_steps :: "('k \<Rightarrow> 'k \<Rightarrow> int) \<Rightarrow> 'k \<Rightarrow> ('k, 'v) map_node \<Rightarrow> nat" where
  "find_steps compare key Nil_node = 0"
| "find_steps compare key (Node c l k v r) =
     (let cmp = compare key k in
      if cmp = 0 then 1
      else if cmp < 0 then Suc (find_steps compare key l)
      else Suc (find_steps compare key r))"

lemma find_steps_height: "find_steps compare key t \<le> height t"
  by (induction t) (auto simp: Let_def)

section \<open>Iteration\<close>

text \<open>A loop \<open>for (it = map_begin(m); map_iterator_valid(it); it = map_next(it))\<close> collecting
  the bindings; the fuel bounds the number of rounds.\<close>

fun map_collect :: "nat \<Rightarrow> ('k, 'v) map_iterator \<Rightarrow> ('k \<times> 'v) list option" where
  "map_collect n (It_at (t, fs)) =
     (case n of
        0 \<Rightarrow> None
      | Suc n' \<Rightarrow> do {
          it \<leftarrow> map_next (It_at (t, fs));
          kvs \<leftarrow> map_collect n' it;
          Some ((node_key t, node_value t) # kvs)
        })"
| "map_collect n It_nil = Some []"
| "map_collect n It_null = Some []"

text \<open>The bindings from an iterator's node on.\<close>

fun remaining :: "('k, 'v) map_iterator \<Rightarrow> ('k \<times> 'v) list" where
  "remaining (It_at (Node c l k v r, fs)) = (k, v) # inorder r @ after fs"
| "remaining _ = []"

fun at_node :: "('k, 'v) map_iterator \<Rightarrow> bool" where
  "at_node (It_at (t, fs)) \<longleftrightarrow> t \<noteq> Nil_node"
| "at_node _ \<longleftrightarrow> True"

lemma climb_right_spec: "at_node (climb_right t fs) \<and> remaining (climb_right t fs) = after fs"
proof (induction fs arbitrary: t)
  case (Cons f fs)
  then show ?case
    by (cases f; cases "f_side f") simp_all
qed simp

lemma minimum_remaining:
  "t \<noteq> Nil_node \<Longrightarrow> returns (map_minimum t fs) (\<lambda>loc. at_node (It_at loc) \<and> remaining (It_at loc) = inorder t @ after fs)"
proof (induction t arbitrary: fs)
  case (Node c l k v r)
  then show ?case
    using Node.IH(1) [of "Frame Left_child c k v r # fs"] by simp
qed simp

lemma map_successor_spec:
  "returns (map_successor (Node c l k v r, fs)) (\<lambda>it. at_node it \<and> remaining it = inorder r @ after fs)"
  using climb_right_spec [of "Node c l k v r" fs] minimum_remaining [of r "Frame Right_child c k v l # fs"]
  by (cases "r = Nil_node") simp_all

lemma map_collect_spec:
  "at_node it \<Longrightarrow> length (remaining it) \<le> n \<Longrightarrow> map_collect n it = Some (remaining it)"
proof (induction n it rule: map_collect.induct)
  case (1 n t fs)
  obtain c l k v r where t: "t = Node c l k v r"
    using "1.prems" by (cases t) auto
  obtain n' where n: "n = Suc n'"
    using "1.prems" by (cases n) (auto simp: t)
  obtain it where it: "map_next (It_at (t, fs)) = Some it" "at_node it" "remaining it = inorder r @ after fs"
    using map_successor_spec [of c l k v r fs] by (auto simp: map_next_def t returns_iff)
  then have "map_collect n' it = Some (inorder r @ after fs)"
    using "1.IH" [OF n it(1)] "1.prems" by (simp add: t n)
  then show ?case
    by (simp add: n it(1)) (simp add: t)
qed simp_all

lemma map_begin_spec: "returns (map_begin m) (\<lambda>it. at_node it \<and> remaining it = inorder (m_root m))"
  using minimum_remaining [of "m_root m" "[]"] by (simp add: map_begin_def)

lemma climb_left_spec: "at_node (climb_left t fs)"
proof (induction fs arbitrary: t)
  case (Cons f fs)
  then show ?case
    by (cases f; cases "f_side f") simp_all
qed simp

text \<open>Stepping back from the end position of an empty map follows the sentinel's NULL child.\<close>

lemma map_prev_end_empty: "m_root m = Nil_node \<Longrightarrow> map_prev m (map_end m) = None"
  by (simp add: map_prev_def map_end_def)

section \<open>The map as a key-value store\<close>

definition map_store_ok :: "('k, 'v) map_t \<Rightarrow> bool" where
  "map_store_ok m \<longleftrightarrow> map_ok m \<and> (\<forall>v. apply_copy (m_value_copy m) v = v)"

definition map_put :: "'k \<Rightarrow> 'v \<Rightarrow> ('k, 'v) map_t \<Rightarrow> ('k, 'v) map_t" where
  "map_put k v m = (case map_insert_or_assign True m k v of Some (_, m') \<Rightarrow> m' | None \<Rightarrow> m)"

definition map_del :: "'k \<Rightarrow> ('k, 'v) map_t \<Rightarrow> ('k, 'v) map_t" where
  "map_del k m = (case map_erase m k of Some (_, m') \<Rightarrow> m' | None \<Rightarrow> m)"

lemma map_put_spec:
  assumes "map_store_ok m"
  shows "map_store_ok (map_put k v m) \<and> map_alpha (map_put k v m) = (map_alpha m)(k \<mapsto> v)"
proof (cases "map_alpha m k")
  case None
  then show ?thesis
    using assms map_insert_spec [of m True k v]
    by (auto simp: map_put_def map_store_ok_def map_assign_new_spec domIff returns_iff same_callbacks_def)
next
  case (Some w)
  then show ?thesis
    using assms map_assign_existing_spec [of m k w True v]
    by (auto simp: map_put_def map_store_ok_def returns_iff same_callbacks_def)
qed

lemma map_del_spec:
  assumes "map_store_ok m"
  shows "map_store_ok (map_del k m) \<and> map_alpha (map_del k m) = (map_alpha m)(k := None)"
proof (cases "map_alpha m k")
  case None
  then show ?thesis
    using assms by (auto simp: map_del_def map_store_ok_def map_erase_missing)
next
  case (Some w)
  then show ?thesis
    using assms map_erase_spec [of m k w]
    by (auto simp: map_del_def map_store_ok_def returns_iff same_callbacks_def)
qed

lemma map_size_card:
  assumes "map_ok m"
  shows "finite (dom (map_alpha m)) \<and> map_size_of m = card (dom (map_alpha m))"
proof -
  have "distinct (map fst (inorder (m_root m)))"
    using assms comparator.ordered_distinct by (auto simp: map_ok_def)
  then have "card (fst ` set (inorder (m_root m))) = length (inorder (m_root m))"
    using distinct_card by fastforce
  then show ?thesis
    using assms by (simp add: map_alpha_def map_ok_def dom_map_of_conv_image_fst map_size_of_def)
qed

lemma map_store_find: "map_store_ok m \<Longrightarrow> map_find m = map_alpha m"
  by (simp add: map_store_ok_def map_find_spec fun_eq_iff)

lemma map_store_size:
  "map_store_ok m \<Longrightarrow> finite (dom (map_alpha m)) \<and> map_size_of m = card (dom (map_alpha m))"
  by (simp add: map_store_ok_def map_size_card)

lemma map_ok_facts:
  assumes "map_ok m"
  shows "red_black (m_root m)" and "ordered (m_compare m) (inorder (m_root m))"
    and "m_size m = card (dom (map_alpha m))"
  using assms map_size_card [OF assms] by (simp_all add: map_ok_def map_size_of_def)

interpretation tree_store: kv_store map_store_ok map_find map_put map_del map_size_of
  by unfold_locales
     (simp_all add: map_store_find map_put_spec map_del_spec map_store_size)

lemma map_create_ok:
  assumes "comparator cmp" and "\<forall>k. apply_copy kc k = k"
    and "map_create_ex ok1 ok2 (Some cmp) kc kf vc vf = Some m"
  shows "map_ok m" and "map_alpha m = Map.empty" and "m_compare m = cmp" and "m_value_copy m = vc"
    and "m_value_free m = vf" and "owned m = {#}"
  using assms
  by (auto simp: map_create_ex_def map_ok_def map_alpha_def owned_def red_black_def split: if_splits)

lemma map_create_run:
  assumes "comparator cmp" and "\<forall>k. apply_copy kc k = k"
    and "map_create_ex ok1 ok2 (Some cmp) kc kf vc vf = Some m0"
  shows "returns (map_run ops m0) (\<lambda>(rs, m). map_ok m \<and> m_compare m = cmp \<and> m_value_free m = vf \<and>
     fmap_run (apply_copy vc) ops Map.empty = (rs, map_alpha m) \<and>
     (vf \<longrightarrow> owned m = mset (stored_values (apply_copy vc) ops rs)))"
  using map_run_spec [OF map_create_ok(1) [OF assms], of ops] map_create_ok(2-) [OF assms]
  by (auto elim!: returns_mono simp: same_callbacks_def)

section \<open>Properties\<close>

text \<open>Property C1. The ordered map refines a finite map: for every comparison function that is a
  linear order and every sequence of insertions, assignments, erasures, lookups and clears on a new
  map, with any allocation failures, no call dereferences a NULL child, the return values are those
  of the same calls on a finite map, and the tree is a search tree with the red-black balance whose
  node count is the size.\<close>

theorem map_run_refines:
  assumes "comparator cmp" and "\<forall>k. apply_copy kc k = k"
    and "map_create_ex ok1 ok2 (Some cmp) kc kf vc vf = Some m0"
  shows "returns (map_run ops m0) (\<lambda>(rs, m).
    fmap_run (apply_copy vc) ops Map.empty = (rs, map_alpha m) \<and>
    red_black (m_root m) \<and> ordered cmp (inorder (m_root m)) \<and> m_size m = card (dom (map_alpha m)))"
  using map_create_run [OF assms, of ops]
  by (rule returns_mono) (auto simp: map_ok_facts)

text \<open>A map of integer keys used by the witnesses.\<close>

definition example_map :: "(64 word, nat) map_t" where
  "example_map = \<lparr> m_root = Nil_node, m_size = 0, m_compare = map_compare_int, m_key_copy = None,
     m_key_free = False, m_value_copy = None, m_value_free = True, m_freed = [] \<rparr>"

lemma example_map_create: "map_create_ex True True (Some map_compare_int) None False None True = Some example_map"
  by (simp add: map_create_ex_def example_map_def)

theorem map_run_refines_witness:
  "returns (map_run [Op_insert True 5 1, Op_insert True 3 2, Op_assign True 5 7, Op_erase 3, Op_find 5] example_map)
    (\<lambda>(rs, m). rs = [Ret 1, Ret 1, Ret 2, Ret 1, Found (Some 7)] \<and> red_black (m_root m) \<and> map_alpha m = [5 \<mapsto> 7])"
  by (rule returns_mono [OF map_run_refines [OF cmp_int.comparator_axioms _ example_map_create]])
     (auto simp: apply_copy_def fmap_exec_def fun_upd_twist)

text \<open>Property C16. Every value stored in a map with a value destructor is released exactly once:
  after any sequence of calls and a final \<open>map_clear\<close> the released values are, with multiplicity,
  the values that successful insertions and assignments stored.\<close>

theorem map_values_released_once:
  assumes "comparator cmp" and "\<forall>k. apply_copy kc k = k"
    and "map_create_ex ok1 ok2 (Some cmp) kc kf vc True = Some m0"
  shows "returns (map_run ops m0) (\<lambda>(rs, m).
    mset (freed_values (m_freed (map_clear m))) = mset (stored_values (apply_copy vc) ops rs))"
  using map_create_run [OF assms, of ops]
  by (rule returns_mono) (auto simp: map_clear_spec(4) owned_def add.commute)

theorem map_values_released_once_witness:
  "returns (map_run [Op_insert True 5 1, Op_insert True 5 2, Op_assign True 5 7, Op_insert False 9 8] example_map)
    (\<lambda>(rs, m). mset (freed_values (m_freed (map_clear m))) =
       mset (stored_values (apply_copy None)
         [Op_insert True (5 :: 64 word) 1, Op_insert True 5 2, Op_assign True 5 7, Op_insert False 9 8] rs))"
  by (rule map_values_released_once [OF cmp_int.comparator_axioms _ example_map_create])
     (simp add: apply_copy_def)

text \<open>Property C17. Iteration: after any sequence of calls, the loop from \<open>map_begin\<close> with
  \<open>map_next\<close> ends after as many rounds as the map has entries and visits exactly its bindings in
  ascending key order.\<close>

theorem map_iteration_complete:
  assumes "comparator cmp" and "\<forall>k. apply_copy kc k = k"
    and "map_create_ex ok1 ok2 (Some cmp) kc kf vc vf = Some m0"
  shows "returns (map_run ops m0) (\<lambda>(rs, m). returns (map_begin m) (\<lambda>it.
    returns (map_collect (m_size m) it) (\<lambda>kvs.
      ordered cmp kvs \<and> map_of kvs = snd (fmap_run (apply_copy vc) ops Map.empty))))"
proof (rule returns_mono [OF map_create_run [OF assms, of ops]], clarify)
  fix rs m
  assume "map_ok m" and "cmp = m_compare m" and f: "fmap_run (apply_copy vc) ops Map.empty = (rs, map_alpha m)"
  then have "map_collect (m_size m) it = Some (inorder (m_root m))"
    if "at_node it" and "remaining it = inorder (m_root m)" for it
    using map_collect_spec [of it "m_size m"] that by (simp add: map_ok_def)
  then show "returns (map_begin m) (\<lambda>it. returns (map_collect (m_size m) it) (\<lambda>kvs.
      ordered (m_compare m) kvs \<and> map_of kvs = snd (fmap_run (apply_copy vc) ops Map.empty)))"
    using \<open>map_ok m\<close>
    by (intro returns_mono [OF map_begin_spec]) (simp add: f map_ok_def map_alpha_def)
qed

theorem map_iteration_complete_witness:
  "returns (map_run [Op_insert True 5 1, Op_insert True 3 2] example_map) (\<lambda>(rs, m). returns (map_begin m) (\<lambda>it.
    returns (map_collect (m_size m) it) (\<lambda>kvs. ordered map_compare_int kvs \<and> map_of kvs = [5 \<mapsto> 1, 3 \<mapsto> 2])))"
  using map_iteration_complete [OF cmp_int.comparator_axioms _ example_map_create,
      of "[Op_insert True 5 1, Op_insert True 3 2]"]
  by (simp add: apply_copy_def fmap_exec_def)



end
