(* ===== verification/Hashmap.thy ===== *)
theory Hashmap
  imports Complex_Main Prelude Interfaces
begin

unbundle bit_operations_syntax

text \<open>
  The hash map of \<open>misc/hashmap.c\<close>: an array of bucket chains that is doubled when the load
  factor is exceeded. A chain is the list of its entries from the bucket's first one on. The hash and
  the equality functions and the copy and free callbacks are fields of the record; the calls of the
  free callbacks are logged. A bucket index outside the array and a division by a zero capacity are
  \<open>None\<close>.

  Floating-point numbers are rationals, and the rounding of a float operation is the argument
  \<open>fl\<close> of the operations that use one, so the lemmas hold for any rounding. An allocation of
  more than \<open>SIZE_MAX\<close> bytes fails; any other one fails when its flag is off. An iterator is a
  bucket index and the rest of the chain; using it after the map changed is outside the model.
\<close>

section \<open>Data\<close>

datatype ('k, 'v) hashmap_entry = Entry (e_key: 'k) (e_value: 'v) (e_hash: "64 word")

record ('k, 'v) hashmap_t =
  h_buckets :: "('k, 'v) hashmap_entry list list"
  h_capacity :: nat
  h_size :: nat
  h_load_factor :: rat
  h_hash :: "'k \<Rightarrow> 64 word"
  h_equals :: "'k \<Rightarrow> 'k \<Rightarrow> int"
  h_key_copy :: "('k \<Rightarrow> 'k) option"
  h_key_free :: bool
  h_value_copy :: "('v \<Rightarrow> 'v) option"
  h_value_free :: bool
  h_freed :: "('k, 'v) free_call list"

record ('k, 'v) hashmap_iterator =
  it_bucket_index :: nat
  it_entry :: "('k, 'v) hashmap_entry list"

definition HASHMAP_DEFAULT_CAPACITY :: nat where
  "HASHMAP_DEFAULT_CAPACITY = 16"

definition HASHMAP_DEFAULT_LOAD_FACTOR :: rat where
  "HASHMAP_DEFAULT_LOAD_FACTOR = 3 / 4"

definition HASHMAP_MAX_LOAD_FACTOR :: rat where
  "HASHMAP_MAX_LOAD_FACTOR = 1"

section \<open>Creation\<close>

text \<open>\<open>calloc\<close> of an array of pointers of eight bytes each.\<close>

definition calloc_buckets :: "bool \<Rightarrow> nat \<Rightarrow> ('k, 'v) hashmap_entry list list option" where
  "calloc_buckets ok n = (if ok \<and> n * 8 < size_modulus then Some (replicate n []) else None)"

definition hashmap_create_ex ::
    "bool \<Rightarrow> bool \<Rightarrow> ('k \<Rightarrow> 64 word) option \<Rightarrow> ('k \<Rightarrow> 'k \<Rightarrow> int) option \<Rightarrow> nat \<Rightarrow> rat \<Rightarrow>
     ('k \<Rightarrow> 'k) option \<Rightarrow> bool \<Rightarrow> ('v \<Rightarrow> 'v) option \<Rightarrow> bool \<Rightarrow> ('k, 'v) hashmap_t option" where
  "hashmap_create_ex ok1 ok2 hash equals initial_capacity load_factor key_copy key_free value_copy value_free =
     (case (hash, equals) of
        (Some hash, Some equals) \<Rightarrow>
          (let initial_capacity = (if initial_capacity = 0 then HASHMAP_DEFAULT_CAPACITY else initial_capacity);
               load_factor = (if load_factor \<le> 0 \<or> HASHMAP_MAX_LOAD_FACTOR < load_factor
                              then HASHMAP_DEFAULT_LOAD_FACTOR else load_factor) in
           if \<not> ok1 then None
           else case calloc_buckets ok2 initial_capacity of
             None \<Rightarrow> None
           | Some buckets \<Rightarrow>
               Some \<lparr> h_buckets = buckets, h_capacity = initial_capacity, h_size = 0, h_load_factor = load_factor,
                      h_hash = hash, h_equals = equals, h_key_copy = key_copy, h_key_free = key_free,
                      h_value_copy = value_copy, h_value_free = value_free, h_freed = [] \<rparr>)
      | _ \<Rightarrow> None)"

definition hashmap_create ::
    "bool \<Rightarrow> bool \<Rightarrow> ('k \<Rightarrow> 64 word) option \<Rightarrow> ('k \<Rightarrow> 'k \<Rightarrow> int) option \<Rightarrow> ('k, 'v) hashmap_t option" where
  "hashmap_create ok1 ok2 hash equals =
     hashmap_create_ex ok1 ok2 hash equals HASHMAP_DEFAULT_CAPACITY HASHMAP_DEFAULT_LOAD_FACTOR None False None False"

section \<open>Buckets and entries\<close>

definition hashmap_bucket_index :: "64 word \<Rightarrow> nat \<Rightarrow> nat option" where
  "hashmap_bucket_index hash capacity = (if capacity = 0 then None else Some (unat hash mod capacity))"

definition bucket_at :: "('k, 'v) hashmap_entry list list \<Rightarrow> nat \<Rightarrow> ('k, 'v) hashmap_entry list option" where
  "bucket_at buckets i = (if i < length buckets then Some (buckets ! i) else None)"

definition hashmap_create_entry ::
    "bool \<Rightarrow> ('k, 'v) hashmap_t \<Rightarrow> 'k \<Rightarrow> 'v \<Rightarrow> 64 word \<Rightarrow> ('k, 'v) hashmap_entry option" where
  "hashmap_create_entry ok h key value hash =
     (if \<not> ok then None
      else Some (Entry (apply_copy (h_key_copy h) key) (apply_copy (h_value_copy h) value) hash))"

definition hfree_value :: "('k, 'v) hashmap_t \<Rightarrow> 'v \<Rightarrow> ('k, 'v) hashmap_t" where
  "hfree_value h v = (if h_value_free h then h\<lparr>h_freed := h_freed h @ [Value_free v]\<rparr> else h)"

definition hfree_key :: "('k, 'v) hashmap_t \<Rightarrow> 'k \<Rightarrow> ('k, 'v) hashmap_t" where
  "hfree_key h k = (if h_key_free h then h\<lparr>h_freed := h_freed h @ [Key_free k]\<rparr> else h)"

definition hashmap_free_entry :: "('k, 'v) hashmap_t \<Rightarrow> ('k, 'v) hashmap_entry \<Rightarrow> ('k, 'v) hashmap_t" where
  "hashmap_free_entry h e = hfree_value (hfree_key h (e_key e)) (e_value e)"

primrec hashmap_free_bucket_chain ::
    "('k, 'v) hashmap_t \<Rightarrow> ('k, 'v) hashmap_entry list \<Rightarrow> ('k, 'v) hashmap_t" where
  "hashmap_free_bucket_chain h [] = h"
| "hashmap_free_bucket_chain h (e # es) = hashmap_free_bucket_chain (hashmap_free_entry h e) es"

text \<open>The loop of \<open>hashmap_clear\<close> from bucket \<open>i\<close> on, over the remaining buckets.\<close>

primrec clear_loop :: "('k, 'v) hashmap_entry list list \<Rightarrow> ('k, 'v) hashmap_t \<Rightarrow> nat \<Rightarrow> ('k, 'v) hashmap_t" where
  "clear_loop [] h i = h"
| "clear_loop (b # bs) h i =
     clear_loop bs
       (if b \<noteq> [] then (hashmap_free_bucket_chain h b)\<lparr>h_buckets := (h_buckets h)[i := []]\<rparr> else h) (Suc i)"

definition hashmap_clear :: "('k, 'v) hashmap_t \<Rightarrow> ('k, 'v) hashmap_t" where
  "hashmap_clear h = (clear_loop (h_buckets h) h 0)\<lparr>h_size := 0\<rparr>"

section \<open>Resizing\<close>

text \<open>The inner loop moves the entries of a chain to the front of their new buckets.\<close>

primrec rehash_chain ::
    "nat \<Rightarrow> ('k, 'v) hashmap_entry list \<Rightarrow> ('k, 'v) hashmap_entry list list \<Rightarrow>
     ('k, 'v) hashmap_entry list list option" where
  "rehash_chain new_capacity [] new_buckets = Some new_buckets"
| "rehash_chain new_capacity (e # es) new_buckets = do {
     new_index \<leftarrow> hashmap_bucket_index (e_hash e) new_capacity;
     chain \<leftarrow> bucket_at new_buckets new_index;
     rehash_chain new_capacity es (new_buckets[new_index := e # chain])
   }"

primrec rehash_loop ::
    "nat \<Rightarrow> ('k, 'v) hashmap_entry list list \<Rightarrow> ('k, 'v) hashmap_entry list list \<Rightarrow>
     ('k, 'v) hashmap_entry list list option" where
  "rehash_loop new_capacity [] new_buckets = Some new_buckets"
| "rehash_loop new_capacity (b # bs) new_buckets = do {
     nb \<leftarrow> rehash_chain new_capacity b new_buckets;
     rehash_loop new_capacity bs nb
   }"

definition hashmap_resize :: "bool \<Rightarrow> ('k, 'v) hashmap_t \<Rightarrow> nat \<Rightarrow> (int \<times> ('k, 'v) hashmap_t) option" where
  "hashmap_resize ok h new_capacity =
     (if new_capacity < h_size h then Some (-1, h)
      else case calloc_buckets ok new_capacity of
        None \<Rightarrow> Some (-1, h)
      | Some new_buckets \<Rightarrow> do {
          nb \<leftarrow> rehash_loop new_capacity (h_buckets h) new_buckets;
          Some (0, h\<lparr>h_buckets := nb, h_capacity := new_capacity\<rparr>)
        })"

definition hashmap_rehash :: "bool \<Rightarrow> ('k, 'v) hashmap_t \<Rightarrow> nat \<Rightarrow> (int \<times> ('k, 'v) hashmap_t) option" where
  "hashmap_rehash ok h new_capacity =
     (if new_capacity = 0 then Some (-1, h) else hashmap_resize ok h new_capacity)"

text \<open>The doubling loop of \<open>hashmap_reserve\<close>; it stops at \<open>SIZE_MAX\<close> at the latest. The caller starts it at
  sixteen or more, so the first test never applies.\<close>

function reserve_loop :: "(rat \<Rightarrow> rat) \<Rightarrow> rat \<Rightarrow> nat \<Rightarrow> nat \<Rightarrow> nat" where
  "reserve_loop fl load_factor cnt required_capacity =
     (if required_capacity = 0 then 0
      else if fl (fl (of_nat required_capacity) * load_factor) < fl (of_nat cnt) then
        if (size_modulus - 1) div 2 < required_capacity then size_modulus - 1
        else reserve_loop fl load_factor cnt (required_capacity * 2)
      else required_capacity)"
  by pat_completeness auto
termination
  by (relation "measure (\<lambda>(fl, lf, cnt, cap). size_modulus - cap)") (auto simp: size_modulus_def)

declare reserve_loop.simps [simp del]

definition hashmap_reserve ::
    "(rat \<Rightarrow> rat) \<Rightarrow> bool \<Rightarrow> ('k, 'v) hashmap_t \<Rightarrow> nat \<Rightarrow> (int \<times> ('k, 'v) hashmap_t) option" where
  "hashmap_reserve fl ok h cnt =
     (let start = (if h_capacity h < HASHMAP_DEFAULT_CAPACITY then HASHMAP_DEFAULT_CAPACITY else h_capacity h);
          required_capacity = reserve_loop fl (h_load_factor h) cnt start in
      if h_capacity h < required_capacity then hashmap_resize ok h required_capacity else Some (0, h))"

section \<open>Operations\<close>

text \<open>The test of a chain entry against a hash and a key.\<close>

definition entry_matches :: "('k, 'v) hashmap_t \<Rightarrow> 64 word \<Rightarrow> 'k \<Rightarrow> ('k, 'v) hashmap_entry \<Rightarrow> bool" where
  "entry_matches h hash key e \<longleftrightarrow> e_hash e = hash \<and> h_equals h (e_key e) key = 0"

primrec chain_find :: "(('k, 'v) hashmap_entry \<Rightarrow> bool) \<Rightarrow> ('k, 'v) hashmap_entry list \<Rightarrow> ('k, 'v) hashmap_entry option" where
  "chain_find p [] = None"
| "chain_find p (e # es) = (if p e then Some e else chain_find p es)"

definition hashmap_find_entry :: "('k, 'v) hashmap_t \<Rightarrow> 'k \<Rightarrow> ('k, 'v) hashmap_entry option option" where
  "hashmap_find_entry h key = do {
     index \<leftarrow> hashmap_bucket_index (h_hash h key) (h_capacity h);
     chain \<leftarrow> bucket_at (h_buckets h) index;
     Some (chain_find (entry_matches h (h_hash h key) key) chain)
   }"

definition hashmap_find :: "('k, 'v) hashmap_t \<Rightarrow> 'k \<Rightarrow> 'v option option" where
  "hashmap_find h key = map_option (map_option e_value) (hashmap_find_entry h key)"

definition hashmap_contains :: "('k, 'v) hashmap_t \<Rightarrow> 'k \<Rightarrow> bool option" where
  "hashmap_contains h key = map_option (\<lambda>e. e \<noteq> None) (hashmap_find_entry h key)"

definition hashmap_size :: "('k, 'v) hashmap_t \<Rightarrow> nat" where
  "hashmap_size h = h_size h"

definition hashmap_empty :: "('k, 'v) hashmap_t \<Rightarrow> bool" where
  "hashmap_empty h = (hashmap_size h = 0)"

definition hashmap_load_factor_current :: "(rat \<Rightarrow> rat) \<Rightarrow> ('k, 'v) hashmap_t \<Rightarrow> rat" where
  "hashmap_load_factor_current fl h =
     (if h_capacity h = 0 then 0 else fl (fl (of_nat (h_size h)) / fl (of_nat (h_capacity h))))"

text \<open>The part of \<open>hashmap_insert\<close> after the resize. The first flag of \<open>hashmap_insert\<close> is
  for the new bucket array, the second for the entry.\<close>

definition insert_entry :: "bool \<Rightarrow> ('k, 'v) hashmap_t \<Rightarrow> 'k \<Rightarrow> 'v \<Rightarrow> (int \<times> ('k, 'v) hashmap_t) option" where
  "insert_entry ok h key value = do {
     let hash = h_hash h key;
     index \<leftarrow> hashmap_bucket_index hash (h_capacity h);
     chain \<leftarrow> bucket_at (h_buckets h) index;
     (case chain_find (entry_matches h hash key) chain of
        Some _ \<Rightarrow> Some (0, h)
      | None \<Rightarrow>
          (case hashmap_create_entry ok h key value hash of
             None \<Rightarrow> Some (-1, h)
           | Some e \<Rightarrow>
               Some (1, h\<lparr>h_buckets := (h_buckets h)[index := e # chain], h_size := h_size h + 1\<rparr>)))
   }"

definition hashmap_insert ::
    "(rat \<Rightarrow> rat) \<Rightarrow> bool \<Rightarrow> bool \<Rightarrow> ('k, 'v) hashmap_t \<Rightarrow> 'k \<Rightarrow> 'v \<Rightarrow> (int \<times> ('k, 'v) hashmap_t) option" where
  "hashmap_insert fl ok1 ok2 h key value =
     (if h_load_factor h < fl (fl (of_nat (szadd (h_size h) 1)) / fl (of_nat (h_capacity h))) then do {
        (r, h1) \<leftarrow> hashmap_resize ok1 h (szmul (h_capacity h) 2);
        if r \<noteq> 0 then Some (-1, h1) else insert_entry ok2 h1 key value
      } else insert_entry ok2 h key value)"

text \<open>Assigning to the first matching entry of a chain.\<close>

primrec chain_assign ::
    "(('k, 'v) hashmap_entry \<Rightarrow> bool) \<Rightarrow> 'v \<Rightarrow> ('k, 'v) hashmap_entry list \<Rightarrow> ('k, 'v) hashmap_entry list" where
  "chain_assign p v [] = []"
| "chain_assign p v (e # es) =
     (if p e then Entry (e_key e) v (e_hash e) # es else e # chain_assign p v es)"

definition hashmap_insert_or_assign ::
    "(rat \<Rightarrow> rat) \<Rightarrow> bool \<Rightarrow> bool \<Rightarrow> ('k, 'v) hashmap_t \<Rightarrow> 'k \<Rightarrow> 'v \<Rightarrow> (int \<times> ('k, 'v) hashmap_t) option" where
  "hashmap_insert_or_assign fl ok1 ok2 h key value = do {
     let hash = h_hash h key;
     index \<leftarrow> hashmap_bucket_index hash (h_capacity h);
     chain \<leftarrow> bucket_at (h_buckets h) index;
     (case chain_find (entry_matches h hash key) chain of
        Some current \<Rightarrow>
          (let h1 = hfree_value h (e_value current) in
           Some (2, h1\<lparr>h_buckets := (h_buckets h)[index :=
             chain_assign (entry_matches h hash key) (apply_copy (h_value_copy h) value) chain]\<rparr>))
      | None \<Rightarrow> hashmap_insert fl ok1 ok2 h key value)
   }"

text \<open>Removing the first matching entry of a chain.\<close>

primrec chain_erase ::
    "(('k, 'v) hashmap_entry \<Rightarrow> bool) \<Rightarrow> ('k, 'v) hashmap_entry list \<Rightarrow> ('k, 'v) hashmap_entry list" where
  "chain_erase p [] = []"
| "chain_erase p (e # es) = (if p e then es else e # chain_erase p es)"

definition hashmap_erase :: "('k, 'v) hashmap_t \<Rightarrow> 'k \<Rightarrow> (int \<times> ('k, 'v) hashmap_t) option" where
  "hashmap_erase h key = do {
     let hash = h_hash h key;
     index \<leftarrow> hashmap_bucket_index hash (h_capacity h);
     chain \<leftarrow> bucket_at (h_buckets h) index;
     (case chain_find (entry_matches h hash key) chain of
        None \<Rightarrow> Some (0, h)
      | Some current \<Rightarrow>
          Some (1, (hashmap_free_entry h current)\<lparr>
            h_buckets := (h_buckets h)[index := chain_erase (entry_matches h hash key) chain],
            h_size := h_size h - 1\<rparr>))
   }"

section \<open>Iterators\<close>

text \<open>The search for a non-empty bucket from index \<open>i\<close>; \<open>stay\<close> is the index kept when
  there is none.\<close>

primrec scan_buckets :: "('k, 'v) hashmap_entry list list \<Rightarrow> nat \<Rightarrow> nat \<Rightarrow> ('k, 'v) hashmap_iterator" where
  "scan_buckets [] i stay = \<lparr> it_bucket_index = stay, it_entry = [] \<rparr>"
| "scan_buckets (b # bs) i stay =
     (if b \<noteq> [] then \<lparr> it_bucket_index = i, it_entry = b \<rparr> else scan_buckets bs (Suc i) stay)"

definition hashmap_begin :: "('k, 'v) hashmap_t \<Rightarrow> ('k, 'v) hashmap_iterator" where
  "hashmap_begin h =
     (if h_size h = 0 then \<lparr> it_bucket_index = 0, it_entry = [] \<rparr> else scan_buckets (h_buckets h) 0 0)"

definition hashmap_end :: "('k, 'v) hashmap_t \<Rightarrow> ('k, 'v) hashmap_iterator" where
  "hashmap_end h = \<lparr> it_bucket_index = h_capacity h, it_entry = [] \<rparr>"

definition hashmap_next :: "('k, 'v) hashmap_t \<Rightarrow> ('k, 'v) hashmap_iterator \<Rightarrow> ('k, 'v) hashmap_iterator" where
  "hashmap_next h it =
     (case it_entry it of
        [] \<Rightarrow> it
      | e # es \<Rightarrow>
          if es \<noteq> [] then it\<lparr>it_entry := es\<rparr>
          else scan_buckets (drop (Suc (it_bucket_index it)) (h_buckets h))
                 (Suc (it_bucket_index it)) (Suc (it_bucket_index it)))"

definition hashmap_iterator_valid :: "('k, 'v) hashmap_iterator \<Rightarrow> bool" where
  "hashmap_iterator_valid it = (it_entry it \<noteq> [])"

definition hashmap_iterator_key :: "('k, 'v) hashmap_iterator \<Rightarrow> 'k option" where
  "hashmap_iterator_key it = (case it_entry it of [] \<Rightarrow> None | e # _ \<Rightarrow> Some (e_key e))"

definition hashmap_iterator_value :: "('k, 'v) hashmap_iterator \<Rightarrow> 'v option" where
  "hashmap_iterator_value it = (case it_entry it of [] \<Rightarrow> None | e # _ \<Rightarrow> Some (e_value e))"

section \<open>Hash and equality functions\<close>

definition fnv_offset :: "64 word" where
  "fnv_offset = 14695981039346656037"

definition fnv_prime :: "64 word" where
  "fnv_prime = 1099511628211"

primrec hash_int_loop :: "nat \<Rightarrow> 64 word \<Rightarrow> 64 word \<Rightarrow> 64 word" where
  "hash_int_loop 0 k hash = hash"
| "hash_int_loop (Suc n) k hash =
     hash_int_loop n (signed_drop_bit 8 k) ((hash XOR (k AND 0xFF)) * fnv_prime)"

definition hashmap_hash_int :: "64 word \<Rightarrow> 64 word" where
  "hashmap_hash_int key = hash_int_loop 8 key fnv_offset"

text \<open>\<open>char\<close> is signed on the supported platforms, so a byte is sign-extended.\<close>

definition sign_extended :: "char \<Rightarrow> 64 word" where
  "sign_extended c = (if 128 \<le> ord c then of_nat (ord c) - 256 else of_nat (ord c))"

primrec hash_string_loop :: "char list \<Rightarrow> 64 word \<Rightarrow> 64 word" where
  "hash_string_loop [] hash = hash"
| "hash_string_loop (c # cs) hash = hash_string_loop cs ((hash XOR sign_extended c) * fnv_prime)"

definition hashmap_hash_string :: "cstr \<Rightarrow> 64 word" where
  "hashmap_hash_string key = hash_string_loop (cstr_bytes key) fnv_offset"

definition hashmap_hash_ptr :: "64 word \<Rightarrow> 64 word" where
  "hashmap_hash_ptr key =
     (let k1 = key XOR drop_bit 33 key;
          k2 = k1 * 0xff51afd7ed558ccd;
          k3 = k2 XOR drop_bit 33 k2;
          k4 = k3 * 0xc4ceb9fe1a85ec53
      in k4 XOR drop_bit 33 k4)"

definition hashmap_equals_int :: "64 word \<Rightarrow> 64 word \<Rightarrow> int" where
  "hashmap_equals_int a b = (if a = b then 0 else 1)"

definition hashmap_equals_ptr :: "64 word \<Rightarrow> 64 word \<Rightarrow> int" where
  "hashmap_equals_ptr a b = (if a = b then 0 else 1)"

definition hashmap_equals_string :: "cstr \<Rightarrow> cstr \<Rightarrow> int" where
  "hashmap_equals_string a b = strcmp (cstr_bytes a) (cstr_bytes b)"

section \<open>Invariant\<close>

definition kv :: "('k, 'v) hashmap_entry \<Rightarrow> 'k \<times> 'v" where
  "kv e = (e_key e, e_value e)"

lemma fst_kv [simp]: "fst (kv e) = e_key e"
  by (simp add: kv_def)

lemma fst_comp_kv [simp]: "fst \<circ> kv = e_key"
  by (simp add: fun_eq_iff)

text \<open>Every entry carries the hash of its key and hangs in the bucket this hash selects.\<close>

definition located :: "('k \<Rightarrow> 64 word) \<Rightarrow> ('k, 'v) hashmap_entry list list \<Rightarrow> bool" where
  "located hash bs \<longleftrightarrow> (\<forall>i < length bs. \<forall>e \<in> set (bs ! i).
     e_hash e = hash (e_key e) \<and> unat (e_hash e) mod length bs = i)"

definition hashmap_ok :: "('k, 'v) hashmap_t \<Rightarrow> bool" where
  "hashmap_ok h \<longleftrightarrow> (\<forall>a b. h_equals h a b = 0 \<longleftrightarrow> a = b) \<and> (\<forall>k. apply_copy (h_key_copy h) k = k) \<and>
     length (h_buckets h) = h_capacity h \<and> 0 < h_capacity h \<and> h_capacity h * 8 < size_modulus \<and>
     located (h_hash h) (h_buckets h) \<and> distinct (map e_key (concat (h_buckets h))) \<and>
     h_size h = length (concat (h_buckets h))"

definition hashmap_alpha :: "('k, 'v) hashmap_t \<Rightarrow> 'k \<rightharpoonup> 'v" where
  "hashmap_alpha h = map_of (map kv (concat (h_buckets h)))"

definition same_hcallbacks :: "('k, 'v) hashmap_t \<Rightarrow> ('k, 'v) hashmap_t \<Rightarrow> bool" where
  "same_hcallbacks h h' \<longleftrightarrow> h_equals h' = h_equals h \<and> h_hash h' = h_hash h \<and> h_key_copy h' = h_key_copy h \<and>
     h_key_free h' = h_key_free h \<and> h_value_copy h' = h_value_copy h \<and> h_value_free h' = h_value_free h \<and>
     h_load_factor h' = h_load_factor h"

lemma same_hcallbacks_refl [simp]: "same_hcallbacks h h"
  by (simp add: same_hcallbacks_def)

lemma located_update:
  assumes "located hash bs" and "\<forall>e\<in>set c. e_hash e = hash (e_key e) \<and> unat (e_hash e) mod length bs = i"
  shows "located hash (bs[i := c])"
  unfolding located_def
proof (intro allI impI ballI)
  fix j e
  assume "j < length (bs[i := c])" and "e \<in> set (bs[i := c] ! j)"
  then show "e_hash e = hash (e_key e) \<and> unat (e_hash e) mod length (bs[i := c]) = j"
    using assms unfolding located_def
    by (metis length_list_update nth_list_update_eq nth_list_update_neq)
qed

lemma located_bucket:
  "located hash bs \<Longrightarrow> i < length bs \<Longrightarrow> e \<in> set (bs ! i) \<Longrightarrow> e_hash e = hash (e_key e) \<and> unat (e_hash e) mod length bs = i"
  unfolding located_def by blast

text \<open>A key can only be in the bucket its hash selects.\<close>

lemma located_key:
  assumes "located hash bs" and "e \<in> set (concat bs)"
  shows "e \<in> set (bs ! (unat (hash (e_key e)) mod length bs)) \<and> unat (hash (e_key e)) mod length bs < length bs"
proof -
  obtain i where "i < length bs" "e \<in> set (bs ! i)"
    using assms(2) by (metis UN_E in_set_conv_nth set_concat)
  with located_bucket [OF assms(1) this] show ?thesis
    by auto
qed

section \<open>Chains\<close>

lemma chain_find_Some:
  "chain_find p b = Some e \<Longrightarrow> p e \<and> e \<in> set b \<and>
   mset b = add_mset e (mset (chain_erase p b)) \<and> set (chain_erase p b) \<subseteq> set b \<and>
   mset (chain_assign p v b) = add_mset (Entry (e_key e) v (e_hash e)) (mset (chain_erase p b))"
  by (induction b) (auto split: if_splits)

lemma chain_find_None: "chain_find p b = None \<longleftrightarrow> (\<forall>e\<in>set b. \<not> p e)"
  by (induction b) auto

text \<open>The bucket of a key.\<close>

definition hslot :: "('k, 'v) hashmap_t \<Rightarrow> 'k \<Rightarrow> nat" where
  "hslot h key = unat (h_hash h key) mod h_capacity h"

lemma slot_facts:
  assumes "hashmap_ok h"
  shows "hashmap_bucket_index (h_hash h key) (h_capacity h) = Some (hslot h key)"
    and "bucket_at (h_buckets h) (hslot h key) = Some (h_buckets h ! hslot h key)"
    and "hslot h key < length (h_buckets h)"
  using assms by (simp_all add: hashmap_bucket_index_def hslot_def bucket_at_def hashmap_ok_def)

lemma slot_find_Some:
  assumes "hashmap_ok h" and "chain_find (entry_matches h (h_hash h key) key) (h_buckets h ! hslot h key) = Some e"
  shows "e_key e = key" and "e_hash e = h_hash h key" and "hashmap_alpha h key = Some (e_value e)"
proof -
  have m: "entry_matches h (h_hash h key) key e" and mem: "e \<in> set (h_buckets h ! hslot h key)"
    using chain_find_Some [OF assms(2)] by auto
  then show key: "e_key e = key" and "e_hash e = h_hash h key"
    using assms(1) by (auto simp: entry_matches_def hashmap_ok_def)
  have "e \<in> set (concat (h_buckets h))"
    using mem slot_facts(3) [OF assms(1), of key] by (auto intro: nth_mem)
  then have "kv e \<in> set (map kv (concat (h_buckets h)))"
    by simp
  moreover have "distinct (map fst (map kv (concat (h_buckets h))))"
    using assms(1) by (simp add: hashmap_ok_def)
  ultimately show "hashmap_alpha h key = Some (e_value e)"
    unfolding hashmap_alpha_def by (intro map_of_is_SomeI) (auto simp: kv_def key)
qed

lemma slot_find_None:
  assumes "hashmap_ok h"
  shows "chain_find (entry_matches h (h_hash h key) key) (h_buckets h ! hslot h key) = None \<longleftrightarrow>
    hashmap_alpha h key = None"
proof
  assume none: "chain_find (entry_matches h (h_hash h key) key) (h_buckets h ! hslot h key) = None"
  have "key \<noteq> e_key e" if "e \<in> set (concat (h_buckets h))" for e
  proof
    assume k: "key = e_key e"
    have loc: "located (h_hash h) (h_buckets h)" and "length (h_buckets h) = h_capacity h"
      using assms by (simp_all add: hashmap_ok_def)
    then have "e \<in> set (h_buckets h ! hslot h key)"
      using located_key [OF loc that] k by (simp add: hslot_def)
    moreover from this have "e_hash e = h_hash h (e_key e)"
      using located_bucket [OF loc slot_facts(3) [OF assms]] by blast
    ultimately show False
      using none k assms by (auto simp: chain_find_None entry_matches_def hashmap_ok_def)
  qed
  then show "hashmap_alpha h key = None"
    by (auto simp: hashmap_alpha_def map_of_eq_None_iff image_image)
next
  assume a: "hashmap_alpha h key = None"
  show "chain_find (entry_matches h (h_hash h key) key) (h_buckets h ! hslot h key) = None"
    using slot_find_Some(3) [OF assms, of key] a
    by (cases "chain_find (entry_matches h (h_hash h key) key) (h_buckets h ! hslot h key)") simp_all
qed

lemma hashmap_find_spec: "hashmap_ok h \<Longrightarrow> hashmap_find h key = Some (hashmap_alpha h key)"
  using slot_find_Some(3) [of h key] slot_find_None [of h key]
  by (cases "chain_find (entry_matches h (h_hash h key) key) (h_buckets h ! hslot h key)")
     (simp_all add: hashmap_find_def hashmap_find_entry_def slot_facts)

section \<open>Changing one bucket\<close>

lemma located_slot_update:
  assumes "hashmap_ok h"
    and "\<forall>e\<in>set c. e \<in> set (h_buckets h ! hslot h key) \<or> e_key e = key \<and> e_hash e = h_hash h key"
  shows "located (h_hash h) ((h_buckets h)[hslot h key := c])"
proof (rule located_update)
  show loc: "located (h_hash h) (h_buckets h)"
    using assms(1) by (simp add: hashmap_ok_def)
  have len: "length (h_buckets h) = h_capacity h"
    using assms(1) by (simp add: hashmap_ok_def)
  show "\<forall>e\<in>set c. e_hash e = h_hash h (e_key e) \<and> unat (e_hash e) mod length (h_buckets h) = hslot h key"
  proof
    fix e
    assume "e \<in> set c"
    then consider "e \<in> set (h_buckets h ! hslot h key)" | "e_key e = key" "e_hash e = h_hash h key"
      using assms(2) by blast
    then show "e_hash e = h_hash h (e_key e) \<and> unat (e_hash e) mod length (h_buckets h) = hslot h key"
      using located_bucket [OF loc slot_facts(3) [OF assms(1)]] by cases (blast, simp add: hslot_def len)
  qed
qed

lemma bag_insert:
  assumes "i < length bs"
  shows "mset (concat (bs[i := e # bs ! i])) = add_mset e (mset (concat bs))"
  using mset_concat_update [OF assms, of "e # bs ! i"] by simp

lemma bag_erase:
  assumes "i < length bs" and "mset (bs ! i) = add_mset e (mset c)"
  shows "mset (concat bs) = add_mset e (mset (concat (bs[i := c])))"
  using mset_concat_update [OF assms(1), of c] assms(2) by simp

lemma bag_assign:
  assumes "i < length bs" and "mset (bs ! i) = add_mset e (mset d)" and "mset c = add_mset e' (mset d)"
  shows "add_mset e (mset (concat (bs[i := c]))) = add_mset e' (mset (concat bs))"
  using mset_concat_update [OF assms(1), of c] assms(2,3) by simp

lemma distinct_mset_cong: "distinct xs \<Longrightarrow> mset xs = mset ys \<Longrightarrow> distinct ys"
  by (metis mset_eq_imp_distinct_iff)

text \<open>The values an entry array holds.\<close>

definition values_of :: "('k, 'v) hashmap_t \<Rightarrow> 'v multiset" where
  "values_of h = image_mset e_value (mset (concat (h_buckets h)))"

text \<open>What a successful or failed change of a map may do.\<close>

definition unchanged :: "('k, 'v) hashmap_t \<Rightarrow> ('k, 'v) hashmap_t \<Rightarrow> bool" where
  "unchanged h h' \<longleftrightarrow> hashmap_ok h' \<and> same_hcallbacks h h' \<and> h_freed h' = h_freed h \<and>
     hashmap_alpha h' = hashmap_alpha h \<and> values_of h' = values_of h"

definition bound :: "('k, 'v) hashmap_t \<Rightarrow> 'k \<Rightarrow> 'v \<Rightarrow> ('k, 'v) hashmap_t \<Rightarrow> bool" where
  "bound h key value h' \<longleftrightarrow> hashmap_ok h' \<and> same_hcallbacks h h' \<and> h_freed h' = h_freed h \<and>
     hashmap_alpha h' = (hashmap_alpha h)(key \<mapsto> apply_copy (h_value_copy h) value) \<and>
     values_of h' = add_mset (apply_copy (h_value_copy h) value) (values_of h)"

lemma insert_entry_spec:
  assumes "hashmap_ok h"
  shows "returns (insert_entry ok h key value) (\<lambda>(r, h').
    if hashmap_alpha h key \<noteq> None then r = 0 \<and> h' = h
    else if \<not> ok then r = -1 \<and> h' = h
    else r = 1 \<and> bound h key value h')"
proof (cases "hashmap_alpha h key")
  case (Some v)
  then obtain e where "chain_find (entry_matches h (h_hash h key) key) (h_buckets h ! hslot h key) = Some e"
    using slot_find_None [OF assms, of key] by auto
  with Some show ?thesis
    by (simp add: insert_entry_def slot_facts [OF assms])
next
  case None
  then have nf: "chain_find (entry_matches h (h_hash h key) key) (h_buckets h ! hslot h key) = None"
    using slot_find_None [OF assms] by simp
  let ?e = "Entry key (apply_copy (h_value_copy h) value) (h_hash h key)"
  let ?nb = "(h_buckets h)[hslot h key := ?e # h_buckets h ! hslot h key]"
  have bag: "mset (concat ?nb) = add_mset ?e (mset (concat (h_buckets h)))"
    using slot_facts(3) [OF assms] by (rule bag_insert)
  have notin: "key \<notin> fst ` set (map kv (concat (h_buckets h)))"
    using None by (simp add: hashmap_alpha_def map_of_eq_None_iff)
  have d: "distinct (map fst (map kv (concat (h_buckets h))))"
    using assms by (simp add: hashmap_ok_def)
  have keys: "distinct (map e_key (concat ?nb))"
  proof (rule distinct_mset_cong)
    show "distinct (key # map e_key (concat (h_buckets h)))"
      using d notin by (auto simp: image_image)
    show "mset (key # map e_key (concat (h_buckets h))) = mset (map e_key (concat ?nb))"
      by (simp only: mset_map bag) simp
  qed
  have "located (h_hash h) ?nb"
    by (rule located_slot_update [OF assms]) simp
  moreover have "map_of (map kv (concat ?nb)) = (hashmap_alpha h)(key \<mapsto> apply_copy (h_value_copy h) value)"
    unfolding hashmap_alpha_def
    by (rule map_of_mset_insert [OF d notin]) (simp only: mset_map bag, simp add: kv_def)
  moreover have "length (concat ?nb) = Suc (length (concat (h_buckets h)))"
    by (metis bag size_add_mset size_mset)
  moreover have "image_mset e_value (mset (concat ?nb)) =
      add_mset (apply_copy (h_value_copy h) value) (image_mset e_value (mset (concat (h_buckets h))))"
    by (simp only: bag) simp
  ultimately show ?thesis
    using assms None nf keys
    by (cases ok) (simp_all add: insert_entry_def slot_facts [OF assms] hashmap_create_entry_def hashmap_ok_def
          same_hcallbacks_def hashmap_alpha_def bound_def values_of_def)
qed

section \<open>Specification of the operations\<close>

lemma rehash_chain_spec:
  assumes "located hash nb" and "length nb = cap" and "0 < cap" and "\<forall>e\<in>set es. e_hash e = hash (e_key e)"
  shows "returns (rehash_chain cap es nb) (\<lambda>nb'. located hash nb' \<and> length nb' = cap \<and>
    mset (concat nb') = mset (concat nb) + mset es)"
  using assms
proof (induction es arbitrary: nb)
  case (Cons e es)
  let ?i = "unat (e_hash e) mod cap"
  let ?nb = "nb[?i := e # nb ! ?i]"
  have i: "?i < length nb"
    using Cons.prems by simp
  have "located hash ?nb"
  proof (rule located_update [OF Cons.prems(1)], rule ballI)
    fix x
    assume "x \<in> set (e # nb ! ?i)"
    then consider "x = e" | "x \<in> set (nb ! ?i)"
      by auto
    then show "e_hash x = hash (e_key x) \<and> unat (e_hash x) mod length nb = ?i"
      using located_bucket [OF Cons.prems(1) i] Cons.prems(2,4) by cases (simp, blast)
  qed
  moreover have "mset (concat ?nb) = add_mset e (mset (concat nb))"
    using i by (rule bag_insert)
  ultimately show ?case
    using Cons.IH [of ?nb] Cons.prems i
    by (simp add: hashmap_bucket_index_def bucket_at_def)
qed simp

lemma rehash_loop_spec:
  assumes "located hash nb" and "length nb = cap" and "0 < cap" and "\<forall>e\<in>set (concat bs). e_hash e = hash (e_key e)"
  shows "returns (rehash_loop cap bs nb) (\<lambda>nb'. located hash nb' \<and> length nb' = cap \<and>
    mset (concat nb') = mset (concat nb) + mset (concat bs))"
  using assms
proof (induction bs arbitrary: nb)
  case (Cons b bs)
  have "returns (rehash_chain cap b nb) (\<lambda>nb'. located hash nb' \<and> length nb' = cap \<and>
      mset (concat nb') = mset (concat nb) + mset b)"
    using Cons.prems by (intro rehash_chain_spec) auto
  then obtain nb' where nb': "rehash_chain cap b nb = Some nb'" "located hash nb'" "length nb' = cap"
    "mset (concat nb') = mset (concat nb) + mset b"
    by (auto simp: returns_iff)
  then show ?case
    using Cons.IH [of nb'] Cons.prems by (simp add: add.assoc)
qed simp

lemma hashmap_ok_hashes:
  assumes "hashmap_ok h" and "e \<in> set (concat (h_buckets h))"
  shows "e_hash e = h_hash h (e_key e)"
proof -
  have loc: "located (h_hash h) (h_buckets h)"
    using assms(1) by (simp add: hashmap_ok_def)
  show ?thesis
    using located_key [OF loc assms(2)] located_bucket [OF loc] by blast
qed

text \<open>Moving to a new bucket array keeps the bindings.\<close>

lemma hashmap_resize_spec:
  assumes "hashmap_ok h" and "0 < new_capacity"
  shows "returns (hashmap_resize ok h new_capacity) (\<lambda>(r, h').
    (r = -1 \<and> h' = h) \<or>
    (r = 0 \<and> hashmap_ok h' \<and> same_hcallbacks h h' \<and> h_freed h' = h_freed h \<and> h_size h' = h_size h \<and>
     h_capacity h' = new_capacity \<and> hashmap_alpha h' = hashmap_alpha h \<and>
     mset (concat (h_buckets h')) = mset (concat (h_buckets h))))"
proof (cases "new_capacity < h_size h \<or> calloc_buckets ok new_capacity = (None :: ('a, 'b) hashmap_entry list list option)")
  case True
  then show ?thesis
    by (auto simp: hashmap_resize_def)
next
  case False
  then have big: "\<not> new_capacity < h_size h" and ok: "ok" and limit: "new_capacity * 8 < size_modulus"
    by (auto simp: calloc_buckets_def split: if_splits)
  have "located (h_hash h) (replicate new_capacity [] :: ('a, 'b) hashmap_entry list list)"
    by (simp add: located_def)
  then obtain nb where nb: "rehash_loop new_capacity (h_buckets h) (replicate new_capacity []) = Some nb"
    and loc: "located (h_hash h) nb" and len: "length nb = new_capacity"
    and bag: "mset (concat nb) = mset (concat (h_buckets h))"
    using rehash_loop_spec [of "h_hash h" "replicate new_capacity []" new_capacity "h_buckets h"]
      hashmap_ok_hashes [OF assms(1)] assms(2)
    by (auto simp: returns_iff)
  have keys: "distinct (map e_key (concat nb))"
    using assms(1) bag by (auto simp: hashmap_ok_def intro: distinct_mset_cong)
  moreover have "map_of (map kv (concat nb)) = hashmap_alpha h"
    unfolding hashmap_alpha_def using assms(1) bag
    by (intro map_of_mset_cong) (simp_all add: hashmap_ok_def)
  moreover have "length (concat nb) = length (concat (h_buckets h))"
    using bag by (rule mset_eq_length)
  ultimately show ?thesis
    using assms big ok limit loc len bag
    by (simp add: hashmap_resize_def calloc_buckets_def nb hashmap_ok_def same_hcallbacks_def hashmap_alpha_def)
qed

lemma same_hcallbacks_trans: "same_hcallbacks h h1 \<Longrightarrow> same_hcallbacks h1 h2 \<Longrightarrow> same_hcallbacks h h2"
  by (simp add: same_hcallbacks_def)

lemma unchanged_refl: "hashmap_ok h \<Longrightarrow> unchanged h h"
  by (simp add: unchanged_def)

lemma unchanged_bound: "unchanged h h1 \<Longrightarrow> bound h1 key value h2 \<Longrightarrow> bound h key value h2"
  by (simp add: unchanged_def bound_def same_hcallbacks_def)

lemma insert_entry_outcome:
  assumes "unchanged h h1"
  shows "returns (insert_entry ok h1 key value) (\<lambda>(r, h').
      (r = -1 \<and> unchanged h h') \<or>
      (r = 0 \<and> hashmap_alpha h key \<noteq> None \<and> unchanged h h') \<or>
      (r = 1 \<and> hashmap_alpha h key = None \<and> bound h key value h'))"
proof -
  have ok1: "hashmap_ok h1" and alpha: "hashmap_alpha h1 = hashmap_alpha h"
    using assms by (simp_all add: unchanged_def)
  show ?thesis
    using insert_entry_spec [OF ok1, of ok key "value"]
    by (rule returns_mono) (use assms unchanged_bound [OF assms] in \<open>auto simp: alpha split: if_splits\<close>)
qed

lemma hashmap_insert_spec:
  assumes "hashmap_ok h"
  shows "returns (hashmap_insert fl ok1 ok2 h key value) (\<lambda>(r, h').
    (r = -1 \<and> unchanged h h') \<or>
    (r = 0 \<and> hashmap_alpha h key \<noteq> None \<and> unchanged h h') \<or>
    (r = 1 \<and> hashmap_alpha h key = None \<and> bound h key value h'))"
proof -
  have cap: "szmul (h_capacity h) 2 = h_capacity h * 2" "0 < h_capacity h"
    using assms by (simp_all add: hashmap_ok_def szmul_exact)
  obtain r h1 where rs: "hashmap_resize ok1 h (h_capacity h * 2) = Some (r, h1)"
    and cases: "r = -1 \<and> h1 = h \<or> r = 0 \<and> unchanged h h1"
    using hashmap_resize_spec [OF assms, of "h_capacity h * 2" ok1] cap(2)
    by (auto simp: returns_iff unchanged_def values_of_def)
  show ?thesis
    using insert_entry_outcome [OF unchanged_refl [OF assms], of ok2 key "value"]
      insert_entry_outcome [of h h1 ok2 key "value"] cases unchanged_refl [OF assms]
    by (auto simp: hashmap_insert_def cap rs)
qed

lemma hashmap_assign_spec:
  assumes "hashmap_ok h" and "hashmap_alpha h key = Some v"
  shows "returns (hashmap_insert_or_assign fl ok1 ok2 h key value) (\<lambda>(r, h').
    r = 2 \<and> hashmap_ok h' \<and> same_hcallbacks h h' \<and>
    h_freed h' = h_freed h @ (if h_value_free h then [Value_free v] else []) \<and>
    hashmap_alpha h' = (hashmap_alpha h)(key \<mapsto> apply_copy (h_value_copy h) value) \<and>
    add_mset v (values_of h') = add_mset (apply_copy (h_value_copy h) value) (values_of h))"
proof -
  let ?p = "entry_matches h (h_hash h key) key" and ?b = "h_buckets h ! hslot h key"
  let ?w = "apply_copy (h_value_copy h) value"
  let ?nb = "(h_buckets h)[hslot h key := chain_assign ?p ?w ?b]"
  obtain e where e: "chain_find ?p ?b = Some e"
    using slot_find_None [OF assms(1), of key] assms(2) by auto
  note ek = slot_find_Some [OF assms(1) e]
  have v: "e_value e = v"
    using ek(3) assms(2) by simp
  define e' where "e' = Entry key ?w (h_hash h key)"
  have chain: "mset ?b = add_mset e (mset (chain_erase ?p ?b))" "set (chain_erase ?p ?b) \<subseteq> set ?b"
    "mset (chain_assign ?p ?w ?b) = add_mset e' (mset (chain_erase ?p ?b))"
    using chain_find_Some [OF e, of ?w] ek by (auto simp: e'_def)
  have bag: "add_mset e (mset (concat ?nb)) = add_mset e' (mset (concat (h_buckets h)))"
    using slot_facts(3) [OF assms(1)] chain(1,3) by (rule bag_assign)
  have d: "distinct (map fst (map kv (concat (h_buckets h))))"
    using assms(1) by (simp add: hashmap_ok_def)
  have set: "set (chain_assign ?p ?w ?b) = insert e' (set (chain_erase ?p ?b))"
    using chain(3) by (metis set_mset_add_mset_insert set_mset_mset)
  have loc: "located (h_hash h) ?nb"
    using chain(2) by (intro located_slot_update [OF assms(1)]) (auto simp: set e'_def)
  have kb: "mset (map e_key (concat ?nb)) = mset (map e_key (concat (h_buckets h)))"
    using arg_cong [OF bag, of "image_mset e_key"] ek(1) by (simp add: e'_def)
  have vb: "add_mset v (image_mset e_value (mset (concat ?nb))) =
      add_mset ?w (image_mset e_value (mset (concat (h_buckets h))))"
    using arg_cong [OF bag, of "image_mset e_value"] v by (simp add: e'_def)
  obtain rest where rest: "mset (concat (h_buckets h)) = add_mset e (mset rest)"
    by (rule that [OF bag_erase [OF slot_facts(3) [OF assms(1)] chain(1)]])
  then have nb: "mset (concat ?nb) = add_mset e' (mset rest)"
    using bag by simp
  have "map_of (map kv rest) = (hashmap_alpha h)(key := None)"
    unfolding hashmap_alpha_def
    by (rule map_of_mset_remove [OF d, where v = v]) (simp only: mset_map rest, simp add: kv_def ek(1) v)
  moreover have "map_of (map kv (concat ?nb)) = (map_of (map kv rest))(key \<mapsto> ?w)"
  proof (rule map_of_mset_insert)
    have "mset (map e_key (concat (h_buckets h))) = mset (map e_key (e # rest))"
      by (simp only: mset_map rest) simp
    then have "distinct (map e_key (e # rest))"
      using d by (metis distinct_mset_cong fst_comp_kv map_map)
    then show "distinct (map fst (map kv rest))" and "key \<notin> fst ` set (map kv rest)"
      using ek(1) by (simp_all add: image_image)
    show "mset (map kv (concat ?nb)) = add_mset (key, ?w) (mset (map kv rest))"
      by (simp only: mset_map nb) (simp add: kv_def e'_def)
  qed
  ultimately have alpha: "map_of (map kv (concat ?nb)) = (hashmap_alpha h)(key \<mapsto> ?w)"
    by simp
  have len: "length (concat ?nb) = length (concat (h_buckets h))"
    using mset_eq_length [OF kb] by (simp only: length_map)
  have keys: "distinct (map e_key (concat ?nb))"
    using d distinct_mset_cong [OF _ kb [symmetric]] by (simp only: map_map fst_comp_kv)
  show ?thesis
    using assms(1) loc keys alpha vb len
    by (simp add: hashmap_insert_or_assign_def slot_facts [OF assms(1)] e v hashmap_ok_def same_hcallbacks_def
        hfree_value_def values_of_def) (simp add: hashmap_alpha_def)
qed

lemma hfree_simps [simp]:
  "h_buckets (hashmap_free_entry h e) = h_buckets h" "h_capacity (hashmap_free_entry h e) = h_capacity h"
  "h_size (hashmap_free_entry h e) = h_size h" "same_hcallbacks h (hashmap_free_entry h e)"
  "h_freed (hashmap_free_entry h e) = h_freed h @ (if h_key_free h then [Key_free (e_key e)] else []) @
     (if h_value_free h then [Value_free (e_value e)] else [])"
  by (simp_all add: hashmap_free_entry_def hfree_value_def hfree_key_def same_hcallbacks_def)

lemma hashmap_erase_spec:
  assumes "hashmap_ok h" and "hashmap_alpha h key = Some v"
  shows "returns (hashmap_erase h key) (\<lambda>(r, h'). r = 1 \<and> hashmap_ok h' \<and> same_hcallbacks h h' \<and>
    h_freed h' = h_freed h @ (if h_key_free h then [Key_free key] else []) @
      (if h_value_free h then [Value_free v] else []) \<and>
    hashmap_alpha h' = (hashmap_alpha h)(key := None) \<and> values_of h = add_mset v (values_of h'))"
proof -
  let ?p = "entry_matches h (h_hash h key) key" and ?b = "h_buckets h ! hslot h key"
  let ?nb = "(h_buckets h)[hslot h key := chain_erase ?p ?b]"
  obtain e where e: "chain_find ?p ?b = Some e"
    using slot_find_None [OF assms(1), of key] assms(2) by auto
  note ek = slot_find_Some [OF assms(1) e]
  have v: "e_value e = v"
    using ek(3) assms(2) by simp
  have chain: "mset ?b = add_mset e (mset (chain_erase ?p ?b))" "set (chain_erase ?p ?b) \<subseteq> set ?b"
    using chain_find_Some [OF e] by auto
  have bag: "mset (concat (h_buckets h)) = add_mset e (mset (concat ?nb))"
    using slot_facts(3) [OF assms(1)] chain(1) by (rule bag_erase)
  have d: "distinct (map fst (map kv (concat (h_buckets h))))"
    using assms(1) by (simp add: hashmap_ok_def)
  have loc: "located (h_hash h) ?nb"
    using chain(2) by (intro located_slot_update [OF assms(1)]) auto
  have alpha: "map_of (map kv (concat ?nb)) = (hashmap_alpha h)(key := None)"
    unfolding hashmap_alpha_def
    by (rule map_of_mset_remove [OF d, where v = v]) (simp only: mset_map bag, simp add: kv_def ek(1) v)
  have "mset (map e_key (concat (h_buckets h))) = mset (e_key e # map e_key (concat ?nb))"
    by (simp only: mset_map bag) simp
  then have keys: "distinct (map e_key (concat ?nb))"
    using d distinct_mset_cong by (metis distinct.simps(2) fst_comp_kv map_map)
  have len: "length (concat (h_buckets h)) = Suc (length (concat ?nb))"
    using arg_cong [OF bag, of size] by (simp only: size_mset size_add_mset)
  have vals: "image_mset e_value (mset (concat (h_buckets h))) = add_mset v (image_mset e_value (mset (concat ?nb)))"
    by (simp only: bag) (simp add: v)
  have cb: "same_hcallbacks h (hashmap_free_entry h e)"
    by simp
  have "hashmap_erase h key =
      Some (1, (hashmap_free_entry h e)\<lparr>h_buckets := ?nb, h_size := h_size h - 1\<rparr>)"
    by (simp add: hashmap_erase_def Let_def slot_facts [OF assms(1)] e)
  then show ?thesis
    using assms(1) loc keys alpha vals len cb
    by (simp add: v ek(1) hashmap_ok_def same_hcallbacks_def values_of_def) (simp add: hashmap_alpha_def)
qed

lemma hashmap_erase_missing:
  assumes "hashmap_ok h" and "hashmap_alpha h key = None"
  shows "hashmap_erase h key = Some (0, h)"
  using slot_find_None [OF assms(1), of key] assms(2)
  by (simp add: hashmap_erase_def slot_facts [OF assms(1)])

lemma hashmap_assign_missing:
  assumes "hashmap_ok h" and "hashmap_alpha h key = None"
  shows "hashmap_insert_or_assign fl ok1 ok2 h key v = hashmap_insert fl ok1 ok2 h key v"
  using slot_find_None [OF assms(1), of key] assms(2)
  by (simp add: hashmap_insert_or_assign_def slot_facts [OF assms(1)])

text \<open>Clearing.\<close>

lemma free_chain_spec:
  "h_buckets (hashmap_free_bucket_chain h b) = h_buckets h \<and>
   h_capacity (hashmap_free_bucket_chain h b) = h_capacity h \<and>
   same_hcallbacks h (hashmap_free_bucket_chain h b) \<and>
   mset (freed_values (h_freed (hashmap_free_bucket_chain h b))) =
     mset (freed_values (h_freed h)) + (if h_value_free h then image_mset e_value (mset b) else {#})"
proof (induction b arbitrary: h)
  case (Cons e b)
  have cb: "same_hcallbacks h (hashmap_free_entry h e)"
    by simp
  then have vf: "h_value_free (hashmap_free_entry h e) = h_value_free h"
    by (simp add: same_hcallbacks_def)
  show ?case
    using Cons.IH [of "hashmap_free_entry h e"] same_hcallbacks_trans [OF cb] by (simp add: vf)
qed simp

lemma clear_loop_spec:
  assumes "drop i (h_buckets h) = bs" and "i \<le> length (h_buckets h)"
  shows "h_buckets (clear_loop bs h i) = take i (h_buckets h) @ replicate (length bs) [] \<and>
    h_capacity (clear_loop bs h i) = h_capacity h \<and> same_hcallbacks h (clear_loop bs h i) \<and>
    mset (freed_values (h_freed (clear_loop bs h i))) =
      mset (freed_values (h_freed h)) + (if h_value_free h then image_mset e_value (mset (concat bs)) else {#})"
  using assms
proof (induction bs arbitrary: h i)
  case (Cons b bs)
  let ?h = "(hashmap_free_bucket_chain h b)\<lparr>h_buckets := (h_buckets h)[i := []]\<rparr>"
  have i: "i < length (h_buckets h)"
    using Cons.prems by (metis drop_all leI list.distinct(1))
  have b: "h_buckets h ! i = b" and tl: "drop (Suc i) (h_buckets h) = bs"
    using Cons.prems(1) i by (metis Cons_nth_drop_Suc list.inject)+
  show ?case
  proof (cases "b = []")
    case True
    then have "take (Suc i) (h_buckets h) = take i (h_buckets h) @ [[]]"
      using b i by (simp add: take_Suc_conv_app_nth)
    then show ?thesis
      using Cons.IH [of "Suc i" h] tl i True by simp
  next
    case False
    have "take (Suc i) ((h_buckets h)[i := []]) = take i (h_buckets h) @ [[]]"
      using i by (simp add: take_Suc_conv_app_nth)
    moreover have cb: "same_hcallbacks h ?h"
      using free_chain_spec [of h b] by (simp add: same_hcallbacks_def)
    moreover have "h_value_free ?h = h_value_free h"
      using cb by (simp add: same_hcallbacks_def)
    ultimately show ?thesis
      using Cons.IH [of "Suc i" ?h] tl i False free_chain_spec [of h b] same_hcallbacks_trans [OF cb]
      by (simp add: add.assoc)
  qed
qed simp

lemma hashmap_clear_spec:
  assumes "hashmap_ok h"
  shows "hashmap_ok (hashmap_clear h)" and "hashmap_alpha (hashmap_clear h) = Map.empty"
    and "same_hcallbacks h (hashmap_clear h)" and "values_of (hashmap_clear h) = {#}"
    and "mset (freed_values (h_freed (hashmap_clear h))) =
      mset (freed_values (h_freed h)) + (if h_value_free h then values_of h else {#})"
  using assms clear_loop_spec [of 0 h "h_buckets h"]
  by (auto simp: hashmap_clear_def hashmap_ok_def hashmap_alpha_def same_hcallbacks_def located_def values_of_def)

section \<open>Sequences of operations\<close>

datatype ('k, 'v) hashmap_op =
    HInsert bool bool 'k 'v
  | HAssign bool bool 'k 'v
  | HErase 'k
  | HFind 'k
  | HClear
  | HRehash bool nat
  | HReserve bool nat

definition hashmap_exec ::
    "(rat \<Rightarrow> rat) \<Rightarrow> ('k, 'v) hashmap_op \<Rightarrow> ('k, 'v) hashmap_t \<Rightarrow> ('v map_result \<times> ('k, 'v) hashmap_t) option" where
  "hashmap_exec fl op h = (case op of
     HInsert ok1 ok2 k v \<Rightarrow> map_option (\<lambda>(r, h'). (Ret r, h')) (hashmap_insert fl ok1 ok2 h k v)
   | HAssign ok1 ok2 k v \<Rightarrow> map_option (\<lambda>(r, h'). (Ret r, h')) (hashmap_insert_or_assign fl ok1 ok2 h k v)
   | HErase k \<Rightarrow> map_option (\<lambda>(r, h'). (Ret r, h')) (hashmap_erase h k)
   | HFind k \<Rightarrow> map_option (\<lambda>r. (Found r, h)) (hashmap_find h k)
   | HClear \<Rightarrow> Some (Ret 0, hashmap_clear h)
   | HRehash ok n \<Rightarrow> map_option (\<lambda>(r, h'). (Ret r, h')) (hashmap_rehash ok h n)
   | HReserve ok n \<Rightarrow> map_option (\<lambda>(r, h'). (Ret r, h')) (hashmap_reserve fl ok h n))"

primrec hashmap_run ::
    "(rat \<Rightarrow> rat) \<Rightarrow> ('k, 'v) hashmap_op list \<Rightarrow> ('k, 'v) hashmap_t \<Rightarrow>
     ('v map_result list \<times> ('k, 'v) hashmap_t) option" where
  "hashmap_run fl [] h = Some ([], h)"
| "hashmap_run fl (op # ops) h = do {
     (r, h1) \<leftarrow> hashmap_exec fl op h;
     (rs, h2) \<leftarrow> hashmap_run fl ops h1;
     Some (r # rs, h2)
   }"

text \<open>The finite map after a call that returned \<open>r\<close>; \<open>None\<close> if the call must not return
  \<open>r\<close>. A failed insertion or resize, with the result -1, changes nothing.\<close>

definition expected :: "('v \<Rightarrow> 'v) \<Rightarrow> ('k, 'v) hashmap_op \<Rightarrow> ('k \<rightharpoonup> 'v) \<Rightarrow> 'v map_result \<Rightarrow> ('k \<rightharpoonup> 'v) option" where
  "expected copy op f r = (case op of
     HInsert _ _ k v \<Rightarrow>
       if r = Ret (-1) \<or> r = Ret 0 \<and> f k \<noteq> None then Some f
       else if r = Ret 1 \<and> f k = None then Some (f(k \<mapsto> copy v)) else None
   | HAssign _ _ k v \<Rightarrow>
       if r = Ret (-1) \<and> f k = None then Some f
       else if r = (if f k = None then Ret 1 else Ret 2) then Some (f(k \<mapsto> copy v)) else None
   | HErase k \<Rightarrow> if r = (if f k = None then Ret 0 else Ret 1) then Some (f(k := None)) else None
   | HFind k \<Rightarrow> if r = Found (f k) then Some f else None
   | HClear \<Rightarrow> Some Map.empty
   | HRehash _ _ \<Rightarrow> if r = Ret 0 \<or> r = Ret (-1) then Some f else None
   | HReserve _ _ \<Rightarrow> if r = Ret 0 \<or> r = Ret (-1) then Some f else None)"

fun expected_run ::
    "('v \<Rightarrow> 'v) \<Rightarrow> ('k, 'v) hashmap_op list \<Rightarrow> ('k \<rightharpoonup> 'v) \<Rightarrow> 'v map_result list \<Rightarrow> ('k \<rightharpoonup> 'v) option" where
  "expected_run copy [] f [] = Some f"
| "expected_run copy (op # ops) f (r # rs) =
     (case expected copy op f r of None \<Rightarrow> None | Some f' \<Rightarrow> expected_run copy ops f' rs)"
| "expected_run copy _ f _ = None"

text \<open>The values a call hands over to the map, seen from its result.\<close>

definition hstored :: "('v \<Rightarrow> 'v) \<Rightarrow> ('k, 'v) hashmap_op \<Rightarrow> 'v map_result \<Rightarrow> 'v list" where
  "hstored copy op r = (case op of
     HInsert _ _ k v \<Rightarrow> if r = Ret 1 then [copy v] else []
   | HAssign _ _ k v \<Rightarrow> if r = Ret 1 \<or> r = Ret 2 then [copy v] else []
   | _ \<Rightarrow> [])"

definition hstored_run :: "('v \<Rightarrow> 'v) \<Rightarrow> ('k, 'v) hashmap_op list \<Rightarrow> 'v map_result list \<Rightarrow> 'v list" where
  "hstored_run copy ops rs = concat (map2 (hstored copy) ops rs)"

definition howned :: "('k, 'v) hashmap_t \<Rightarrow> 'v multiset" where
  "howned h = values_of h + mset (freed_values (h_freed h))"

lemma reserve_loop_pos: "0 < cap \<Longrightarrow> 0 < reserve_loop fl lf cnt cap"
proof (induction fl lf cnt cap rule: reserve_loop.induct)
  case (1 fl lf cnt cap)
  then show ?case
    by (subst reserve_loop.simps) (simp add: size_modulus_def)
qed

lemma resize_exec:
  assumes "hashmap_ok h" and "0 < n"
  shows "returns (hashmap_resize ok h n) (\<lambda>(r, h'). (r = 0 \<or> r = -1) \<and> unchanged h h')"
  using hashmap_resize_spec [OF assms, of ok]
  by (rule returns_mono) (auto simp: unchanged_def values_of_def assms(1))

lemma unchanged_exec:
  assumes "unchanged h h'"
  shows "hashmap_ok h' \<and> same_hcallbacks h h' \<and> hashmap_alpha h' = hashmap_alpha h \<and> howned h' = howned h"
  using assms by (simp add: unchanged_def howned_def)

lemma bound_exec:
  assumes "bound h key v h'"
  shows "hashmap_ok h' \<and> same_hcallbacks h h' \<and>
    hashmap_alpha h' = (hashmap_alpha h)(key \<mapsto> apply_copy (h_value_copy h) v) \<and>
    howned h' = add_mset (apply_copy (h_value_copy h) v) (howned h)"
  using assms by (simp add: bound_def howned_def)

text \<open>The outcome every call must have.\<close>

definition good_outcome ::
    "('k, 'v) hashmap_t \<Rightarrow> ('k, 'v) hashmap_op \<Rightarrow> 'v map_result \<Rightarrow> ('k, 'v) hashmap_t \<Rightarrow> bool" where
  "good_outcome h op r h' \<longleftrightarrow> hashmap_ok h' \<and> same_hcallbacks h h' \<and>
     expected (apply_copy (h_value_copy h)) op (hashmap_alpha h) r = Some (hashmap_alpha h') \<and>
     (h_value_free h \<longrightarrow> howned h' = howned h + mset (hstored (apply_copy (h_value_copy h)) op r))"

lemma exec_insert:
  assumes "hashmap_ok h"
  shows "returns (hashmap_insert fl ok1 ok2 h k v) (\<lambda>(r, h'). good_outcome h (HInsert ok1 ok2 k v) (Ret r) h')"
  using hashmap_insert_spec [OF assms, of fl ok1 ok2 k v]
  by (rule returns_mono) (auto simp: good_outcome_def expected_def hstored_def dest!: unchanged_exec bound_exec)

lemma exec_assign:
  assumes "hashmap_ok h"
  shows "returns (hashmap_insert_or_assign fl ok1 ok2 h k v) (\<lambda>(r, h'). good_outcome h (HAssign ok1 ok2 k v) (Ret r) h')"
proof (cases "hashmap_alpha h k")
  case None
  show ?thesis
    unfolding hashmap_assign_missing [OF assms None]
    using hashmap_insert_spec [OF assms, of fl ok1 ok2 k v]
    by (rule returns_mono)
       (auto simp: good_outcome_def expected_def hstored_def None dest!: unchanged_exec bound_exec)
next
  case (Some w)
  show ?thesis
    using hashmap_assign_spec [OF assms Some, of fl ok1 ok2 v]
    by (rule returns_mono) (auto simp: good_outcome_def expected_def hstored_def Some howned_def)
qed

lemma exec_erase:
  assumes "hashmap_ok h"
  shows "returns (hashmap_erase h k) (\<lambda>(r, h'). good_outcome h (HErase k) (Ret r) h')"
proof (cases "hashmap_alpha h k")
  case None
  then show ?thesis
    using assms
    by (simp add: hashmap_erase_missing good_outcome_def expected_def hstored_def fun_upd_idem)
next
  case (Some w)
  show ?thesis
    using hashmap_erase_spec [OF assms Some]
    by (rule returns_mono) (auto simp: good_outcome_def expected_def hstored_def Some howned_def)
qed

lemma exec_rehash:
  assumes "hashmap_ok h"
  shows "returns (hashmap_rehash ok h n) (\<lambda>(r, h'). good_outcome h (HRehash ok n) (Ret r) h')"
proof (cases "n = 0")
  case True
  then show ?thesis
    using unchanged_exec [OF unchanged_refl [OF assms]]
    by (simp add: hashmap_rehash_def good_outcome_def expected_def hstored_def)
next
  case False
  then have "returns (hashmap_resize ok h n) (\<lambda>(r, h'). (r = 0 \<or> r = -1) \<and> unchanged h h')"
    by (intro resize_exec [OF assms]) simp
  then show ?thesis
    using False
    by (auto simp: hashmap_rehash_def good_outcome_def expected_def hstored_def elim!: returns_mono dest!: unchanged_exec)
qed

lemma exec_reserve:
  assumes "hashmap_ok h"
  shows "returns (hashmap_reserve fl ok h n) (\<lambda>(r, h'). good_outcome h (HReserve ok n) (Ret r) h')"
proof -
  define start where
    "start = (if h_capacity h < HASHMAP_DEFAULT_CAPACITY then HASHMAP_DEFAULT_CAPACITY else h_capacity h)"
  have "0 < start"
    using assms by (simp add: start_def HASHMAP_DEFAULT_CAPACITY_def hashmap_ok_def)
  then have "0 < reserve_loop fl (h_load_factor h) n start"
    by (rule reserve_loop_pos)
  then have "returns (hashmap_resize ok h (reserve_loop fl (h_load_factor h) n start))
      (\<lambda>(r, h'). (r = 0 \<or> r = -1) \<and> unchanged h h')"
    by (rule resize_exec [OF assms])
  then show ?thesis
    using unchanged_exec [OF unchanged_refl [OF assms]]
    unfolding hashmap_reserve_def start_def [symmetric] Let_def
    by (auto simp: good_outcome_def expected_def hstored_def elim!: returns_mono dest!: unchanged_exec)
qed

lemma hashmap_exec_spec:
  assumes "hashmap_ok h"
  shows "returns (hashmap_exec fl op h) (\<lambda>(r, h'). good_outcome h op r h')"
proof (cases op)
  case (HFind k)
  with assms show ?thesis
    by (simp add: hashmap_exec_def hashmap_find_spec good_outcome_def expected_def hstored_def)
next
  case HClear
  with hashmap_clear_spec [OF assms] show ?thesis
    by (simp add: hashmap_exec_def good_outcome_def expected_def hstored_def howned_def)
qed (simp_all add: hashmap_exec_def split_beta [abs_def] exec_insert [OF assms, unfolded split_beta]
       exec_assign [OF assms, unfolded split_beta] exec_erase [OF assms, unfolded split_beta]
       exec_rehash [OF assms, unfolded split_beta] exec_reserve [OF assms, unfolded split_beta])

lemma hashmap_run_spec:
  assumes "hashmap_ok h"
  shows "returns (hashmap_run fl ops h) (\<lambda>(rs, h'). hashmap_ok h' \<and> same_hcallbacks h h' \<and>
    expected_run (apply_copy (h_value_copy h)) ops (hashmap_alpha h) rs = Some (hashmap_alpha h') \<and>
    (h_value_free h \<longrightarrow> howned h' = howned h + mset (hstored_run (apply_copy (h_value_copy h)) ops rs)))"
  using assms
proof (induction ops arbitrary: h)
  case Nil
  then show ?case
    by (simp add: hstored_run_def)
next
  case (Cons op ops)
  obtain r h1 where e: "hashmap_exec fl op h = Some (r, h1)" and g: "good_outcome h op r h1"
    using hashmap_exec_spec [OF Cons.prems, of fl op] by (auto simp: returns_iff)
  then have ok: "hashmap_ok h1" and cb: "same_hcallbacks h h1"
    and x: "expected (apply_copy (h_value_copy h)) op (hashmap_alpha h) r = Some (hashmap_alpha h1)"
    and o: "h_value_free h \<longrightarrow> howned h1 = howned h + mset (hstored (apply_copy (h_value_copy h)) op r)"
    by (simp_all add: good_outcome_def)
  have vc: "h_value_copy h1 = h_value_copy h" "h_value_free h1 = h_value_free h"
    using cb by (simp_all add: same_hcallbacks_def)
  obtain rs h2 where e2: "hashmap_run fl ops h1 = Some (rs, h2)" and ok2: "hashmap_ok h2"
    and cb2: "same_hcallbacks h1 h2"
    and x2: "expected_run (apply_copy (h_value_copy h)) ops (hashmap_alpha h1) rs = Some (hashmap_alpha h2)"
    and o2: "h_value_free h \<longrightarrow> howned h2 = howned h1 + mset (hstored_run (apply_copy (h_value_copy h)) ops rs)"
    using Cons.IH [OF ok] by (auto simp: returns_iff vc)
  show ?case
    using same_hcallbacks_trans [OF cb cb2] ok2 o o2
    by (simp add: e e2 x x2 hstored_run_def)
qed

section \<open>Iteration\<close>

text \<open>The loop of the macro \<open>hashmap_foreach\<close>, collecting the bindings; the fuel bounds the
  number of rounds.\<close>

primrec hashmap_collect :: "nat \<Rightarrow> ('k, 'v) hashmap_t \<Rightarrow> ('k, 'v) hashmap_iterator \<Rightarrow> ('k \<times> 'v) list option" where
  "hashmap_collect 0 h it = (if hashmap_iterator_valid it then None else Some [])"
| "hashmap_collect (Suc n) h it =
     (case (hashmap_iterator_key it, hashmap_iterator_value it) of
        (Some k, Some v) \<Rightarrow> map_option (\<lambda>kvs. (k, v) # kvs) (hashmap_collect n h (hashmap_next h it))
      | _ \<Rightarrow> Some [])"

text \<open>The entries from an iterator's position on.\<close>

definition hremaining :: "('k, 'v) hashmap_t \<Rightarrow> ('k, 'v) hashmap_iterator \<Rightarrow> ('k, 'v) hashmap_entry list" where
  "hremaining h it =
     (if it_entry it = [] then [] else it_entry it @ concat (drop (Suc (it_bucket_index it)) (h_buckets h)))"

lemma scan_buckets_spec:
  "drop i (h_buckets h) = bs \<Longrightarrow> hremaining h (scan_buckets bs i stay) = concat bs"
proof (induction bs arbitrary: i)
  case Nil
  then show ?case
    by (simp add: hremaining_def)
next
  case (Cons b bs)
  have "drop (Suc i) (h_buckets h) = bs"
    using Cons.prems by (metis drop_Suc list.sel(3) tl_drop)
  then show ?case
    using Cons.IH [of "Suc i"] by (cases "b = []") (simp, simp add: hremaining_def)
qed

lemma hashmap_next_spec:
  "it_entry it = e # es \<Longrightarrow> hremaining h it = e # hremaining h (hashmap_next h it)"
  using scan_buckets_spec [of "Suc (it_bucket_index it)" h "drop (Suc (it_bucket_index it)) (h_buckets h)"]
  by (cases "es = []") (simp add: hashmap_next_def hremaining_def [of h it], simp add: hashmap_next_def hremaining_def)

lemma hashmap_collect_spec:
  "length (hremaining h it) \<le> n \<Longrightarrow> hashmap_collect n h it = Some (map kv (hremaining h it))"
proof (induction n arbitrary: it)
  case 0
  then show ?case
    by (auto simp: hashmap_iterator_valid_def hremaining_def split: if_splits)
next
  case (Suc n)
  show ?case
  proof (cases "it_entry it")
    case Nil
    then show ?thesis
      by (simp add: hashmap_iterator_key_def hremaining_def)
  next
    case (Cons e es)
    then show ?thesis
      using Suc.IH [of "hashmap_next h it"] Suc.prems hashmap_next_spec [OF Cons, of h]
      by (simp add: hashmap_iterator_key_def hashmap_iterator_value_def kv_def)
  qed
qed

lemma hashmap_begin_spec:
  assumes "hashmap_ok h"
  shows "hremaining h (hashmap_begin h) = concat (h_buckets h)"
proof (cases "h_size h = 0")
  case True
  then have "concat (h_buckets h) = []"
    using assms unfolding hashmap_ok_def by (metis length_0_conv)
  then show ?thesis
    using True by (simp add: hashmap_begin_def hremaining_def del: concat_eq_Nil_conv)
next
  case False
  then show ?thesis
    using scan_buckets_spec [of 0 h "h_buckets h" 0] by (simp add: hashmap_begin_def)
qed

section \<open>Equality functions\<close>

text \<open>What the map relies on its equality function for.\<close>

locale key_equality =
  fixes eq :: "'k \<Rightarrow> 'k \<Rightarrow> int"
  assumes eq_0: "eq a b = 0 \<longleftrightarrow> a = b"

interpretation eq_int: key_equality hashmap_equals_int
  by unfold_locales (simp add: hashmap_equals_int_def)

interpretation eq_ptr: key_equality hashmap_equals_ptr
  by unfold_locales (simp add: hashmap_equals_ptr_def)

interpretation eq_string: key_equality hashmap_equals_string
  by unfold_locales (simp add: hashmap_equals_string_def strcmp_0 nul_notin_cstr_bytes cstr_bytes_inject)

lemma hashmap_create_ok:
  assumes "key_equality equals" and "\<forall>k. apply_copy kc k = k"
    and "hashmap_create_ex ok1 ok2 (Some hash) (Some equals) cap lf kc kf vc vf = Some h"
  shows "hashmap_ok h" and "hashmap_alpha h = Map.empty" and "h_value_copy h = vc" and "h_value_free h = vf"
    and "howned h = {#}"
  using assms
  by (auto simp: hashmap_create_ex_def Let_def calloc_buckets_def hashmap_ok_def hashmap_alpha_def howned_def
      values_of_def located_def HASHMAP_DEFAULT_CAPACITY_def key_equality_def split: if_splits option.splits)

lemma hashmap_create_run:
  assumes "key_equality equals" and "\<forall>k. apply_copy kc k = k"
    and "hashmap_create_ex ok1 ok2 (Some hash) (Some equals) cap lf kc kf vc vf = Some h0"
  shows "returns (hashmap_run fl ops h0) (\<lambda>(rs, h). hashmap_ok h \<and> h_value_free h = vf \<and>
    expected_run (apply_copy vc) ops Map.empty rs = Some (hashmap_alpha h) \<and>
    (vf \<longrightarrow> howned h = mset (hstored_run (apply_copy vc) ops rs)))"
  using hashmap_run_spec [OF hashmap_create_ok(1) [OF assms], of fl ops] hashmap_create_ok(2-) [OF assms]
  by (auto elim!: returns_mono simp: same_hcallbacks_def)

section \<open>Properties\<close>


text \<open>A map of integer keys used by the witnesses.\<close>

definition example_hashmap :: "(64 word, nat) hashmap_t" where
  "example_hashmap = \<lparr> h_buckets = replicate 2 [], h_capacity = 2, h_size = 0, h_load_factor = 3 / 4,
     h_hash = hashmap_hash_int, h_equals = hashmap_equals_int, h_key_copy = None, h_key_free = False,
     h_value_copy = None, h_value_free = True, h_freed = [] \<rparr>"

lemma example_hashmap_create:
  "hashmap_create_ex True True (Some hashmap_hash_int) (Some hashmap_equals_int) 2 (3 / 4) None False None True =
   Some example_hashmap"
  by (simp add: hashmap_create_ex_def example_hashmap_def calloc_buckets_def size_modulus_def
      HASHMAP_MAX_LOAD_FACTOR_def)


text \<open>Property C18. Every value stored in a hash map with a value destructor is released exactly once:
  after any sequence of calls and a final \<open>hashmap_clear\<close> the released values are, with
  multiplicity, the values that successful insertions and assignments stored.\<close>

theorem hashmap_values_released_once:
  assumes "key_equality equals" and "\<forall>k. apply_copy kc k = k"
    and "hashmap_create_ex ok1 ok2 (Some hash) (Some equals) cap lf kc kf vc True = Some h0"
  shows "returns (hashmap_run fl ops h0) (\<lambda>(rs, h).
    mset (freed_values (h_freed (hashmap_clear h))) = mset (hstored_run (apply_copy vc) ops rs))"
  using hashmap_create_run [OF assms, of fl ops]
  by (rule returns_mono) (auto simp: hashmap_clear_spec(5) howned_def add.commute)

theorem hashmap_values_released_once_witness:
  "returns (hashmap_run (\<lambda>x. x) [HInsert True True 5 1, HAssign True True 5 2] example_hashmap) (\<lambda>(rs, h).
    mset (freed_values (h_freed (hashmap_clear h))) =
      mset (hstored_run (apply_copy None) [HInsert True True (5 :: 64 word) 1, HAssign True True 5 2] rs))"
  by (rule hashmap_values_released_once [OF eq_int.key_equality_axioms _ example_hashmap_create])
     (simp add: apply_copy_def)

text \<open>Property C19. The loop of \<open>hashmap_foreach\<close> over a map that results from any sequence of
  calls ends after as many rounds as the map has entries and visits each binding exactly once.\<close>

theorem hashmap_iteration_complete:
  assumes "key_equality equals" and "\<forall>k. apply_copy kc k = k"
    and "hashmap_create_ex ok1 ok2 (Some hash) (Some equals) cap lf kc kf vc vf = Some h0"
  shows "returns (hashmap_run fl ops h0) (\<lambda>(rs, h).
    returns (hashmap_collect (h_size h) h (hashmap_begin h)) (\<lambda>kvs.
      distinct (map fst kvs) \<and> Some (map_of kvs) = expected_run (apply_copy vc) ops Map.empty rs))"
proof (rule returns_mono [OF hashmap_create_run [OF assms, of fl ops]], clarify)
  fix rs h
  assume ok: "hashmap_ok h" and x: "expected_run (apply_copy vc) ops Map.empty rs = Some (hashmap_alpha h)"
  have "length (hremaining h (hashmap_begin h)) \<le> h_size h"
    using ok by (simp add: hashmap_begin_spec hashmap_ok_def)
  then have "hashmap_collect (h_size h) h (hashmap_begin h) = Some (map kv (concat (h_buckets h)))"
    using hashmap_collect_spec [of h "hashmap_begin h" "h_size h"] hashmap_begin_spec [OF ok] by simp
  then show "returns (hashmap_collect (h_size h) h (hashmap_begin h)) (\<lambda>kvs.
      distinct (map fst kvs) \<and> Some (map_of kvs) = expected_run (apply_copy vc) ops Map.empty rs)"
    using ok by (simp add: x hashmap_alpha_def hashmap_ok_def)
qed

theorem hashmap_iteration_complete_witness:
  "returns (hashmap_run (\<lambda>x. x) [HInsert True True 5 1] example_hashmap) (\<lambda>(rs, h).
    returns (hashmap_collect (h_size h) h (hashmap_begin h)) (\<lambda>kvs.
      distinct (map fst kvs) \<and> Some (map_of kvs) = expected_run (apply_copy None) [HInsert True True 5 1] Map.empty rs))"
  by (rule hashmap_iteration_complete [OF eq_int.key_equality_axioms _ example_hashmap_create])
     (simp add: apply_copy_def)

text \<open>The FNV-1a hash of a byte string.\<close>

definition fnv1a :: "char list \<Rightarrow> 64 word" where
  "fnv1a s = fold (\<lambda>c hash. (hash XOR of_nat (ord c)) * fnv_prime) s fnv_offset"

lemma hash_string_loop_ascii:
  "list_all (\<lambda>c. ord c < 128) s \<Longrightarrow>
   hash_string_loop s hash = fold (\<lambda>c hash. (hash XOR of_nat (ord c)) * fnv_prime) s hash"
  by (induction s arbitrary: hash) (simp_all add: sign_extended_def)



end
