(* ===== verification/Array.thy ===== *)
theory Array
  imports Prelude
begin

text \<open>
  The growable array of tagged values of \<open>misc/array.c\<close>. The element block is a list whose
  length is the number of allocated cells; reading or writing outside it is \<open>None\<close>. Values own
  resources, a string block or an object with a destructor; each operation returns the resources it
  released, so that the lemmas can account for every one of them. Floating-point payloads are of the
  type parameter \<open>'d\<close> and objects of the type parameter \<open>'p\<close>.

  The block of the array can be no larger than the largest object the platform can address, so a
  request of that size fails. NULL arrays are not modelled. The conversion of an item to text is left
  out: it formats numbers with \<open>snprintf\<close>.
\<close>

section \<open>Data\<close>

datatype ('d, 'p) avalue =
    ARRAY_INT int
  | ARRAY_DOUBLE 'd
  | ARRAY_LONGDOUBLE 'd
  | ARRAY_STRING "char list option" nat
  | ARRAY_POINTER 'p "('p \<Rightarrow> 'p) option" bool

text \<open>What the release of a value gives back.\<close>

datatype 'p resource = String_block "char list" | Object 'p

record ('d, 'p) array_t =
  elements :: "('d, 'p) avalue list option"
  array_length :: nat
  capacity :: nat

definition INITIAL_CAPACITY :: nat where
  "INITIAL_CAPACITY = 10"

definition avalue_bytes :: nat where
  "avalue_bytes = 80"

text \<open>An element block of \<open>n\<close> cells, if the request is not larger than the largest object.\<close>

definition realloc_cells :: "'a cell_allocator \<Rightarrow> 'a list \<Rightarrow> nat \<Rightarrow> 'a list option" where
  "realloc_cells m old n = (if n * avalue_bytes < 2 ^ 63 then realloc m old n else None)"

section \<open>Values\<close>

definition array_create_int :: "int \<Rightarrow> ('d, 'p) avalue" where
  "array_create_int v = ARRAY_INT v"

definition array_create_double :: "'d \<Rightarrow> ('d, 'p) avalue" where
  "array_create_double v = ARRAY_DOUBLE v"

definition array_create_ldouble :: "'d \<Rightarrow> ('d, 'p) avalue" where
  "array_create_ldouble v = ARRAY_LONGDOUBLE v"

text \<open>\<open>strncpy\<close> of \<open>n\<close> bytes: the bytes of the source up to its first NUL, then NUL bytes. A
  source of fewer bytes without a NUL is read out of bounds.\<close>

definition strncpy_bytes :: "char list \<Rightarrow> nat \<Rightarrow> char list option" where
  "strncpy_bytes v n =
     (let s = takeWhile (\<lambda>c. c \<noteq> nul) (take n v) in
      if length s < n \<and> length s = length v then None else Some (s @ replicate (n - length s) nul))"

definition array_create_stringn :: "allocator \<Rightarrow> char list \<Rightarrow> nat \<Rightarrow> ('d, 'p) avalue option" where
  "array_create_stringn m v n =
     (case malloc m (szadd n 1) of
        None \<Rightarrow> Some (ARRAY_STRING None 0)
      | Some string \<Rightarrow> do {
          bytes \<leftarrow> strncpy_bytes v n;
          s1 \<leftarrow> poke string 0 bytes;
          s2 \<leftarrow> poke s1 n [nul];
          Some (ARRAY_STRING (Some s2) n)
        })"

definition array_create_string :: "allocator \<Rightarrow> cstr option \<Rightarrow> ('d, 'p) avalue option" where
  "array_create_string m v =
     (case v of
        None \<Rightarrow> array_create_stringn m [] 0
      | Some s \<Rightarrow> array_create_stringn m (cstr_bytes s) (length (cstr_bytes s)))"

definition array_create_pointer :: "'p \<Rightarrow> ('p \<Rightarrow> 'p) option \<Rightarrow> bool \<Rightarrow> ('d, 'p) avalue" where
  "array_create_pointer p oncopy onfree = ARRAY_POINTER p oncopy onfree"

text \<open>The resources released by \<open>__array_free_value\<close>, and the value it leaves behind.\<close>

definition array_free_value :: "('d, 'p) avalue \<Rightarrow> 'p resource list" where
  "array_free_value v = (case v of
     ARRAY_STRING (Some s) _ \<Rightarrow> [String_block s]
   | ARRAY_POINTER p _ True \<Rightarrow> [Object p]
   | _ \<Rightarrow> [])"

definition cleared_value :: "('d, 'p) avalue" where
  "cleared_value = ARRAY_INT 0"

text \<open>Releasing the first \<open>n\<close> elements of a block.\<close>

primrec free_loop :: "nat \<Rightarrow> nat \<Rightarrow> ('d, 'p) avalue list \<Rightarrow> ('p resource list \<times> ('d, 'p) avalue list) option" where
  "free_loop 0 i es = Some ([], es)"
| "free_loop (Suc n) i es = do {
     v \<leftarrow> peek es i 1;
     es1 \<leftarrow> poke es i [cleared_value];
     (rs, es2) \<leftarrow> free_loop n (Suc i) es1;
     Some (array_free_value (hd v) @ rs, es2)
   }"

section \<open>Arrays\<close>

definition array_init :: "('d, 'p) avalue cell_allocator \<Rightarrow> bool \<times> ('d, 'p) array_t" where
  "array_init m = (case malloc m INITIAL_CAPACITY of
     None \<Rightarrow> (False, \<lparr> elements = None, array_length = 0, capacity = 0 \<rparr>)
   | Some es \<Rightarrow> (True, \<lparr> elements = Some es, array_length = 0, capacity = INITIAL_CAPACITY \<rparr>))"

definition array_create :: "bool \<Rightarrow> ('d, 'p) avalue cell_allocator \<Rightarrow> ('d, 'p) array_t option" where
  "array_create ok m =
     (if \<not> ok then None else case array_init m of (r, a) \<Rightarrow> if \<not> r then None else Some a)"

definition array_clear :: "('d, 'p) array_t \<Rightarrow> ('p resource list \<times> ('d, 'p) array_t) option" where
  "array_clear a = (case elements a of
     None \<Rightarrow> if array_length a = 0 then Some ([], a) else None
   | Some es \<Rightarrow> do {
       (rs, es') \<leftarrow> free_loop (array_length a) 0 es;
       Some (rs, a\<lparr>elements := Some es', array_length := 0\<rparr>)
     })"

definition array_destroy :: "('d, 'p) array_t \<Rightarrow> ('p resource list \<times> ('d, 'p) array_t) option" where
  "array_destroy a = do {
     (rs, a') \<leftarrow> array_clear a;
     Some (rs, a'\<lparr>elements := None, array_length := 0, capacity := 0\<rparr>)
   }"

definition array_resize ::
    "('d, 'p) avalue cell_allocator \<Rightarrow> ('d, 'p) array_t \<Rightarrow> nat \<Rightarrow> bool \<times> ('d, 'p) array_t" where
  "array_resize m a new_capacity =
     (case realloc_cells m (case elements a of None \<Rightarrow> [] | Some es \<Rightarrow> es) new_capacity of
        None \<Rightarrow> (False, a)
      | Some data \<Rightarrow> (True, a\<lparr>elements := Some data, capacity := new_capacity\<rparr>))"

text \<open>The last part of \<open>array_insert\<close>: shift the tail and store.\<close>

definition array_place :: "('d, 'p) array_t \<Rightarrow> nat \<Rightarrow> ('d, 'p) avalue \<Rightarrow> ('d, 'p) array_t option" where
  "array_place a index v = do {
     es \<leftarrow> elements a;
     es1 \<leftarrow> (if index < array_length a then memmove es (index + 1) index (array_length a - index) else Some es);
     es2 \<leftarrow> poke es1 index [v];
     Some (a\<lparr>elements := Some es2, array_length := array_length a + 1\<rparr>)
   }"

definition array_insert ::
    "('d, 'p) avalue cell_allocator \<Rightarrow> ('d, 'p) array_t \<Rightarrow> nat \<Rightarrow> ('d, 'p) avalue \<Rightarrow>
     ('p resource list \<times> ('d, 'p) array_t) option" where
  "array_insert m a index v =
     (if elements a = None then Some (array_free_value v, a)
      else if array_length a < index then Some (array_free_value v, a)
      else if capacity a < index then Some (array_free_value v, a)
      else if capacity a \<le> array_length a then
        (case array_resize m a (szadd (capacity a) INITIAL_CAPACITY) of
           (False, a1) \<Rightarrow> Some (array_free_value v, a1)
         | (True, a1) \<Rightarrow> map_option (\<lambda>a2. ([], a2)) (array_place a1 index v))
      else map_option (\<lambda>a2. ([], a2)) (array_place a index v))"

definition array_push_front ::
    "('d, 'p) avalue cell_allocator \<Rightarrow> ('d, 'p) array_t \<Rightarrow> ('d, 'p) avalue \<Rightarrow>
     ('p resource list \<times> ('d, 'p) array_t) option" where
  "array_push_front m a v = array_insert m a 0 v"

definition array_push_back ::
    "('d, 'p) avalue cell_allocator \<Rightarrow> ('d, 'p) array_t \<Rightarrow> ('d, 'p) avalue \<Rightarrow>
     ('p resource list \<times> ('d, 'p) array_t) option" where
  "array_push_back m a v = array_insert m a (array_length a) v"

definition array_push_back_str ::
    "('d, 'p) avalue cell_allocator \<Rightarrow> allocator \<Rightarrow> ('d, 'p) array_t \<Rightarrow> cstr option \<Rightarrow>
     ('p resource list \<times> ('d, 'p) array_t) option" where
  "array_push_back_str m ms a v =
     (if v = None then Some ([], a) else do { x \<leftarrow> array_create_string ms v; array_push_back m a x })"

definition array_push_back_int ::
    "('d, 'p) avalue cell_allocator \<Rightarrow> ('d, 'p) array_t \<Rightarrow> int \<Rightarrow> ('p resource list \<times> ('d, 'p) array_t) option" where
  "array_push_back_int m a v = array_push_back m a (array_create_int v)"

definition array_push_back_double ::
    "('d, 'p) avalue cell_allocator \<Rightarrow> ('d, 'p) array_t \<Rightarrow> 'd \<Rightarrow> ('p resource list \<times> ('d, 'p) array_t) option" where
  "array_push_back_double m a v = array_push_back m a (array_create_double v)"

definition array_update ::
    "('d, 'p) array_t \<Rightarrow> nat \<Rightarrow> ('d, 'p) avalue \<Rightarrow> ('p resource list \<times> ('d, 'p) array_t) option" where
  "array_update a index v =
     (if array_length a \<le> index then Some ([], a)
      else do {
        es \<leftarrow> elements a;
        old \<leftarrow> peek es index 1;
        es1 \<leftarrow> poke es index [v];
        Some (array_free_value (hd old), a\<lparr>elements := Some es1\<rparr>)
      })"

definition array_delete ::
    "('d, 'p) avalue cell_allocator \<Rightarrow> ('d, 'p) array_t \<Rightarrow> nat \<Rightarrow> ('p resource list \<times> ('d, 'p) array_t) option" where
  "array_delete m a index =
     (if array_length a \<le> index then Some ([], a)
      else do {
        es \<leftarrow> elements a;
        old \<leftarrow> peek es index 1;
        es1 \<leftarrow> poke es index [cleared_value];
        es2 \<leftarrow> (if index < array_length a - 1
               then memmove es1 index (index + 1) (array_length a - index - 1) else Some es1);
        let a1 = a\<lparr>elements := Some es2, array_length := array_length a - 1\<rparr>;
        let a2 = (if array_length a1 \<le> szsub (capacity a1) INITIAL_CAPACITY \<and> INITIAL_CAPACITY < capacity a1
                  then snd (array_resize m a1 (szsub (capacity a1) INITIAL_CAPACITY)) else a1);
        Some (array_free_value (hd old), a2)
      })"

definition array_size :: "('d, 'p) array_t \<Rightarrow> nat" where
  "array_size a = array_length a"

text \<open>The element at an index: \<open>None\<close> is undefined behaviour, \<open>Some None\<close> out of bounds.\<close>

definition array_at :: "('d, 'p) array_t \<Rightarrow> nat \<Rightarrow> ('d, 'p) avalue option option" where
  "array_at a index =
     (if array_length a \<le> index then Some None
      else do { es \<leftarrow> elements a; v \<leftarrow> peek es index 1; Some (Some (hd v)) })"

definition array_get :: "('d, 'p) array_t \<Rightarrow> nat \<Rightarrow> ('d, 'p) avalue option option" where
  "array_get a index = array_at a index"

definition array_get_int :: "('d, 'p) array_t \<Rightarrow> nat \<Rightarrow> int option" where
  "array_get_int a index =
     map_option (\<lambda>v. case v of Some (ARRAY_INT i) \<Rightarrow> i | _ \<Rightarrow> 0) (array_at a index)"

definition array_get_double :: "'d \<Rightarrow> ('d, 'p) array_t \<Rightarrow> nat \<Rightarrow> 'd option" where
  "array_get_double zero a index =
     map_option (\<lambda>v. case v of Some (ARRAY_DOUBLE d) \<Rightarrow> d | _ \<Rightarrow> zero) (array_at a index)"

definition array_get_ldouble :: "'d \<Rightarrow> ('d, 'p) array_t \<Rightarrow> nat \<Rightarrow> 'd option" where
  "array_get_ldouble zero a index =
     map_option (\<lambda>v. case v of Some (ARRAY_LONGDOUBLE d) \<Rightarrow> d | _ \<Rightarrow> zero) (array_at a index)"

definition array_get_string :: "('d, 'p) array_t \<Rightarrow> nat \<Rightarrow> char list option option" where
  "array_get_string a index =
     map_option (\<lambda>v. case v of Some (ARRAY_STRING s _) \<Rightarrow> s | _ \<Rightarrow> None) (array_at a index)"

definition array_get_pointer :: "('d, 'p) array_t \<Rightarrow> nat \<Rightarrow> 'p option option" where
  "array_get_pointer a index =
     map_option (\<lambda>v. case v of Some (ARRAY_POINTER p _ _) \<Rightarrow> Some p | _ \<Rightarrow> None) (array_at a index)"

section \<open>Bulk construction and copying\<close>

text \<open>Pushing a list of values, each one built by \<open>mk\<close>; the released resources accumulate.\<close>

primrec push_all ::
    "('d, 'p) avalue cell_allocator \<Rightarrow> ('d, 'p) avalue list \<Rightarrow> 'p resource list \<times> ('d, 'p) array_t \<Rightarrow>
     ('p resource list \<times> ('d, 'p) array_t) option" where
  "push_all m [] st = Some st"
| "push_all m (v # vs) st = (case st of (rs, a) \<Rightarrow> do {
     (rs1, a1) \<leftarrow> array_push_back m a v;
     push_all m vs (rs @ rs1, a1)
   })"

definition array_create_from_ints ::
    "bool \<Rightarrow> ('d, 'p) avalue cell_allocator \<Rightarrow> int list \<Rightarrow> ('p resource list \<times> ('d, 'p) array_t) option option" where
  "array_create_from_ints ok m ints =
     (case array_create ok m of
        None \<Rightarrow> Some None
      | Some a \<Rightarrow> map_option Some (push_all m (map array_create_int ints) ([], a)))"

definition array_create_from_doubles ::
    "bool \<Rightarrow> ('d, 'p) avalue cell_allocator \<Rightarrow> 'd list \<Rightarrow> ('p resource list \<times> ('d, 'p) array_t) option option" where
  "array_create_from_doubles ok m doubles =
     (case array_create ok m of
        None \<Rightarrow> Some None
      | Some a \<Rightarrow> map_option Some (push_all m (map array_create_double doubles) ([], a)))"

primrec push_strings ::
    "('d, 'p) avalue cell_allocator \<Rightarrow> allocator \<Rightarrow> cstr option list \<Rightarrow> 'p resource list \<times> ('d, 'p) array_t \<Rightarrow>
     ('p resource list \<times> ('d, 'p) array_t) option" where
  "push_strings m ms [] st = Some st"
| "push_strings m ms (v # vs) st = (case st of (rs, a) \<Rightarrow> do {
     (rs1, a1) \<leftarrow> array_push_back_str m ms a v;
     push_strings m ms vs (rs @ rs1, a1)
   })"

definition array_create_from_strings ::
    "bool \<Rightarrow> ('d, 'p) avalue cell_allocator \<Rightarrow> allocator \<Rightarrow> cstr option list \<Rightarrow>
     ('p resource list \<times> ('d, 'p) array_t) option option" where
  "array_create_from_strings ok m ms strings =
     (case array_create ok m of
        None \<Rightarrow> Some None
      | Some a \<Rightarrow> map_option Some (push_strings m ms strings ([], a)))"

text \<open>The copy of one element: \<open>None\<close> is undefined behaviour, \<open>Some None\<close> the refusal of an
  owning pointer without a copy function.\<close>

definition copy_value :: "allocator \<Rightarrow> ('d, 'p) avalue \<Rightarrow> ('d, 'p) avalue option option" where
  "copy_value ms v = (case v of
     ARRAY_INT i \<Rightarrow> Some (Some (array_create_int i))
   | ARRAY_DOUBLE d \<Rightarrow> Some (Some (array_create_double d))
   | ARRAY_LONGDOUBLE d \<Rightarrow> Some (Some (array_create_ldouble d))
   | ARRAY_STRING (Some s) n \<Rightarrow> map_option Some (array_create_stringn ms s n)
   | ARRAY_STRING None n \<Rightarrow> (if n = 0 then map_option Some (array_create_stringn ms [nul] 0) else None)
   | ARRAY_POINTER p (Some f) own \<Rightarrow> Some (Some (array_create_pointer (f p) (Some f) own))
   | ARRAY_POINTER p None False \<Rightarrow> Some (Some (array_create_pointer p None False))
   | ARRAY_POINTER p None True \<Rightarrow> Some None)"

primrec copy_loop ::
    "('d, 'p) avalue cell_allocator \<Rightarrow> allocator \<Rightarrow> ('d, 'p) avalue list \<Rightarrow>
     'p resource list \<times> ('d, 'p) array_t \<Rightarrow> ('p resource list \<times> ('d, 'p) array_t option) option" where
  "copy_loop m ms [] st = Some (fst st, Some (snd st))"
| "copy_loop m ms (v # vs) st = (case st of (rs, a) \<Rightarrow> do {
     c \<leftarrow> copy_value ms v;
     (case c of
        None \<Rightarrow> do { (rs1, _) \<leftarrow> array_destroy a; Some (rs @ rs1, None) }
      | Some w \<Rightarrow> do { (rs1, a1) \<leftarrow> array_push_back m a w; copy_loop m ms vs (rs @ rs1, a1) })
   })"

text \<open>The released resources and the copy, or NULL.\<close>

definition array_copy ::
    "bool \<Rightarrow> ('d, 'p) avalue cell_allocator \<Rightarrow> allocator \<Rightarrow> ('d, 'p) array_t \<Rightarrow>
     ('p resource list \<times> ('d, 'p) array_t option) option" where
  "array_copy ok m ms a =
     (case array_create ok m of
        None \<Rightarrow> Some ([], None)
      | Some c \<Rightarrow> do {
          vs \<leftarrow> (case elements a of None \<Rightarrow> if array_length a = 0 then Some [] else None
                  | Some es \<Rightarrow> peek es 0 (array_length a));
          copy_loop m ms vs ([], c)
        })"

section \<open>Invariant and contents\<close>

definition array_ok :: "('d, 'p) array_t \<Rightarrow> bool" where
  "array_ok a \<longleftrightarrow> (case elements a of
     None \<Rightarrow> array_length a = 0 \<and> capacity a = 0
   | Some es \<Rightarrow> length es = capacity a \<and> array_length a \<le> capacity a \<and>
       INITIAL_CAPACITY \<le> capacity a \<and> INITIAL_CAPACITY dvd capacity a \<and> capacity a * avalue_bytes < 2 ^ 63)"

definition array_list :: "('d, 'p) array_t \<Rightarrow> ('d, 'p) avalue list" where
  "array_list a = (case elements a of None \<Rightarrow> [] | Some es \<Rightarrow> take (array_length a) es)"

text \<open>The resources owned by a list of values.\<close>

definition resources :: "('d, 'p) avalue list \<Rightarrow> 'p resource multiset" where
  "resources vs = mset (concat (map array_free_value vs))"

lemma resources_simps [simp]:
  "resources [] = {#}"
  "resources (v # vs) = mset (array_free_value v) + resources vs"
  "resources (us @ vs) = resources us + resources vs"
  by (simp_all add: resources_def)

lemma array_init_ok: "array_ok (snd (array_init m)) \<and> array_list (snd (array_init m)) = []"
  by (auto simp: array_init_def array_ok_def array_list_def INITIAL_CAPACITY_def avalue_bytes_def
      split: option.splits dest: malloc_length)

lemma array_size_list: "array_ok a \<Longrightarrow> array_size a = length (array_list a)"
  by (auto simp: array_size_def array_ok_def array_list_def split: option.splits)

text \<open>The view of an array with a block: the elements, then the free cells.\<close>

lemma array_view:
  assumes "array_ok a" and "elements a = Some es"
  obtains free where "es = array_list a @ free" and "length (array_list a) = array_length a"
    and "length (array_list a @ free) = capacity a"
proof -
  have "length es = capacity a" "array_length a \<le> length es"
    using assms by (simp_all add: array_ok_def)
  then show thesis
    using assms(2) by (intro that [of "drop (array_length a) es"]) (simp_all add: array_list_def)
qed

lemma array_resize_spec:
  assumes "array_ok a" and "elements a = Some es" and "array_length a \<le> n" and "INITIAL_CAPACITY \<le> n"
    and "INITIAL_CAPACITY dvd n" and "array_resize m a n = (r, a')"
  shows "array_ok a' \<and> array_list a' = array_list a \<and> array_length a' = array_length a \<and>
    (\<exists>es'. elements a' = Some es') \<and> (if r then capacity a' = n else a' = a)"
proof (cases "realloc_cells m es n")
  case None
  then show ?thesis
    using assms by (auto simp: array_resize_def)
next
  case (Some es')
  then have re: "realloc m es n = Some es'" and lim: "n * avalue_bytes < 2 ^ 63"
    by (auto simp: realloc_cells_def split: if_splits)
  have "array_length a \<le> length es"
    using assms(1,2) by (simp add: array_ok_def)
  then have "take (array_length a) es' = take (array_length a) es"
    using realloc_prefix [OF re] assms(3) by blast
  then show ?thesis
    using assms Some lim realloc_length [OF re]
    by (auto simp: array_resize_def array_ok_def array_list_def)
qed

section \<open>Specification of the operations\<close>

lemma array_place_spec:
  assumes "array_ok a" and "elements a = Some es" and "array_length a < capacity a" and "index \<le> array_length a"
  shows "returns (array_place a index v) (\<lambda>a'. array_ok a' \<and>
    array_list a' = take index (array_list a) @ v # drop index (array_list a))"
proof -
  obtain free where es: "es = array_list a @ free" and len: "length (array_list a) = array_length a"
    and cap: "length (array_list a @ free) = capacity a"
    using array_view [OF assms(1,2)] by metis
  then obtain x free' where free: "free = x # free'"
    using assms(3) by (cases free) auto
  obtain us vs where uv: "array_list a = us @ vs" "length us = index"
    using split_at [of index "array_list a"] assms(4) len by auto
  let ?a' = "a\<lparr>elements := Some (us @ v # vs @ free'), array_length := array_length a + 1\<rparr>"
  have "array_place a index v = Some ?a'"
  proof (cases "vs = []")
    case True
    then show ?thesis
      using assms(2) uv len by (simp add: array_place_def es free poke_def)
  next
    case False
    then obtain y vs' where vs: "vs = y # vs'"
      by (cases vs) auto
    have l: "array_length a = index + length vs"
      using len uv by simp
    then show ?thesis
      using assms(2) uv vs by (simp add: array_place_def es free memmove_def peek_def poke_def)
  qed
  moreover have "array_ok ?a'"
    using assms(1,2) cap uv free len by (simp add: array_ok_def)
  moreover have "array_length a = index + length vs"
    using len uv by simp
  then have "array_list ?a' = us @ v # vs"
    using uv(2) by (simp add: array_list_def Suc_diff_le)
  ultimately show ?thesis
    using uv by simp
qed

text \<open>An insertion either stores the value or releases it.\<close>

lemma array_insert_spec:
  assumes "array_ok a"
  shows "returns (array_insert m a index v) (\<lambda>(rs, a'). array_ok a' \<and>
    ((rs = array_free_value v \<and> array_list a' = array_list a) \<or>
     (rs = [] \<and> index \<le> length (array_list a) \<and>
      array_list a' = take index (array_list a) @ v # drop index (array_list a))))"
proof (cases "elements a")
  case None
  with assms show ?thesis
    by (simp add: array_insert_def)
next
  case (Some es)
  have sz: "length (array_list a) = array_length a" "array_length a \<le> capacity a"
    using assms Some by (simp_all add: array_ok_def array_list_def)
  show ?thesis
  proof (cases "index \<le> array_length a")
    case False
    with assms Some show ?thesis
      by (simp add: array_insert_def)
  next
    case index: True
    show ?thesis
    proof (cases "array_length a < capacity a")
      case True
      then show ?thesis
        using array_place_spec [OF assms Some True index, of v] index sz Some
        by (auto simp: array_insert_def elim!: returns_mono)
    next
      case False
      have grow: "szadd (capacity a) INITIAL_CAPACITY = capacity a + INITIAL_CAPACITY"
        using assms Some by (intro szadd_exact) (simp add: array_ok_def size_modulus_def INITIAL_CAPACITY_def avalue_bytes_def)
      obtain r a1 where re: "array_resize m a (capacity a + INITIAL_CAPACITY) = (r, a1)"
        by fastforce
      have a1: "array_ok a1 \<and> array_list a1 = array_list a \<and> array_length a1 = array_length a \<and>
          (\<exists>es'. elements a1 = Some es') \<and> (if r then capacity a1 = capacity a + INITIAL_CAPACITY else a1 = a)"
        using array_resize_spec [OF assms Some _ _ _ re] sz assms Some by (simp add: array_ok_def)
      show ?thesis
      proof (cases r)
        case True
        then have "array_length a1 < capacity a1"
          using a1 sz by (simp add: INITIAL_CAPACITY_def)
        then have "returns (array_place a1 index v) (\<lambda>a'. array_ok a' \<and>
            array_list a' = take index (array_list a) @ v # drop index (array_list a))"
          using a1 array_place_spec [of a1 _ index v] index by auto
        then show ?thesis
          using True False re grow index sz Some
          by (auto simp: array_insert_def elim!: returns_mono)
      next
        case r: False
        then show ?thesis
          using False re grow index sz Some a1 by (auto simp: array_insert_def)
      qed
    qed
  qed
qed

lemma array_update_spec:
  assumes "array_ok a"
  shows "returns (array_update a index v) (\<lambda>(rs, a'). array_ok a' \<and>
    (if index < length (array_list a)
     then rs = array_free_value (array_list a ! index) \<and> array_list a' = (array_list a)[index := v]
     else rs = [] \<and> a' = a))"
proof (cases "index < array_length a")
  case False
  then show ?thesis
    using assms array_size_list [OF assms] by (simp add: array_update_def array_size_def)
next
  case True
  then obtain es where es: "elements a = Some es"
    using assms by (cases "elements a") (auto simp: array_ok_def)
  have len: "length es = capacity a" "array_length a \<le> capacity a"
    using assms es by (simp_all add: array_ok_def)
  then obtain us x vs where uv: "es = us @ x # vs" "length us = index"
    using split_at_nth [of index es] True by auto
  have "array_update a index v = Some (array_free_value x, a\<lparr>elements := Some (us @ v # vs)\<rparr>)"
    using True es uv by (simp add: array_update_def peek_def poke_def)
  moreover have "array_list a = us @ x # take (array_length a - Suc index) vs"
    using True es uv by (simp add: array_list_def take_Cons')
  ultimately show ?thesis
    using assms True es uv len by (simp add: array_ok_def array_list_def take_Cons' nth_append list_update_append)
qed

lemma array_delete_spec:
  assumes "array_ok a"
  shows "returns (array_delete m a index) (\<lambda>(rs, a'). array_ok a' \<and>
    (if index < length (array_list a)
     then rs = array_free_value (array_list a ! index) \<and>
       array_list a' = take index (array_list a) @ drop (Suc index) (array_list a)
     else rs = [] \<and> a' = a))"
proof (cases "index < array_length a")
  case False
  then show ?thesis
    using assms array_size_list [OF assms] by (simp add: array_delete_def array_size_def)
next
  case True
  then obtain es where some: "elements a = Some es"
    using assms by (cases "elements a") (auto simp: array_ok_def)
  obtain free where es: "es = array_list a @ free" and len: "length (array_list a) = array_length a"
    and cap: "length (array_list a @ free) = capacity a"
    using array_view [OF assms some] by metis
  obtain us x vs where uv: "array_list a = us @ x # vs" "length us = index"
    using split_at_nth [of index "array_list a"] True len by auto
  have al: "array_length a = Suc (index + length vs)"
    using len uv by simp
  obtain junk where junk: "length junk = Suc (length free)"
    and mv: "(if index < array_length a - 1
        then memmove (us @ cleared_value # vs @ free) index (index + 1) (array_length a - index - 1)
        else Some (us @ cleared_value # vs @ free)) = Some (us @ vs @ junk)"
  proof (cases vs rule: rev_cases)
    case Nil
    show thesis
      by (rule that [of "cleared_value # free"]) (simp_all add: Nil al)
  next
    case (snoc ws w)
    have "drop (length ws) (ws @ w # free) = w # free"
      by simp
    then show thesis
      by (intro that [of "w # free"]) (simp_all add: snoc al uv(2) [symmetric] memmove_def peek_def poke_def)
  qed
  let ?a1 = "a\<lparr>elements := Some (us @ vs @ junk), array_length := array_length a - 1\<rparr>"
  have cap1: "Suc (length us + length vs + length free) = capacity a"
    using cap uv(1) by simp
  have "INITIAL_CAPACITY \<le> capacity a" "INITIAL_CAPACITY dvd capacity a" "capacity a * avalue_bytes < 2 ^ 63"
    using assms some by (simp_all add: array_ok_def)
  then have ok1: "array_ok ?a1"
    using cap1 junk al uv(2) by (simp add: array_ok_def)
  have l1: "array_list ?a1 = us @ vs"
    using al uv(2) by (simp add: array_list_def)
  have sub: "szsub (capacity a) INITIAL_CAPACITY = capacity a - INITIAL_CAPACITY"
    using assms some by (intro szsub_exact) (auto simp: array_ok_def size_modulus_def avalue_bytes_def)
  define a2 where "a2 = (if array_length ?a1 \<le> capacity a - INITIAL_CAPACITY \<and> INITIAL_CAPACITY < capacity a
      then snd (array_resize m ?a1 (capacity a - INITIAL_CAPACITY)) else ?a1)"
  have a2: "array_ok a2 \<and> array_list a2 = us @ vs"
  proof (cases "array_length ?a1 \<le> capacity a - INITIAL_CAPACITY \<and> INITIAL_CAPACITY < capacity a")
    case True
    obtain r a3 where re: "array_resize m ?a1 (capacity a - INITIAL_CAPACITY) = (r, a3)"
      by fastforce
    have "2 * INITIAL_CAPACITY \<le> capacity a"
      using True \<open>INITIAL_CAPACITY dvd capacity a\<close> by (auto simp: INITIAL_CAPACITY_def elim!: dvdE)
    then have "array_ok a3 \<and> array_list a3 = array_list ?a1"
      using array_resize_spec [OF ok1 _ _ _ _ re] True \<open>INITIAL_CAPACITY dvd capacity a\<close> by (simp add: dvd_diff_nat)
    then show ?thesis
      using True l1 re by (simp add: a2_def)
  next
    case False
    then show ?thesis
      using ok1 l1 by (auto simp: a2_def)
  qed
  have "array_delete m a index = Some (array_free_value x, a2)"
    using True some uv al mv
    by (simp add: array_delete_def es peek_def poke_def sub a2_def Let_def)
  then show ?thesis
    using a2 uv True len by (simp add: nth_append)
qed

lemma free_loop_spec:
  assumes "i + n \<le> length es"
  shows "returns (free_loop n i es) (\<lambda>(rs, es'). length es' = length es \<and>
    rs = concat (map array_free_value (take n (drop i es))))"
  using assms
proof (induction n arbitrary: i es)
  case (Suc n)
  then have "i < length es"
    by simp
  then obtain us x vs where es: "es = us @ x # vs" "length us = i"
    by (rule split_at_nth)
  have "returns (free_loop n (Suc i) (us @ cleared_value # vs)) (\<lambda>(rs, es'). length es' = length es \<and>
      rs = concat (map array_free_value (take n vs)))"
    using Suc.IH [of "Suc i" "us @ cleared_value # vs"] Suc.prems es by simp
  then show ?case
    using es by (auto simp: peek_def poke_def elim!: returns_mono)
qed simp

lemma array_clear_spec:
  assumes "array_ok a"
  shows "returns (array_clear a) (\<lambda>(rs, a'). array_ok a' \<and> array_list a' = [] \<and>
    rs = concat (map array_free_value (array_list a)))"
proof (cases "elements a")
  case None
  with assms show ?thesis
    by (simp add: array_clear_def array_ok_def array_list_def)
next
  case (Some es)
  then have "0 + array_length a \<le> length es"
    using assms by (simp add: array_ok_def)
  then show ?thesis
    using free_loop_spec [of 0 "array_length a" es] assms Some
    by (auto simp: array_clear_def array_ok_def array_list_def elim!: returns_mono)
qed

lemma array_at_spec:
  assumes "array_ok a"
  shows "array_at a index = Some (if index < length (array_list a) then Some (array_list a ! index) else None)"
proof (cases "index < array_length a")
  case False
  then show ?thesis
    using array_size_list [OF assms] by (simp add: array_at_def array_size_def)
next
  case True
  then obtain es where es: "elements a = Some es"
    using assms by (cases "elements a") (auto simp: array_ok_def)
  then obtain us x vs where "es = us @ x # vs" "length us = index"
    using split_at_nth [of index es] True assms by (auto simp: array_ok_def)
  then show ?thesis
    using True es assms by (simp add: array_at_def array_list_def array_ok_def peek_def nth_append)
qed

lemma array_getters:
  assumes "array_ok a" and "index < length (array_list a)"
  shows "array_list a ! index = ARRAY_INT i \<Longrightarrow> array_get_int a index = Some i"
    and "array_list a ! index = ARRAY_DOUBLE d \<Longrightarrow> array_get_double z a index = Some d"
    and "array_list a ! index = ARRAY_STRING s n \<Longrightarrow> array_get_string a index = Some s"
    and "array_list a ! index = ARRAY_POINTER p c f \<Longrightarrow> array_get_pointer a index = Some (Some p)"
  using array_at_spec [OF assms(1), of index] assms(2)
  by (simp_all add: array_get_int_def array_get_double_def array_get_string_def array_get_pointer_def)

section \<open>Sequences of operations\<close>

datatype ('d, 'p) array_op =
    Arr_insert nat "('d, 'p) avalue"
  | Arr_push_front "('d, 'p) avalue"
  | Arr_push_back "('d, 'p) avalue"
  | Arr_update nat "('d, 'p) avalue"
  | Arr_delete nat
  | Arr_clear

definition array_exec ::
    "('d, 'p) avalue cell_allocator \<Rightarrow> ('d, 'p) array_op \<Rightarrow> ('d, 'p) array_t \<Rightarrow>
     ('p resource list \<times> ('d, 'p) array_t) option" where
  "array_exec m op a = (case op of
     Arr_insert i v \<Rightarrow> array_insert m a i v
   | Arr_push_front v \<Rightarrow> array_push_front m a v
   | Arr_push_back v \<Rightarrow> array_push_back m a v
   | Arr_update i v \<Rightarrow> array_update a i v
   | Arr_delete i \<Rightarrow> array_delete m a i
   | Arr_clear \<Rightarrow> array_clear a)"

text \<open>The value handed to a call, and what an update out of bounds neither stores nor releases.\<close>

definition handed :: "('d, 'p) array_op \<Rightarrow> 'p resource list" where
  "handed op = (case op of
     Arr_insert i v \<Rightarrow> array_free_value v
   | Arr_push_front v \<Rightarrow> array_free_value v
   | Arr_push_back v \<Rightarrow> array_free_value v
   | Arr_update i v \<Rightarrow> array_free_value v
   | _ \<Rightarrow> [])"

definition leaked :: "('d, 'p) array_op \<Rightarrow> ('d, 'p) array_t \<Rightarrow> 'p resource list" where
  "leaked op a = (case op of
     Arr_update i v \<Rightarrow> if array_size a \<le> i then array_free_value v else []
   | _ \<Rightarrow> [])"

text \<open>A run with one allocator per call; the result is what was released, what leaked, and the array.\<close>

primrec array_run ::
    "(('d, 'p) avalue cell_allocator \<times> ('d, 'p) array_op) list \<Rightarrow> ('d, 'p) array_t \<Rightarrow>
     ('p resource list \<times> 'p resource list \<times> ('d, 'p) array_t) option" where
  "array_run [] a = Some ([], [], a)"
| "array_run (mop # mops) a = do {
     (rs, a1) \<leftarrow> array_exec (fst mop) (snd mop) a;
     (rs', ls, a2) \<leftarrow> array_run mops a1;
     Some (rs @ rs', leaked (snd mop) a @ ls, a2)
   }"

fun is_insertion :: "('d, 'p) array_op \<Rightarrow> bool" where
  "is_insertion (Arr_insert i v) = True"
| "is_insertion (Arr_push_front v) = True"
| "is_insertion (Arr_push_back v) = True"
| "is_insertion _ = False"

text \<open>What a list may become under the calls: an insertion inserts or is refused.\<close>

inductive array_trace :: "('d, 'p) array_op list \<Rightarrow> ('d, 'p) avalue list \<Rightarrow> ('d, 'p) avalue list \<Rightarrow> bool" where
  trace_done: "array_trace [] xs xs"
| trace_insert: "i \<le> length xs \<Longrightarrow> array_trace ops (take i xs @ v # drop i xs) ys \<Longrightarrow> array_trace (Arr_insert i v # ops) xs ys"
| trace_front: "array_trace ops (v # xs) ys \<Longrightarrow> array_trace (Arr_push_front v # ops) xs ys"
| trace_back: "array_trace ops (xs @ [v]) ys \<Longrightarrow> array_trace (Arr_push_back v # ops) xs ys"
| trace_refused: "is_insertion op \<Longrightarrow> array_trace ops xs ys \<Longrightarrow> array_trace (op # ops) xs ys"
| trace_update: "array_trace ops (xs[i := v]) ys \<Longrightarrow> array_trace (Arr_update i v # ops) xs ys"
| trace_delete: "array_trace ops (take i xs @ drop (Suc i) xs) ys \<Longrightarrow> array_trace (Arr_delete i # ops) xs ys"
| trace_clear: "array_trace ops [] ys \<Longrightarrow> array_trace (Arr_clear # ops) xs ys"

lemma resources_split:
  "i < length xs \<Longrightarrow> resources xs = resources (take i xs) + mset (array_free_value (xs ! i)) + resources (drop (Suc i) xs)"
  by (metis (no_types) add.assoc id_take_nth_drop resources_simps(2,3))

lemma resources_take_drop: "resources (take i xs) + resources (drop i xs) = resources xs"
  by (metis append_take_drop_id resources_simps(3))

lemma resources_update:
  assumes "i < length xs"
  shows "resources (xs[i := v]) + mset (array_free_value (xs ! i)) = resources xs + mset (array_free_value v)"
proof -
  obtain us x vs where "xs = us @ x # vs" "length us = i"
    using assms by (rule split_at_nth)
  then show ?thesis
    by (simp add: nth_append list_update_append)
qed

lemma trace_update_beyond:
  "\<not> i < length xs \<Longrightarrow> array_trace ops xs ys \<Longrightarrow> array_trace (Arr_update i v # ops) xs ys"
  using trace_update [of ops xs i v ys] by (simp add: list_update_beyond)

text \<open>One call: the array stays valid, its list follows the trace, and every resource is accounted for.\<close>

definition accounted ::
    "('d, 'p) array_op \<Rightarrow> ('d, 'p) array_t \<Rightarrow> 'p resource list \<Rightarrow> ('d, 'p) array_t \<Rightarrow> bool" where
  "accounted op a rs a' \<longleftrightarrow> array_ok a' \<and>
     (\<forall>ops ys. array_trace ops (array_list a') ys \<longrightarrow> array_trace (op # ops) (array_list a) ys) \<and>
     resources (array_list a') + mset rs + mset (leaked op a) = resources (array_list a) + mset (handed op)"

lemma insert_accounted:
  assumes "array_ok a" and "is_insertion op" and "handed op = array_free_value v" and "leaked op a = []"
    and "\<And>ops ys. index \<le> length (array_list a) \<Longrightarrow>
      array_trace ops (take index (array_list a) @ v # drop index (array_list a)) ys \<Longrightarrow>
      array_trace (op # ops) (array_list a) ys"
  shows "returns (array_insert m a index v) (\<lambda>(rs, a'). accounted op a rs a')"
  using array_insert_spec [OF assms(1), of m index v]
proof (rule returns_mono, clarify)
  fix rs a'
  assume "array_ok a'" and "rs = array_free_value v \<and> array_list a' = array_list a \<or>
    rs = [] \<and> index \<le> length (array_list a) \<and>
    array_list a' = take index (array_list a) @ v # drop index (array_list a)"
  then show "accounted op a rs a'"
    using assms resources_take_drop [of index "array_list a"]
    by (auto simp: accounted_def trace_refused algebra_simps)
qed

lemma array_exec_accounted:
  assumes "array_ok a"
  shows "returns (array_exec m op a) (\<lambda>(rs, a'). accounted op a rs a')"
proof (cases op)
  case (Arr_insert i v)
  then show ?thesis
    using insert_accounted [OF assms, of op v i m]
    by (simp add: array_exec_def handed_def leaked_def trace_insert)
next
  case (Arr_push_front v)
  then show ?thesis
    using insert_accounted [OF assms, of op v 0 m]
    by (simp add: array_exec_def array_push_front_def handed_def leaked_def trace_front)
next
  case (Arr_push_back v)
  have "array_length a = length (array_list a)"
    using array_size_list [OF assms] by (simp add: array_size_def)
  with Arr_push_back show ?thesis
    using insert_accounted [OF assms, of op v "array_length a" m]
    by (simp add: array_exec_def array_push_back_def handed_def leaked_def trace_back)
next
  case (Arr_update i v)
  show ?thesis
    using array_update_spec [OF assms, of i v] resources_update [of i "array_list a" v]
    by (auto simp: Arr_update array_exec_def accounted_def handed_def leaked_def array_size_list [OF assms]
        intro: trace_update trace_update_beyond elim!: returns_mono split: if_splits)
next
  case (Arr_delete i)
  show ?thesis
    using array_delete_spec [OF assms, of m i] resources_split [of i "array_list a"]
    by (auto simp: Arr_delete array_exec_def accounted_def handed_def leaked_def
        intro: trace_delete elim!: returns_mono split: if_splits)
next
  case Arr_clear
  show ?thesis
    using array_clear_spec [OF assms]
    by (auto simp: Arr_clear array_exec_def accounted_def handed_def leaked_def resources_def
        intro: trace_clear elim!: returns_mono)
qed

lemma balance:
  fixes a :: "'a multiset"
  assumes "a1 + r + l = a + h" and "a2 + r' + l' = a1 + h'"
  shows "a2 + (r + r') + (l + l') = a + (h + h')"
proof -
  have "a2 + (r + r') + (l + l') = (a2 + r' + l') + (r + l)"
    by (simp add: ac_simps)
  also have "\<dots> = (a1 + r + l) + h'"
    unfolding assms(2) by (simp add: ac_simps)
  also have "\<dots> = a + (h + h')"
    unfolding assms(1) by (simp add: ac_simps)
  finally show ?thesis .
qed

lemma array_run_spec:
  assumes "array_ok a"
  shows "returns (array_run mops a) (\<lambda>(rs, ls, a'). array_ok a' \<and>
    array_trace (map snd mops) (array_list a) (array_list a') \<and>
    resources (array_list a') + mset rs + mset ls =
      resources (array_list a) + mset (concat (map (\<lambda>mop. handed (snd mop)) mops)))"
  using assms
proof (induction mops arbitrary: a)
  case Nil
  then show ?case
    by (simp add: trace_done)
next
  case (Cons mop mops)
  obtain rs a1 where e: "array_exec (fst mop) (snd mop) a = Some (rs, a1)" and acc: "accounted (snd mop) a rs a1"
    using array_exec_accounted [OF Cons.prems, of "fst mop" "snd mop"] by (auto simp: returns_iff)
  then have ok: "array_ok a1"
    by (simp add: accounted_def)
  obtain rs' ls a2 where r: "array_run mops a1 = Some (rs', ls, a2)" and "array_ok a2"
    and tr: "array_trace (map snd mops) (array_list a1) (array_list a2)"
    and eq: "resources (array_list a2) + mset rs' + mset ls =
      resources (array_list a1) + mset (concat (map (\<lambda>mop. handed (snd mop)) mops))"
    using Cons.IH [OF ok] by (auto simp: returns_iff)
  have "array_trace (map snd (mop # mops)) (array_list a) (array_list a2)"
    using acc tr by (simp add: accounted_def)
  moreover have "resources (array_list a1) + mset rs + mset (leaked (snd mop) a) =
      resources (array_list a) + mset (handed (snd mop))"
    using acc by (simp add: accounted_def)
  then have "resources (array_list a2) + mset (rs @ rs') + mset (leaked (snd mop) a @ ls) =
      resources (array_list a) + mset (concat (map (\<lambda>mop. handed (snd mop)) (mop # mops)))"
    using balance [OF _ eq] by simp
  ultimately show ?case
    using e r \<open>array_ok a2\<close> by simp
qed

text \<open>An update out of bounds neither stores nor releases its value, whereas a refused insertion
  releases it.\<close>

lemma array_update_leaks:
  "array_size a \<le> index \<Longrightarrow> array_update a index v = Some ([], a)"
  "array_size a < index \<Longrightarrow> array_insert m a index v = Some (array_free_value v, a)"
  by (simp_all add: array_update_def array_insert_def array_size_def)

section \<open>Properties\<close>


end
