(* ===== verification/Str.thy ===== *)
theory Str
  imports Prelude Interfaces
begin

text \<open>
  The string object of \<open>misc/str.c\<close>: a string of fewer than \<open>STR_SSO_SIZE\<close> bytes lives in the
  array inside the object, a longer one in a heap block. Both are memory blocks; an access outside of
  them is \<open>None\<close>. A string argument of length \<open>size\<close> is a list of \<open>size\<close> bytes. The
  formatted variants, which call \<open>vsnprintf\<close>, append the formatted bytes with \<open>str_append\<close> and are
  not modelled; NULL receivers are not modelled, and \<open>str_move\<close> has two distinct operands.
\<close>

section \<open>Data\<close>

definition STR_SSO_SIZE :: nat where
  "STR_SSO_SIZE = 32"

record str_t =
  sso_buffer :: "char list"
  dynamic_buffer :: "char list option"
  str_length :: nat
  str_capacity :: nat
  is_dynamic :: bool
  init_capacity :: int

section \<open>Initialisation\<close>

text \<open>\<open>explicit_bzero\<close> of a whole block.\<close>

definition wiped :: "char list \<Rightarrow> char list" where
  "wiped blk = replicate (length blk) nul"

definition str_init :: "str_t \<Rightarrow> int \<Rightarrow> str_t option" where
  "str_init s cap = do {
     sso \<leftarrow> poke (sso_buffer s) 0 [nul];
     Some \<lparr> sso_buffer = sso, dynamic_buffer = None, str_length = 0, str_capacity = 0, is_dynamic = False,
            init_capacity = (if cap < 16384 then cap else 16384) \<rparr>
   }"

definition str_reset :: "str_t \<Rightarrow> str_t" where
  "str_reset s =
     (let s1 = (if is_dynamic s \<and> dynamic_buffer s \<noteq> None then s\<lparr>dynamic_buffer := None\<rparr> else s) in
      s1\<lparr>sso_buffer := wiped (sso_buffer s1), str_length := 0, str_capacity := 0, is_dynamic := False\<rparr>)"

text \<open>The object returned by \<open>malloc\<close> has arbitrary contents \<open>junk\<close>; \<open>None\<close> is undefined behaviour
  and \<open>Some None\<close> the NULL result.\<close>

definition str_create_empty :: "str_t option \<Rightarrow> int \<Rightarrow> str_t option option" where
  "str_create_empty junk cap =
     (case junk of
        None \<Rightarrow> Some None
      | Some data \<Rightarrow> do { s \<leftarrow> str_init data cap; Some (Some (str_reset s)) })"

definition str_clear :: "str_t \<Rightarrow> str_t option" where
  "str_clear s = str_init (s\<lparr>sso_buffer := wiped (sso_buffer s)\<rparr>) (init_capacity s)"

definition str_size :: "str_t \<Rightarrow> nat" where
  "str_size s = str_length s"

section \<open>Buffers\<close>

definition str_get_buffer :: "str_t \<Rightarrow> char list option" where
  "str_get_buffer s = (if is_dynamic s then dynamic_buffer s else Some (sso_buffer s))"

definition set_buffer :: "str_t \<Rightarrow> char list \<Rightarrow> str_t" where
  "set_buffer s b = (if is_dynamic s then s\<lparr>dynamic_buffer := Some b\<rparr> else s\<lparr>sso_buffer := b\<rparr>)"

definition str_get_capacity :: "str_t \<Rightarrow> nat" where
  "str_get_capacity s = (if is_dynamic s then str_capacity s else STR_SSO_SIZE)"

text \<open>Moving the contents of the internal array to a new block of the given size.\<close>

definition move_to_heap :: "str_t \<Rightarrow> char list \<Rightarrow> nat \<Rightarrow> str_t option" where
  "move_to_heap s data cap = do {
     old \<leftarrow> peek (sso_buffer s) 0 (str_length s);
     d1 \<leftarrow> poke data 0 old;
     d2 \<leftarrow> poke d1 (str_length s) [nul];
     Some (s\<lparr>dynamic_buffer := Some d2, str_capacity := cap, is_dynamic := True\<rparr>)
   }"

definition str_switch_to_dynamic :: "allocator \<Rightarrow> str_t \<Rightarrow> nat \<Rightarrow> (bool \<times> str_t) option" where
  "str_switch_to_dynamic m s required_size =
     (let target0 = (if 0 < init_capacity s then nat (init_capacity s) else 64);
          target_size = (if target0 < required_size then required_size else target0) in
      case malloc m target_size of
        None \<Rightarrow> Some (False, s)
      | Some new_buffer \<Rightarrow> map_option (\<lambda>s'. (True, s')) (move_to_heap s new_buffer target_size))"

definition MIN_STR_GROWTH :: nat where
  "MIN_STR_GROWTH = 32"

definition str_expand_buffer :: "allocator \<Rightarrow> str_t \<Rightarrow> nat \<Rightarrow> (bool \<times> str_t) option" where
  "str_expand_buffer m s extra_size =
     (let required_size = szadd (szadd (str_length s) extra_size) 1 in
      if \<not> is_dynamic s then str_switch_to_dynamic m s required_size
      else if (size_modulus - 1) div 2 < str_capacity s \<and> size_modulus - 1 - 1024 < required_size
      then Some (False, s)
      else
        (let t0 = (if (size_modulus - 1) div 2 < str_capacity s then required_size else szmul (str_capacity s) 2);
             t1 = (if t0 < szadd (str_capacity s) MIN_STR_GROWTH then szadd (str_capacity s) MIN_STR_GROWTH else t0);
             t2 = (if t1 < required_size then required_size else t1) in
         do {
           old \<leftarrow> dynamic_buffer s;
           (case realloc m old t2 of
              None \<Rightarrow> Some (False, s)
            | Some data \<Rightarrow> Some (True, s\<lparr>dynamic_buffer := Some data, str_capacity := t2\<rparr>))
         }))"

definition str_reserve :: "allocator \<Rightarrow> str_t \<Rightarrow> nat \<Rightarrow> (bool \<times> str_t) option" where
  "str_reserve m s cap =
     (if cap \<le> STR_SSO_SIZE then Some (True, s)
      else if is_dynamic s \<and> cap \<le> str_capacity s then Some (True, s)
      else if \<not> is_dynamic s then
        (case malloc m cap of
           None \<Rightarrow> Some (False, s)
         | Some data \<Rightarrow> do {
             s1 \<leftarrow> move_to_heap s data cap;
             Some (True, s1\<lparr>sso_buffer := wiped (sso_buffer s1)\<rparr>)
           })
      else do {
        old \<leftarrow> dynamic_buffer s;
        (case realloc m old cap of
           None \<Rightarrow> Some (False, s)
         | Some data \<Rightarrow> Some (True, s\<lparr>dynamic_buffer := Some data, str_capacity := cap\<rparr>))
      })"

section \<open>Insertion\<close>

text \<open>The common end of the insertions: shift the tail, copy, terminate.\<close>

definition str_place :: "str_t \<Rightarrow> char list \<Rightarrow> nat \<Rightarrow> str_t option" where
  "str_place s string pos = do {
     buffer \<leftarrow> str_get_buffer s;
     b1 \<leftarrow> memmove buffer (pos + length string) pos (str_length s - pos);
     b2 \<leftarrow> poke b1 pos string;
     b3 \<leftarrow> poke b2 (str_length s + length string) [nul];
     Some ((set_buffer s b3)\<lparr>str_length := str_length s + length string\<rparr>)
   }"

definition str_insertc :: "allocator \<Rightarrow> str_t \<Rightarrow> char \<Rightarrow> nat \<Rightarrow> (bool \<times> str_t) option" where
  "str_insertc m s ch pos =
     (if str_length s < pos then Some (False, s)
      else if \<not> is_dynamic s \<and> pos = str_length s \<and> str_length s < STR_SSO_SIZE - 1 then do {
        b1 \<leftarrow> poke (sso_buffer s) (str_length s) [ch];
        b2 \<leftarrow> poke b1 (str_length s + 1) [nul];
        Some (True, s\<lparr>sso_buffer := b2, str_length := str_length s + 1\<rparr>)
      }
      else if str_get_capacity s \<le> szadd (str_length s) 1 then do {
        (r, s1) \<leftarrow> str_expand_buffer m s 1;
        if \<not> r then Some (False, s1) else map_option (\<lambda>s2. (True, s2)) (str_place s1 [ch] pos)
      }
      else map_option (\<lambda>s2. (True, s2)) (str_place s [ch] pos))"

definition str_prependc :: "allocator \<Rightarrow> str_t \<Rightarrow> char \<Rightarrow> (bool \<times> str_t) option" where
  "str_prependc m s ch = str_insertc m s ch 0"

definition str_appendc :: "allocator \<Rightarrow> str_t \<Rightarrow> char \<Rightarrow> (bool \<times> str_t) option" where
  "str_appendc m s ch = str_insertc m s ch (str_length s)"

definition str_insert :: "allocator \<Rightarrow> str_t \<Rightarrow> char list option \<Rightarrow> nat \<Rightarrow> (bool \<times> str_t) option" where
  "str_insert m s string pos =
     (case string of
        None \<Rightarrow> Some (False, s)
      | Some str \<Rightarrow>
          if str_length s < pos then Some (False, s)
          else if \<not> is_dynamic s \<and> pos = str_length s \<and> szadd (str_length s) (length str) < STR_SSO_SIZE then do {
            b1 \<leftarrow> poke (sso_buffer s) (str_length s) str;
            b2 \<leftarrow> poke b1 (str_length s + length str) [nul];
            Some (True, s\<lparr>sso_buffer := b2, str_length := str_length s + length str\<rparr>)
          }
          else if str_get_capacity s \<le> szadd (szadd (str_length s) (length str)) 1 then do {
            (r, s1) \<leftarrow> str_expand_buffer m s (length str);
            if \<not> r then Some (False, s1) else map_option (\<lambda>s2. (True, s2)) (str_place s1 str pos)
          }
          else map_option (\<lambda>s2. (True, s2)) (str_place s str pos))"

definition str_prepend :: "allocator \<Rightarrow> str_t \<Rightarrow> char list option \<Rightarrow> (bool \<times> str_t) option" where
  "str_prepend m s string = str_insert m s string 0"

definition str_append :: "allocator \<Rightarrow> str_t \<Rightarrow> char list option \<Rightarrow> (bool \<times> str_t) option" where
  "str_append m s string = str_insert m s string (str_length s)"

definition str_assign :: "allocator \<Rightarrow> str_t \<Rightarrow> char list option \<Rightarrow> (bool \<times> str_t) option" where
  "str_assign m s string = str_insert m (s\<lparr>str_length := 0\<rparr>) string 0"

text \<open>The conversion of a \<open>size_t\<close> argument to \<open>int\<close>.\<close>

definition to_c_int :: "nat \<Rightarrow> int" where
  "to_c_int n = sint (of_nat n :: 32 word)"

definition str_createn :: "str_t option \<Rightarrow> allocator \<Rightarrow> char list option \<Rightarrow> nat \<Rightarrow> str_t option option" where
  "str_createn junk m string n = do {
     data \<leftarrow> str_create_empty junk (to_c_int n);
     (case data of
        None \<Rightarrow> Some None
      | Some s \<Rightarrow>
          if string = None then Some (Some s)
          else do { (r, s1) \<leftarrow> str_assign m s string; Some (if r then Some s1 else None) })
   }"

definition str_create :: "str_t option \<Rightarrow> allocator \<Rightarrow> cstr option \<Rightarrow> str_t option option" where
  "str_create junk m string =
     (case string of
        None \<Rightarrow> str_create_empty junk 0
      | Some c \<Rightarrow> str_createn junk m (Some (cstr_bytes c)) (length (cstr_bytes c)))"

section \<open>Moving, comparing, reading\<close>

text \<open>The results are the moved-from and the moved-to string.\<close>

definition str_move :: "str_t \<Rightarrow> str_t \<Rightarrow> (str_t \<times> str_t) option" where
  "str_move src dst = do {
     d \<leftarrow> (if is_dynamic src
          then Some (dst\<lparr>dynamic_buffer := dynamic_buffer src, str_capacity := str_capacity src, is_dynamic := True\<rparr>)
          else do {
            bytes \<leftarrow> peek (sso_buffer src) 0 (str_length src + 1);
            sso \<leftarrow> poke (sso_buffer dst) 0 bytes;
            Some (dst\<lparr>sso_buffer := sso, dynamic_buffer := None, str_capacity := 0, is_dynamic := False\<rparr>)
          });
     src' \<leftarrow> str_init src (init_capacity src);
     Some (src', d\<lparr>str_length := str_length src, init_capacity := init_capacity src\<rparr>)
   }"

text \<open>The block a reader of the C string sees; the empty string literal for an empty string.\<close>

definition str_get :: "str_t \<Rightarrow> char list option" where
  "str_get s = (if str_length s = 0 then Some [nul] else str_get_buffer s)"

text \<open>The C string in a block: \<open>None\<close> if the block has no terminator.\<close>

definition c_string :: "char list \<Rightarrow> char list option" where
  "c_string blk = (if nul \<in> set blk then Some (takeWhile (\<lambda>c. c \<noteq> nul) blk) else None)"

definition str_cmpc :: "str_t \<Rightarrow> char list option \<Rightarrow> int option" where
  "str_cmpc s dst =
     (case dst of
        None \<Rightarrow> Some 0
      | Some d \<Rightarrow> do { b \<leftarrow> str_get s; x \<leftarrow> c_string b; y \<leftarrow> c_string d; Some (strcmp x y) })"

definition str_cmp :: "str_t \<Rightarrow> str_t \<Rightarrow> int option" where
  "str_cmp src dst = do { d \<leftarrow> str_get dst; str_cmpc src (Some d) }"

definition str_pop :: "str_t \<Rightarrow> (bool \<times> str_t) option" where
  "str_pop s =
     (if str_length s = 0 then Some (False, s)
      else do {
        buffer \<leftarrow> str_get_buffer s;
        b \<leftarrow> poke buffer (str_length s - 1) [nul];
        Some (True, (set_buffer s b)\<lparr>str_length := str_length s - 1\<rparr>)
      })"

definition str_last :: "str_t \<Rightarrow> char option" where
  "str_last s =
     (if str_length s = 0 then Some nul
      else do { buffer \<leftarrow> str_get_buffer s; c \<leftarrow> peek buffer (str_length s - 1) 1; Some (hd c) })"

definition str_copy :: "allocator \<Rightarrow> str_t \<Rightarrow> char list option option" where
  "str_copy m s = do {
     string \<leftarrow> str_get s;
     (case malloc m (szadd (str_size s) 1) of
        None \<Rightarrow> Some None
      | Some data \<Rightarrow> do {
          bytes \<leftarrow> peek string 0 (str_size s);
          d1 \<leftarrow> poke data 0 bytes;
          d2 \<leftarrow> poke d1 (str_size s) [nul];
          Some (Some d2)
        })
   }"

section \<open>Invariant and contents\<close>

definition str_ok :: "str_t \<Rightarrow> bool" where
  "str_ok s \<longleftrightarrow> length (sso_buffer s) = STR_SSO_SIZE \<and> init_capacity s \<le> 16384 \<and>
     (if is_dynamic s
      then (case dynamic_buffer s of
              None \<Rightarrow> False
            | Some b \<Rightarrow> length b = str_capacity s \<and> str_capacity s < 2 ^ 63 \<and> str_length s < str_capacity s \<and>
                (str_length s \<noteq> 0 \<longrightarrow> b ! str_length s = nul))
      else str_length s < STR_SSO_SIZE \<and> (str_length s \<noteq> 0 \<longrightarrow> sso_buffer s ! str_length s = nul))"

definition str_content :: "str_t \<Rightarrow> char list" where
  "str_content s = take (str_length s) (if is_dynamic s then the (dynamic_buffer s) else sso_buffer s)"

text \<open>The current block, as the contents and a non-empty rest that starts with the terminator.\<close>

lemma str_view:
  assumes "str_ok s"
  obtains rest where "str_get_buffer s = Some (str_content s @ rest)" and "length (str_content s) = str_length s"
    and "rest \<noteq> []" and "length (str_content s @ rest) = str_get_capacity s" and "str_get_capacity s < 2 ^ 63"
    and "str_length s \<noteq> 0 \<Longrightarrow> hd rest = nul"
proof -
  obtain b where b: "str_get_buffer s = Some b" "length b = str_get_capacity s" "str_length s < length b"
    "str_length s \<noteq> 0 \<Longrightarrow> b ! str_length s = nul" "str_content s = take (str_length s) b"
    "str_get_capacity s < 2 ^ 63"
    using assms
    by (cases "dynamic_buffer s"; cases "is_dynamic s")
       (auto simp: str_ok_def str_get_buffer_def str_get_capacity_def str_content_def STR_SSO_SIZE_def)
  then show thesis
    by (intro that [of "drop (str_length s) b"]) (auto simp: hd_drop_conv_nth)
qed

text \<open>Storing a new block in place of the current one.\<close>

lemma str_set_buffer:
  assumes "str_ok s" and "length b = str_get_capacity s" and "n < length b" and "n \<noteq> 0 \<Longrightarrow> b ! n = nul"
  shows "str_ok ((set_buffer s b)\<lparr>str_length := n\<rparr>)"
    and "str_content ((set_buffer s b)\<lparr>str_length := n\<rparr>) = take n b"
  using assms
  by (auto simp: str_ok_def set_buffer_def str_get_capacity_def str_content_def split: option.splits)

lemma set_buffer_simps [simp]:
  "init_capacity (set_buffer s b) = init_capacity s" "is_dynamic (set_buffer s b) = is_dynamic s"
  by (simp_all add: set_buffer_def)

lemma str_place_spec:
  assumes "str_ok s" and "pos \<le> str_length s" and "str_length s + length string < str_get_capacity s"
  shows "returns (str_place s string pos) (\<lambda>s'. str_ok s' \<and>
    str_content s' = take pos (str_content s) @ string @ drop pos (str_content s))"
proof -
  obtain rest where buf: "str_get_buffer s = Some (str_content s @ rest)"
    and len: "length (str_content s) = str_length s" and cap: "length (str_content s @ rest) = str_get_capacity s"
    using str_view [OF assms(1)] by metis
  obtain us vs where uv: "str_content s = us @ vs" "length us = pos"
    using split_at [of pos "str_content s"] assms(2) len by metis
  define b where "b = us @ vs @ rest"
  have lb: "pos + length string + length vs < length b"
    using assms(3) cap uv by (simp add: b_def len [symmetric])
  obtain x zs where x: "take (pos + length string) b = us @ x" "length x = length string"
    and zs: "drop (pos + length string + length vs) b = zs" "zs \<noteq> []"
    using lb uv(2) by (simp add: b_def)
  have mm: "memmove b (pos + length string) pos (length vs) = Some (us @ x @ vs @ zs)"
    using lb x zs uv(2) by (simp add: memmove_in) (simp add: b_def)
  have p1: "poke (us @ x @ vs @ zs) pos string = Some (us @ string @ vs @ zs)"
    using poke_append [of string x us "vs @ zs"] x(2) uv(2) by simp
  have p2: "poke (us @ string @ vs @ zs) (str_length s + length string) [nul] = Some (us @ string @ vs @ nul # tl zs)"
    using poke_after_prefix [of "us @ string @ vs" "str_length s + length string" zs nul] zs(2) uv len by simp
  have vl: "str_length s - pos = length vs"
    using uv len by simp
  let ?b = "us @ string @ vs @ nul # tl zs"
  have lb': "length ?b = str_get_capacity s"
    using lb zs cap uv by (auto simp: b_def)
  have n: "str_length s + length string = length (us @ string @ vs)"
    using uv len by simp
  have "str_place s string pos = Some ((set_buffer s ?b)\<lparr>str_length := str_length s + length string\<rparr>)"
    using buf mm p1 p2 by (simp add: str_place_def vl uv(1) b_def)
  moreover have "?b ! (str_length s + length string) = nul"
    using n by (simp add: nth_append)
  moreover have "take (str_length s + length string) ?b = us @ string @ vs"
    using n by simp
  ultimately show ?thesis
    using str_set_buffer [OF assms(1) lb', of "str_length s + length string"] assms(3) lb' uv by simp
qed

section \<open>Growing\<close>

lemma str_content_length: "str_ok s \<Longrightarrow> length (str_content s) = str_length s"
  by (rule str_view)

lemma move_to_heap_spec:
  assumes "str_ok s" and "\<not> is_dynamic s" and "length data = cap" and "str_length s < cap" and "cap < 2 ^ 63"
  shows "returns (move_to_heap s data cap) (\<lambda>s'. str_ok s' \<and> str_content s' = str_content s \<and>
    str_length s' = str_length s \<and> str_get_capacity s' = cap)"
proof -
  obtain us x vs where d: "data = us @ x # vs" "length us = str_length s"
    using assms(3,4) split_at_nth [of "str_length s" data] by metis
  have old: "peek (sso_buffer s) 0 (str_length s) = Some (str_content s)"
    using assms(1,2) by (simp add: peek_def str_ok_def str_content_def)
  have len: "length (str_content s) = str_length s"
    using assms(1) by (rule str_content_length)
  have "poke data 0 (str_content s) = Some (str_content s @ x # vs)"
    using poke_append [of "str_content s" us "[]" "x # vs"] d len by simp
  moreover have "poke (str_content s @ x # vs) (str_length s) [nul] = Some (str_content s @ nul # vs)"
    using len by (rule poke_one)
  ultimately show ?thesis
    using old assms len d
    by (auto simp: move_to_heap_def str_ok_def str_content_def str_get_capacity_def nth_append)
qed

lemma heap_grow:
  assumes "str_ok s" and "is_dynamic s" and "dynamic_buffer s = Some old" and "realloc m old n = Some data"
    and "str_capacity s \<le> n" and "object_bounded m"
  shows "str_ok (s\<lparr>dynamic_buffer := Some data, str_capacity := n\<rparr>)"
    and "str_content (s\<lparr>dynamic_buffer := Some data, str_capacity := n\<rparr>) = str_content s"
proof -
  have old: "length old = str_capacity s" "str_length s < str_capacity s"
    "str_length s \<noteq> 0 \<longrightarrow> old ! str_length s = nul"
    using assms(1-3) by (auto simp: str_ok_def)
  have data: "length data = n" "n < 2 ^ 63" "take (Suc (str_length s)) data = take (Suc (str_length s)) old"
    using realloc_length [OF assms(4)] realloc_bounded [OF assms(6,4)] realloc_prefix [OF assms(4)] old assms(5)
    by auto
  have "data ! str_length s = old ! str_length s"
    using arg_cong [OF data(3), of "\<lambda>xs. xs ! str_length s"] by simp
  moreover have "take (str_length s) data = take (str_length s) old"
    using arg_cong [OF data(3), of "take (str_length s)"] by simp
  ultimately show "str_ok (s\<lparr>dynamic_buffer := Some data, str_capacity := n\<rparr>)"
    and "str_content (s\<lparr>dynamic_buffer := Some data, str_capacity := n\<rparr>) = str_content s"
    using assms old data by (auto simp: str_ok_def str_content_def)
qed

lemma str_expand_buffer_spec:
  assumes "str_ok s" and "object_bounded m" and "extra < 2 ^ 63"
  shows "returns (str_expand_buffer m s extra) (\<lambda>(r, s'). str_ok s' \<and> str_content s' = str_content s \<and>
    str_length s' = str_length s \<and> (r \<longrightarrow> str_length s + extra < str_get_capacity s'))"
proof -
  have cap: "str_length s < str_get_capacity s" "str_get_capacity s < 2 ^ 63"
    using str_view [OF assms(1)] by (metis add_diff_cancel_left' length_append length_greater_0_conv less_add_same_cancel1)+
  then have req: "szadd (szadd (str_length s) extra) 1 = str_length s + extra + 1"
    using assms(3) by (simp add: szadd_exact size_modulus_def)
  show ?thesis
  proof (cases "is_dynamic s")
    case False
    define target0 where "target0 = (if 0 < init_capacity s then nat (init_capacity s) else 64)"
    define target where "target = (if target0 < str_length s + extra + 1 then str_length s + extra + 1 else target0)"
    have big: "str_length s + extra < target"
      by (simp add: target_def)
    have e: "str_expand_buffer m s extra = (case malloc m target of None \<Rightarrow> Some (False, s)
        | Some data \<Rightarrow> map_option (\<lambda>s'. (True, s')) (move_to_heap s data target))"
      using False unfolding str_expand_buffer_def str_switch_to_dynamic_def Let_def req
      by (simp only: target0_def [symmetric] target_def [symmetric]) simp
    show ?thesis
    proof (cases "malloc m target")
      case None
      with assms(1) show ?thesis
        by (simp add: e)
    next
      case (Some data)
      have "returns (move_to_heap s data target) (\<lambda>s'. str_ok s' \<and> str_content s' = str_content s \<and>
          str_length s' = str_length s \<and> str_get_capacity s' = target)"
        using assms(1) False malloc_length [OF Some] big malloc_bounded [OF assms(2) Some]
        by (intro move_to_heap_spec) auto
      with big Some show ?thesis
        by (auto simp: e elim!: returns_mono)
    qed
  next
    case True
    then obtain old where old: "dynamic_buffer s = Some old"
      using assms(1) by (auto simp: str_ok_def split: option.splits)
    have c: "str_capacity s < 2 ^ 63"
      using cap True by (simp add: str_get_capacity_def)
    have small: "\<not> (size_modulus - 1) div 2 < str_capacity s" and dbl: "szmul (str_capacity s) 2 = str_capacity s * 2"
      and plus: "szadd (str_capacity s) MIN_STR_GROWTH = str_capacity s + MIN_STR_GROWTH"
      using c by (simp_all add: size_modulus_def szmul_exact szadd_exact MIN_STR_GROWTH_def)
    define t1 where "t1 = (if str_capacity s * 2 < str_capacity s + MIN_STR_GROWTH
      then str_capacity s + MIN_STR_GROWTH else str_capacity s * 2)"
    define t2 where "t2 = (if t1 < str_length s + extra + 1 then str_length s + extra + 1 else t1)"
    have "str_capacity s \<le> t2" and big: "str_length s + extra < t2"
      by (auto simp: t1_def t2_def)
    have e: "str_expand_buffer m s extra = (case realloc m old t2 of None \<Rightarrow> Some (False, s)
        | Some data \<Rightarrow> Some (True, s\<lparr>dynamic_buffer := Some data, str_capacity := t2\<rparr>))"
      using True small unfolding str_expand_buffer_def Let_def req dbl plus
      by (simp only: if_False if_True simp_thms t1_def [symmetric] t2_def [symmetric] old) simp
    show ?thesis
    proof (cases "realloc m old t2")
      case None
      with e assms(1) show ?thesis
        by simp
    next
      case (Some data)
      with e show ?thesis
        using heap_grow [OF assms(1) True old Some \<open>str_capacity s \<le> t2\<close> assms(2)] True big
        by (simp add: str_get_capacity_def)
    qed
  qed
qed

section \<open>Specification of the operations\<close>

text \<open>The fast path: appending inside the internal array.\<close>

lemma sso_append:
  assumes "str_ok s" and "\<not> is_dynamic s" and "str_length s + length string < STR_SSO_SIZE"
  obtains b1 b2 where "poke (sso_buffer s) (str_length s) string = Some b1"
    and "poke b1 (str_length s + length string) [nul] = Some b2"
    and "str_ok (s\<lparr>sso_buffer := b2, str_length := str_length s + length string\<rparr>)"
    and "str_content (s\<lparr>sso_buffer := b2, str_length := str_length s + length string\<rparr>) = str_content s @ string"
proof -
  have len: "length (sso_buffer s) = STR_SSO_SIZE"
    using assms(1) by (simp add: str_ok_def)
  have "str_length s + length string \<le> length (sso_buffer s)"
    using assms(3) len by simp
  then obtain us vs where uv: "sso_buffer s = us @ vs" "length us = str_length s + length string"
    by (rule split_at)
  obtain xs ys where xy: "us = xs @ ys" "length xs = str_length s"
    using split_at [of "str_length s" us] uv(2) by auto
  obtain v vs' where vs: "vs = v # vs'"
    using uv assms(3) len by (cases vs) auto
  have "poke (sso_buffer s) (str_length s) string = Some (xs @ string @ v # vs')"
    using poke_append [of string ys xs vs] uv xy vs by simp
  moreover have "poke (xs @ string @ v # vs') (str_length s + length string) [nul] = Some (xs @ string @ nul # vs')"
    using poke_one [of "xs @ string" "str_length s + length string" v vs' nul] xy by simp
  moreover have "str_content s = xs"
    using assms(2) uv xy by (simp add: str_content_def)
  ultimately show thesis
    using assms uv xy vs len
    by (intro that) (auto simp: str_ok_def str_content_def nth_append)
qed

definition inserted :: "str_t \<Rightarrow> char list \<Rightarrow> nat \<Rightarrow> bool \<Rightarrow> str_t \<Rightarrow> bool" where
  "inserted s string pos r s' \<longleftrightarrow> str_ok s' \<and>
     (if r then pos \<le> length (str_content s) \<and>
        str_content s' = take pos (str_content s) @ string @ drop pos (str_content s)
      else str_content s' = str_content s)"

lemma str_length_lt_capacity: "str_ok s \<Longrightarrow> str_length s < str_get_capacity s \<and> str_get_capacity s < 2 ^ 63"
  by (auto simp: str_ok_def str_get_capacity_def STR_SSO_SIZE_def split: option.splits if_splits)

text \<open>Growing when the test demands it, then placing.\<close>

lemma grow_and_place:
  assumes "str_ok s" and "object_bounded m" and "length string < 2 ^ 63" and "pos \<le> str_length s"
    and "str_get_capacity s \<le> str_length s + length string + 1 \<or> \<not> need"
    and "\<not> need \<longrightarrow> str_length s + length string < str_get_capacity s"
  shows "returns (if need then do {
        (r, s1) \<leftarrow> str_expand_buffer m s (length string);
        if \<not> r then Some (False, s1) else map_option (\<lambda>s2. (True, s2)) (str_place s1 string pos)
      } else map_option (\<lambda>s2. (True, s2)) (str_place s string pos))
    (\<lambda>(r, s'). inserted s string pos r s')"
proof (cases need)
  case False
  then show ?thesis
    using str_place_spec [OF assms(1,4), of string] assms(4,6) str_content_length [OF assms(1)]
    by (auto simp: inserted_def elim!: returns_mono)
next
  case True
  obtain r s1 where e: "str_expand_buffer m s (length string) = Some (r, s1)" and ok: "str_ok s1"
    and ct: "str_content s1 = str_content s" and len: "str_length s1 = str_length s"
    and cap: "r \<longrightarrow> str_length s + length string < str_get_capacity s1"
    using str_expand_buffer_spec [OF assms(1-3)] by (auto simp: returns_iff)
  show ?thesis
  proof (cases r)
    case False
    with True e ok ct show ?thesis
      by (simp add: inserted_def)
  next
    case r: True
    then have "returns (str_place s1 string pos) (\<lambda>s'. str_ok s' \<and>
        str_content s' = take pos (str_content s1) @ string @ drop pos (str_content s1))"
      using str_place_spec [OF ok, of pos string] assms(4) len cap by simp
    with True r e ct assms(4) show ?thesis
      using str_content_length [OF assms(1)] by (auto simp: inserted_def elim!: returns_mono)
  qed
qed

lemma str_insert_spec:
  assumes "str_ok s" and "object_bounded m" and "length string < 2 ^ 63"
  shows "returns (str_insert m s (Some string) pos) (\<lambda>(r, s'). inserted s string pos r s' \<and>
    (r \<longrightarrow> pos \<le> str_length s))"
proof (cases "pos \<le> str_length s")
  case False
  with assms(1) show ?thesis
    by (simp add: str_insert_def inserted_def)
next
  case True
  have c: "str_length s < str_get_capacity s" "str_get_capacity s < 2 ^ 63"
    using str_length_lt_capacity [OF assms(1)] by simp_all
  then have add: "szadd (str_length s) (length string) = str_length s + length string"
    "szadd (str_length s + length string) 1 = str_length s + length string + 1"
    using assms(3) by (simp_all add: szadd_exact size_modulus_def)
  show ?thesis
  proof (cases "\<not> is_dynamic s \<and> pos = str_length s \<and> str_length s + length string < STR_SSO_SIZE")
    case fast: True
    then obtain b1 b2 where "poke (sso_buffer s) (str_length s) string = Some b1"
      and "poke b1 (str_length s + length string) [nul] = Some b2"
      and "str_ok (s\<lparr>sso_buffer := b2, str_length := str_length s + length string\<rparr>)"
      and "str_content (s\<lparr>sso_buffer := b2, str_length := str_length s + length string\<rparr>) = str_content s @ string"
      using sso_append [OF assms(1), of string] by metis
    then show ?thesis
      using fast str_content_length [OF assms(1)] by (simp add: str_insert_def add inserted_def)
  next
    case False
    have "str_insert m s (Some string) pos =
        (if str_get_capacity s \<le> str_length s + length string + 1 then do {
          (r, s1) \<leftarrow> str_expand_buffer m s (length string);
          if \<not> r then Some (False, s1) else map_option (\<lambda>s2. (True, s2)) (str_place s1 string pos)
        } else map_option (\<lambda>s2. (True, s2)) (str_place s string pos))"
      using True False unfolding str_insert_def add option.case by (auto simp: add)
    then show ?thesis
      using grow_and_place [OF assms True, of "str_get_capacity s \<le> str_length s + length string + 1"] True
      by (auto elim!: returns_mono)
  qed
qed

lemma str_insertc_spec:
  assumes "str_ok s" and "object_bounded m"
  shows "returns (str_insertc m s ch pos) (\<lambda>(r, s'). inserted s [ch] pos r s' \<and> (r \<longrightarrow> pos \<le> str_length s))"
proof (cases "pos \<le> str_length s")
  case False
  with assms(1) show ?thesis
    by (simp add: str_insertc_def inserted_def)
next
  case True
  have c: "str_length s < str_get_capacity s" "str_get_capacity s < 2 ^ 63"
    using str_length_lt_capacity [OF assms(1)] by simp_all
  then have add: "szadd (str_length s) 1 = str_length s + 1"
    by (simp add: szadd_exact size_modulus_def)
  show ?thesis
  proof (cases "\<not> is_dynamic s \<and> pos = str_length s \<and> str_length s < STR_SSO_SIZE - 1")
    case fast: True
    then have "str_length s + length [ch] < STR_SSO_SIZE"
      by (simp add: STR_SSO_SIZE_def)
    then obtain b1 b2 where "poke (sso_buffer s) (str_length s) [ch] = Some b1"
      and "poke b1 (str_length s + length [ch]) [nul] = Some b2"
      and "str_ok (s\<lparr>sso_buffer := b2, str_length := str_length s + length [ch]\<rparr>)"
      and "str_content (s\<lparr>sso_buffer := b2, str_length := str_length s + length [ch]\<rparr>) = str_content s @ [ch]"
      using sso_append [OF assms(1), of "[ch]"] fast by metis
    then show ?thesis
      using fast str_content_length [OF assms(1)] by (simp add: str_insertc_def inserted_def)
  next
    case False
    have "str_insertc m s ch pos =
        (if str_get_capacity s \<le> str_length s + length [ch] then do {
          (r, s1) \<leftarrow> str_expand_buffer m s (length [ch]);
          if \<not> r then Some (False, s1) else map_option (\<lambda>s2. (True, s2)) (str_place s1 [ch] pos)
        } else map_option (\<lambda>s2. (True, s2)) (str_place s [ch] pos))"
      using True False unfolding str_insertc_def add by auto
    then show ?thesis
      using grow_and_place [OF assms, of "[ch]" pos "str_get_capacity s \<le> str_length s + length [ch]"] True
      by (auto elim!: returns_mono)
  qed
qed

lemma str_assign_spec:
  assumes "str_ok s" and "object_bounded m" and "length string < 2 ^ 63"
  shows "returns (str_assign m s (Some string)) (\<lambda>(r, s'). str_ok s' \<and>
    str_content s' = (if r then string else []))"
proof -
  have "str_ok (s\<lparr>str_length := 0\<rparr>)" "str_content (s\<lparr>str_length := 0\<rparr>) = []"
    using assms(1) by (auto simp: str_ok_def str_content_def STR_SSO_SIZE_def split: option.splits)
  then show ?thesis
    using str_insert_spec [OF _ assms(2,3), of "s\<lparr>str_length := 0\<rparr>" 0]
    by (auto simp: str_assign_def inserted_def elim!: returns_mono)
qed

lemma str_reset_spec: "str_ok s \<Longrightarrow> str_ok (str_reset s) \<and> str_content (str_reset s) = []"
  by (simp add: str_reset_def str_ok_def str_content_def wiped_def Let_def STR_SSO_SIZE_def)

lemma str_init_spec:
  assumes "length (sso_buffer s) = STR_SSO_SIZE"
  shows "returns (str_init s cap) (\<lambda>s'. str_ok s' \<and> str_content s' = [])"
  using assms by (simp add: str_init_def poke_def str_ok_def str_content_def STR_SSO_SIZE_def)

lemma str_clear_spec:
  assumes "str_ok s"
  shows "returns (str_clear s) (\<lambda>s'. str_ok s' \<and> str_content s' = [])"
  unfolding str_clear_def using assms by (intro str_init_spec) (simp add: str_ok_def wiped_def)

lemma str_reserve_spec:
  assumes "str_ok s" and "object_bounded m"
  shows "returns (str_reserve m s cap) (\<lambda>(r, s'). str_ok s' \<and> str_content s' = str_content s)"
proof (cases "cap \<le> STR_SSO_SIZE \<or> is_dynamic s \<and> cap \<le> str_capacity s")
  case True
  with assms(1) show ?thesis
    by (auto simp: str_reserve_def)
next
  case big: False
  show ?thesis
  proof (cases "is_dynamic s")
    case True
    then obtain old where old: "dynamic_buffer s = Some old"
      using assms(1) by (auto simp: str_ok_def split: option.splits)
    show ?thesis
    proof (cases "realloc m old cap")
      case None
      with True big old assms(1) show ?thesis
        by (simp add: str_reserve_def)
    next
      case (Some data)
      have "str_capacity s \<le> cap"
        using True big by simp
      then show ?thesis
        using heap_grow [OF assms(1) True old Some _ assms(2)] True big old Some
        by (simp add: str_reserve_def)
    qed
  next
    case False
    show ?thesis
    proof (cases "malloc m cap")
      case None
      with False big assms(1) show ?thesis
        by (simp add: str_reserve_def)
    next
      case (Some data)
      have "str_length s < cap"
        using assms(1) False big by (simp add: str_ok_def)
      then have "returns (move_to_heap s data cap) (\<lambda>s'. str_ok s' \<and> str_content s' = str_content s \<and>
          str_length s' = str_length s \<and> str_get_capacity s' = cap)"
        using assms(1) False malloc_length [OF Some] malloc_bounded [OF assms(2) Some]
        by (intro move_to_heap_spec) auto
      then obtain s1 where s1: "move_to_heap s data cap = Some s1" "str_ok s1" "str_content s1 = str_content s"
        by (auto simp: returns_iff)
      moreover have "is_dynamic s1"
        using s1(1) by (auto simp: move_to_heap_def bind_eq_Some_conv)
      ultimately show ?thesis
        using False big Some
        by (cases "dynamic_buffer s1") (auto simp: str_reserve_def str_ok_def str_content_def wiped_def)
    qed
  qed
qed

lemma str_pop_spec:
  assumes "str_ok s"
  shows "returns (str_pop s) (\<lambda>(r, s'). str_ok s' \<and> r = (str_content s \<noteq> []) \<and> str_content s' = butlast (str_content s))"
proof (cases "str_length s = 0")
  case True
  with assms show ?thesis
    using str_content_length [OF assms] by (simp add: str_pop_def)
next
  case False
  obtain rest where buf: "str_get_buffer s = Some (str_content s @ rest)"
    and len: "length (str_content s) = str_length s" and cap: "length (str_content s @ rest) = str_get_capacity s"
    using str_view [OF assms] by metis
  have ne: "str_content s \<noteq> []"
    using False len by auto
  then obtain xs x where c: "str_content s = xs @ [x]"
    by (metis append_butlast_last_id)
  have lx: "length xs = str_length s - 1"
    using c len by simp
  let ?b = "xs @ nul # rest"
  have "str_pop s = Some (True, (set_buffer s ?b)\<lparr>str_length := str_length s - 1\<rparr>)"
    using False buf c poke_one [OF lx, of x rest nul] by (simp add: str_pop_def)
  then show ?thesis
    using str_set_buffer [OF assms, of ?b "str_length s - 1"] cap c lx len ne
    by (simp add: nth_append)
qed

lemma str_last_spec:
  assumes "str_ok s"
  shows "str_last s = Some (if str_content s = [] then nul else last (str_content s))"
proof (cases "str_length s = 0")
  case True
  then show ?thesis
    using str_content_length [OF assms] by (simp add: str_last_def)
next
  case False
  obtain rest where buf: "str_get_buffer s = Some (str_content s @ rest)"
    and len: "length (str_content s) = str_length s"
    using str_view [OF assms] by metis
  have "str_content s \<noteq> []"
    using False len by auto
  then obtain xs x where c: "str_content s = xs @ [x]"
    by (metis append_butlast_last_id)
  then have lx: "str_length s = Suc (length xs)"
    using len by simp
  show ?thesis
    by (simp add: str_last_def buf c lx peek_def)
qed

text \<open>The C string a reader sees is the contents, if they hold no NUL byte.\<close>

lemma str_get_c_string:
  assumes "str_ok s" and "nul \<notin> set (str_content s)"
  shows "returns (str_get s) (\<lambda>b. c_string b = Some (str_content s))"
proof (cases "str_length s = 0")
  case True
  then show ?thesis
    using str_content_length [OF assms(1)] by (simp add: str_get_def c_string_def)
next
  case False
  obtain rest where buf: "str_get_buffer s = Some (str_content s @ rest)" and "rest \<noteq> []"
    and "str_length s \<noteq> 0 \<Longrightarrow> hd rest = nul"
    using str_view [OF assms(1)] by metis
  then obtain rest' where r: "rest = nul # rest'"
    using False by (cases rest) auto
  have "takeWhile (\<lambda>c. c \<noteq> nul) (str_content s @ nul # rest') = str_content s"
    using assms(2) by (subst takeWhile_append2) auto
  then show ?thesis
    using False buf r by (simp add: str_get_def c_string_def)
qed

lemma str_copy_spec:
  assumes "str_ok s" and "malloc m (szadd (str_size s) 1) = Some data"
  shows "str_copy m s = Some (Some (str_content s @ [nul]))"
proof -
  have c: "str_length s < str_get_capacity s" "str_get_capacity s < 2 ^ 63"
    using str_length_lt_capacity [OF assms(1)] by simp_all
  then have len: "length data = str_length s + 1"
    using malloc_length [OF assms(2)] by (simp add: szadd_exact size_modulus_def str_size_def)
  obtain rest where buf: "str_get_buffer s = Some (str_content s @ rest)"
    and l: "length (str_content s) = str_length s"
    using str_view [OF assms(1)] by metis
  have get: "returns (str_get s) (\<lambda>b. peek b 0 (str_length s) = Some (str_content s))"
    using buf l by (auto simp: str_get_def peek_def)
  obtain ds d where d: "data = ds @ [d]" "length ds = str_length s"
    using len by (cases data rule: rev_cases) auto
  have "poke data 0 (str_content s) = Some (str_content s @ [d])"
    using poke_append [of "str_content s" ds "[]" "[d]"] d l by simp
  moreover have "poke (str_content s @ [d]) (str_length s) [nul] = Some (str_content s @ [nul])"
    using l by (simp add: poke_one)
  ultimately show ?thesis
    using get assms(2) by (auto simp: str_copy_def str_size_def returns_iff)
qed

lemma adopt_buffer:
  assumes "str_ok src" and "is_dynamic src" and "str_ok dst"
  defines "d \<equiv> dst\<lparr>dynamic_buffer := dynamic_buffer src, str_capacity := str_capacity src, is_dynamic := True,
    str_length := str_length src, init_capacity := init_capacity src\<rparr>"
  shows "str_ok d" and "str_content d = str_content src"
  using assms(1-3) unfolding d_def
  by (cases "dynamic_buffer src"; simp add: str_ok_def str_content_def)+

lemma str_move_spec:
  assumes "str_ok src" and "str_ok dst"
  shows "returns (str_move src dst) (\<lambda>(src', dst'). str_ok src' \<and> str_ok dst' \<and>
    str_content src' = [] \<and> str_content dst' = str_content src)"
proof (cases "is_dynamic src")
  case True
  have "returns (str_init src (init_capacity src)) (\<lambda>s'. str_ok s' \<and> str_content s' = [])"
    using assms(1) by (intro str_init_spec) (simp add: str_ok_def)
  then show ?thesis
    using adopt_buffer [OF assms(1) True assms(2)] True by (auto simp: str_move_def elim!: returns_mono)
next
  case False
  have init: "returns (str_init src (init_capacity src)) (\<lambda>s'. str_ok s' \<and> str_content s' = [])"
    using assms(1) by (intro str_init_spec) (simp add: str_ok_def)
  have l: "length (sso_buffer src) = STR_SSO_SIZE" "length (sso_buffer dst) = STR_SSO_SIZE"
    "str_length src < STR_SSO_SIZE"
    using assms False by (simp_all add: str_ok_def)
  then have bytes: "peek (sso_buffer src) 0 (str_length src + 1) = Some (take (str_length src + 1) (sso_buffer src))"
    by (simp add: peek_def)
  let ?sso = "take (str_length src + 1) (sso_buffer src) @ drop (str_length src + 1) (sso_buffer dst)"
  have "poke (sso_buffer dst) 0 (take (str_length src + 1) (sso_buffer src)) = Some ?sso"
    using l by (simp add: poke_def min_def)
  moreover have "?sso ! str_length src = sso_buffer src ! str_length src"
    "take (str_length src) ?sso = take (str_length src) (sso_buffer src)" "length ?sso = STR_SSO_SIZE"
    using l by (auto simp: nth_append min_def)
  ultimately show ?thesis
    using assms False bytes init l
    by (auto simp: str_move_def str_ok_def str_content_def elim!: returns_mono)
qed

section \<open>Appending byte by byte\<close>

lemma str_appendc_spec:
  assumes "str_ok s" and "object_bounded m"
  shows "returns (str_appendc m s ch) (\<lambda>(r, s'). str_ok s' \<and>
    str_content s' = (if r then str_content s @ [ch] else str_content s))"
  using str_insertc_spec [OF assms, of ch "str_length s"] str_content_length [OF assms(1)]
  by (auto simp: str_appendc_def inserted_def elim!: returns_mono)

interpretation sb: byte_buffer "str_appendc (cap_allocator m)" str_content str_ok for m
  by unfold_locales (rule str_appendc_spec, simp_all)

section \<open>Sequences of operations\<close>

datatype str_op =
    Str_insert "char list option" nat
  | Str_append "char list option"
  | Str_prepend "char list option"
  | Str_insertc char nat
  | Str_appendc char
  | Str_prependc char
  | Str_assign "char list option"
  | Str_reserve nat
  | Str_pop
  | Str_reset
  | Str_clear

definition str_exec :: "allocator \<Rightarrow> str_op \<Rightarrow> str_t \<Rightarrow> (bool \<times> str_t) option" where
  "str_exec m op s = (case op of
     Str_insert string pos \<Rightarrow> str_insert m s string pos
   | Str_append string \<Rightarrow> str_append m s string
   | Str_prepend string \<Rightarrow> str_prepend m s string
   | Str_insertc ch pos \<Rightarrow> str_insertc m s ch pos
   | Str_appendc ch \<Rightarrow> str_appendc m s ch
   | Str_prependc ch \<Rightarrow> str_prependc m s ch
   | Str_assign string \<Rightarrow> str_assign m s string
   | Str_reserve cap \<Rightarrow> str_reserve m s cap
   | Str_pop \<Rightarrow> str_pop s
   | Str_reset \<Rightarrow> Some (True, str_reset s)
   | Str_clear \<Rightarrow> map_option (\<lambda>s'. (True, s')) (str_clear s))"

primrec str_run :: "(allocator \<times> str_op) list \<Rightarrow> str_t \<Rightarrow> (bool list \<times> str_t) option" where
  "str_run [] s = Some ([], s)"
| "str_run (mop # mops) s = do {
     (r, s1) \<leftarrow> str_exec (fst mop) (snd mop) s;
     (rs, s2) \<leftarrow> str_run mops s1;
     Some (r # rs, s2)
   }"

text \<open>The contents after a call that returned \<open>r\<close>. A failed assignment leaves the empty string.\<close>

definition put_at :: "char list \<Rightarrow> char list \<Rightarrow> nat \<Rightarrow> char list" where
  "put_at c string pos = take pos c @ string @ drop pos c"

definition text_after :: "str_op \<Rightarrow> bool \<Rightarrow> char list \<Rightarrow> char list" where
  "text_after op r c = (case op of
     Str_insert (Some string) pos \<Rightarrow> if r then put_at c string pos else c
   | Str_append (Some string) \<Rightarrow> if r then c @ string else c
   | Str_prepend (Some string) \<Rightarrow> if r then string @ c else c
   | Str_insertc ch pos \<Rightarrow> if r then put_at c [ch] pos else c
   | Str_appendc ch \<Rightarrow> if r then c @ [ch] else c
   | Str_prependc ch \<Rightarrow> if r then ch # c else c
   | Str_assign string \<Rightarrow> if r then the string else []
   | Str_pop \<Rightarrow> butlast c
   | Str_reset \<Rightarrow> []
   | Str_clear \<Rightarrow> []
   | _ \<Rightarrow> c)"

fun text_run :: "str_op list \<Rightarrow> bool list \<Rightarrow> char list \<Rightarrow> char list" where
  "text_run (op # ops) (r # rs) c = text_run ops rs (text_after op r c)"
| "text_run _ _ c = c"

text \<open>Every argument is an object of the program.\<close>

definition arg_ok :: "str_op \<Rightarrow> bool" where
  "arg_ok op = (case op of
     Str_insert (Some string) _ \<Rightarrow> length string < 2 ^ 63
   | Str_append (Some string) \<Rightarrow> length string < 2 ^ 63
   | Str_prepend (Some string) \<Rightarrow> length string < 2 ^ 63
   | Str_assign (Some string) \<Rightarrow> length string < 2 ^ 63
   | _ \<Rightarrow> True)"

lemma insert_text:
  assumes "str_ok s" and "object_bounded m"
    and "\<And>string. string_opt = Some string \<Longrightarrow> length string < 2 ^ 63"
  shows "returns (str_insert m s string_opt pos) (\<lambda>(r, s'). str_ok s' \<and> str_content s' =
    (if r then put_at (str_content s) (the string_opt) pos else str_content s) \<and>
    (r \<longrightarrow> string_opt \<noteq> None \<and> pos \<le> length (str_content s)))"
proof (cases string_opt)
  case None
  with assms(1) show ?thesis
    by (simp add: str_insert_def)
next
  case (Some string)
  then show ?thesis
    using str_insert_spec [OF assms(1,2), of string pos] assms(3)
    by (auto simp: inserted_def put_at_def elim!: returns_mono)
qed

lemma str_assign_None:
  assumes "str_ok s"
  shows "returns (str_assign m s None) (\<lambda>(r, s'). str_ok s' \<and> \<not> r \<and> str_content s' = [])"
  using assms
  by (auto simp: str_assign_def str_insert_def str_ok_def str_content_def STR_SSO_SIZE_def split: option.splits)

lemma str_exec_spec:
  assumes "str_ok s" and "object_bounded m" and "arg_ok op"
  shows "returns (str_exec m op s) (\<lambda>(r, s'). str_ok s' \<and> str_content s' = text_after op r (str_content s))"
proof (cases op)
  case (Str_insert string pos)
  then show ?thesis
    using insert_text [OF assms(1,2), of string pos] assms(3)
    by (auto simp: str_exec_def text_after_def arg_ok_def elim!: returns_mono split: option.splits)
next
  case (Str_append string)
  then show ?thesis
    using insert_text [OF assms(1,2), of string "str_length s"] assms(3) str_content_length [OF assms(1)]
    by (auto simp: str_exec_def str_append_def text_after_def arg_ok_def put_at_def elim!: returns_mono split: option.splits)
next
  case (Str_prepend string)
  then show ?thesis
    using insert_text [OF assms(1,2), of string 0] assms(3)
    by (auto simp: str_exec_def str_prepend_def text_after_def arg_ok_def put_at_def elim!: returns_mono split: option.splits)
next
  case (Str_insertc ch pos)
  then show ?thesis
    using str_insertc_spec [OF assms(1,2), of ch pos]
    by (auto simp: str_exec_def text_after_def inserted_def put_at_def elim!: returns_mono)
next
  case (Str_appendc ch)
  then show ?thesis
    using str_appendc_spec [OF assms(1,2), of ch]
    by (auto simp: str_exec_def text_after_def elim!: returns_mono)
next
  case (Str_prependc ch)
  then show ?thesis
    using str_insertc_spec [OF assms(1,2), of ch 0]
    by (auto simp: str_exec_def str_prependc_def text_after_def inserted_def elim!: returns_mono)
next
  case (Str_assign string)
  then show ?thesis
    using str_assign_spec [OF assms(1,2), of "the string"] str_assign_None [OF assms(1), of m] assms(3)
    by (cases string) (auto simp: str_exec_def text_after_def arg_ok_def elim!: returns_mono)
next
  case (Str_reserve cap)
  then show ?thesis
    using str_reserve_spec [OF assms(1,2), of cap] by (auto simp: str_exec_def text_after_def elim!: returns_mono)
next
  case Str_pop
  then show ?thesis
    using str_pop_spec [OF assms(1)] by (auto simp: str_exec_def text_after_def elim!: returns_mono)
next
  case Str_reset
  then show ?thesis
    using str_reset_spec [OF assms(1)] by (simp add: str_exec_def text_after_def)
next
  case Str_clear
  then show ?thesis
    using str_clear_spec [OF assms(1)] by (auto simp: str_exec_def text_after_def elim!: returns_mono)
qed

lemma str_run_spec:
  assumes "str_ok s" and "\<forall>mop\<in>set mops. object_bounded (fst mop) \<and> arg_ok (snd mop)"
  shows "returns (str_run mops s) (\<lambda>(rs, s'). str_ok s' \<and>
    str_content s' = text_run (map snd mops) rs (str_content s))"
  using assms
proof (induction mops arbitrary: s)
  case (Cons mop mops)
  obtain r s1 where e: "str_exec (fst mop) (snd mop) s = Some (r, s1)" and ok: "str_ok s1"
    and ct: "str_content s1 = text_after (snd mop) r (str_content s)"
    using str_exec_spec [OF Cons.prems(1), of "fst mop" "snd mop"] Cons.prems(2) by (auto simp: returns_iff)
  then show ?case
    using Cons.IH [OF ok] Cons.prems(2) by (auto elim!: returns_mono)
qed simp

lemma str_create_empty_spec:
  assumes "length (sso_buffer data) = STR_SSO_SIZE"
  shows "returns (str_create_empty (Some data) cap) (\<lambda>r. \<exists>s. r = Some s \<and> str_ok s \<and> str_content s = [])"
  using str_init_spec [OF assms, of cap] str_reset_spec by (auto simp: str_create_empty_def elim!: returns_mono)

section \<open>Properties\<close>



text \<open>Property C27. Moving a string object transfers its text, empties the source and leaves both
  objects valid, whether the text was in the internal array or on the heap; and appending a text byte
  by byte, if every call succeeds, builds exactly this text.\<close>

theorem str_move_appendc:
  assumes "str_ok src" and "str_ok dst"
    and "put_all (str_appendc (cap_allocator m)) src cs = Some (True, src1)"
  shows "returns (str_move src1 dst) (\<lambda>(src', dst'). str_ok src' \<and> str_ok dst' \<and>
    str_content src' = [] \<and> str_content dst' = str_content src @ cs)"
  using str_move_spec [OF _ assms(2), of src1] sb.put_all_content [OF assms(1,3)] by simp

definition example_str :: str_t where
  "example_str = \<lparr> sso_buffer = replicate 32 nul, dynamic_buffer = None, str_length = 0,
      str_capacity = 0, is_dynamic = False, init_capacity = 0 \<rparr>"

theorem str_move_appendc_witness:
  "\<exists>src1. put_all (str_appendc (cap_allocator (\<lambda>_. None))) example_str ''xy'' = Some (True, src1) \<and>
    returns (str_move src1 example_str) (\<lambda>(src', dst'). str_content dst' = ''xy'')"
proof -
  have ok: "str_ok example_str" "str_content example_str = []"
    by (simp_all add: str_ok_def example_str_def STR_SSO_SIZE_def str_content_def)
  have "\<exists>src1. put_all (str_appendc (cap_allocator (\<lambda>_. None))) example_str ''xy'' = Some (True, src1)"
    by (simp add: str_appendc_def str_insertc_def example_str_def STR_SSO_SIZE_def poke_def)
  then obtain src1 where p: "put_all (str_appendc (cap_allocator (\<lambda>_. None))) example_str ''xy'' = Some (True, src1)"
    by blast
  then show ?thesis
    using str_move_appendc [OF ok(1) ok(1) p] ok(2) by (auto elim!: returns_mono)
qed

end
