(* ===== verification/Bufo.thy ===== *)
theory Bufo
  imports Prelude "HOL-Library.While_Combinator"
begin

text \<open>
  The output buffer of the filter chain and of the decompressor (misc/bufo.c): a heap block
  with a capacity, a fill mark \<open>bufo_size\<close> and a cursor \<open>bufo_pos\<close> that both the writer and the
  reader move. The theory models every operation, shows that the marks never leave the block
  for any sequence of calls, and that what was appended is what a reader drains in chunks.
\<close>

section \<open>State\<close>

record bufo =
  bdata :: "char list option"
  capacity :: nat
  bsize :: nat
  pos :: nat
  is_proxy :: bool
  is_last :: bool

definition max_capacity :: nat where
  "max_capacity = 10 * 1024 * 1024"

section \<open>Operations\<close>

definition bufo_flush :: "bufo \<Rightarrow> bufo" where
  "bufo_flush b = b\<lparr>bsize := 0, pos := 0, is_proxy := False, is_last := False\<rparr>"

definition bufo_init :: "bufo \<Rightarrow> bufo" where
  "bufo_init b = bufo_flush (b\<lparr>bdata := None, capacity := 0\<rparr>)"

text \<open>Both branches of \<open>bufo_clear\<close> leave the same object; a proxy does not free the block
  it borrows. The freed block is part of the result.\<close>

definition bufo_clear :: "bufo \<Rightarrow> char list option \<times> bufo" where
  "bufo_clear b = (if is_proxy b then None else bdata b, bufo_init b)"

definition bufo_chunk_size :: "bufo \<Rightarrow> nat \<Rightarrow> nat" where
  "bufo_chunk_size b sz =
     (if bsize b \<le> pos b then 0
      else let remaining = bsize b - pos b in if sz < remaining then sz else remaining)"

text \<open>The pointer \<open>buf->data + buf->pos\<close>, as the bytes from the cursor on.\<close>

definition bufo_data :: "bufo \<Rightarrow> char list option" where
  "bufo_data b = map_option (drop (pos b)) (bdata b)"

definition bufo_size :: "bufo \<Rightarrow> nat" where
  "bufo_size b = bsize b"

definition bufo_move_front_pos :: "bufo \<Rightarrow> nat \<Rightarrow> nat \<times> bufo" where
  "bufo_move_front_pos b sz =
     (if bsize b \<le> pos b then (0, b)
      else if bsize b \<le> szadd (pos b) sz then (bsize b - pos b, b\<lparr>pos := bsize b\<rparr>)
      else (sz, b\<lparr>pos := szadd (pos b) sz\<rparr>))"

definition bufo_set_size :: "bufo \<Rightarrow> nat \<Rightarrow> bufo" where
  "bufo_set_size b sz = b\<lparr>bsize := (if capacity b < sz then capacity b else sz)\<rparr>"

definition bufo_alloc :: "allocator \<Rightarrow> bufo \<Rightarrow> nat \<Rightarrow> bool \<times> bufo" where
  "bufo_alloc m b cap =
     (if bdata b \<noteq> None then (True, b)
      else if max_capacity < cap then (False, b)
      else case malloc m cap of
             None \<Rightarrow> (False, b)
           | Some d \<Rightarrow> (True, b\<lparr>bdata := Some d, capacity := cap\<rparr>))"

text \<open>The doubling loop of \<open>bufo_ensure_capacity\<close>; \<open>None\<close> would be a loop that never ends.\<close>

definition bufo_double :: "nat \<Rightarrow> nat \<Rightarrow> nat option" where
  "bufo_double cap = while_option (\<lambda>new_capacity. new_capacity < cap) (\<lambda>new_capacity. szmul new_capacity 2)"

definition bufo_ensure_capacity :: "allocator \<Rightarrow> bufo \<Rightarrow> nat \<Rightarrow> (bool \<times> bufo) option" where
  "bufo_ensure_capacity m b cap =
     (if is_proxy b then Some (False, b)
      else if cap \<le> capacity b then Some (True, b)
      else if max_capacity < cap then Some (False, b)
      else do {
        n \<leftarrow> bufo_double cap (if capacity b = 0 then 4096 else capacity b);
        let new_capacity = (if max_capacity < n then max_capacity else n);
        Some (case realloc m (case bdata b of None \<Rightarrow> [] | Some d \<Rightarrow> d) new_capacity of
                None \<Rightarrow> (False, b)
              | Some d \<Rightarrow> (True, b\<lparr>bdata := Some d, capacity := new_capacity\<rparr>))
      })"

text \<open>\<open>size\<close> is the length of \<open>data\<close>. The result is \<open>None\<close> only when the copy leaves the block.\<close>

definition bufo_append :: "bufo \<Rightarrow> char list \<Rightarrow> (int \<times> bufo) option" where
  "bufo_append b data =
     (if is_proxy b then Some (0, b)
      else if data = [] then Some (0, b)
      else case bdata b of
        None \<Rightarrow> Some (-1, b)
      | Some blk \<Rightarrow>
          if capacity b \<le> pos b then Some (0, b)
          else let available = capacity b - pos b;
                   to_copy = (if length data < available then length data else available)
               in map_option (\<lambda>blk'.
                    let p = pos b + to_copy
                    in (int to_copy, b\<lparr>bdata := Some blk', pos := p,
                                       bsize := (if bsize b < p then p else bsize b)\<rparr>))
                    (poke blk (pos b) (take to_copy data)))"

definition bufo_reset_pos :: "bufo \<Rightarrow> bufo" where
  "bufo_reset_pos b = b\<lparr>pos := 0\<rparr>"

definition bufo_reset_size :: "bufo \<Rightarrow> bufo" where
  "bufo_reset_size b = b\<lparr>bsize := 0\<rparr>"

section \<open>Invariant\<close>

text \<open>The block has \<open>capacity\<close> bytes, no more than the limit, and both marks stay inside it.\<close>

definition bufo_ok :: "bufo \<Rightarrow> bool" where
  "bufo_ok b \<longleftrightarrow>
     capacity b = (case bdata b of None \<Rightarrow> 0 | Some d \<Rightarrow> length d) \<and>
     capacity b \<le> max_capacity \<and> bsize b \<le> capacity b \<and> pos b \<le> capacity b \<and> \<not> is_proxy b"

lemma bufo_init_ok: "bufo_ok (bufo_init b)"
  by (simp add: bufo_ok_def bufo_init_def bufo_flush_def)

text \<open>The doubling loop ends below twice the request.\<close>

lemma bufo_double_spec:
  assumes "0 < n" and "cap \<le> max_capacity"
  shows "returns (bufo_double cap n) (\<lambda>r. cap \<le> r \<and> n \<le> r \<and> (n < cap \<longrightarrow> r < 2 * cap))"
proof -
  let ?P = "\<lambda>r. n \<le> r \<and> (n < cap \<longrightarrow> r < 2 * cap)"
  have sz: "r < cap \<Longrightarrow> szmul r 2 = r * 2" for r
    using assms(2) by (intro szmul_exact) (simp add: max_capacity_def size_modulus_def)
  have "\<exists>t. while_option (\<lambda>r. r < cap) (\<lambda>r. szmul r 2) n = Some t"
  proof (rule measure_while_option_Some [where P = "\<lambda>r. 0 < r" and f = "\<lambda>r. cap - r"])
    show "0 < s \<Longrightarrow> s < cap \<Longrightarrow> 0 < szmul s 2 \<and> cap - szmul s 2 < cap - s" for s
      by (simp add: sz)
  qed (use assms in simp)
  then obtain t where t: "while_option (\<lambda>r. r < cap) (\<lambda>r. szmul r 2) n = Some t"
    by blast
  have "?P t"
    by (rule while_option_rule [OF _ t, where P = ?P]) (auto simp: sz)
  with while_option_stop [OF t] t show ?thesis
    by (simp add: bufo_double_def)
qed

lemma bufo_ensure_capacity_spec:
  assumes "bufo_ok b"
  shows "returns (bufo_ensure_capacity m b cap) (\<lambda>(r, b'). bufo_ok b' \<and>
           bsize b' = bsize b \<and> pos b' = pos b \<and> capacity b \<le> capacity b' \<and>
           (r \<longrightarrow> cap \<le> capacity b') \<and> (never_fails m \<and> cap \<le> max_capacity \<longrightarrow> r) \<and>
           (\<not> r \<longrightarrow> b' = b) \<and>
           take (capacity b) (case bdata b' of None \<Rightarrow> [] | Some d \<Rightarrow> d) =
             (case bdata b of None \<Rightarrow> [] | Some d \<Rightarrow> d))"
proof (cases "cap \<le> capacity b \<or> max_capacity < cap")
  case True
  then show ?thesis
    using assms by (auto simp: bufo_ensure_capacity_def bufo_ok_def split: option.splits)
next
  case False
  let ?old = "case bdata b of None \<Rightarrow> [] | Some d \<Rightarrow> d"
  let ?n = "if capacity b = 0 then 4096 else capacity b"
  have "0 < ?n"
    by simp
  from bufo_double_spec [OF this, of cap]
  obtain r where r: "bufo_double cap ?n = Some r" "cap \<le> r" "?n \<le> r"
    unfolding returns_iff using False by fastforce
  define k where "k = (if max_capacity < r then max_capacity else r)"
  have k: "cap \<le> k" "capacity b \<le> k" "k \<le> max_capacity" and len: "length ?old = capacity b"
    using r assms False by (auto simp: k_def bufo_ok_def split: if_splits option.splits)
  have "realloc m ?old k = Some d \<Longrightarrow> length d = k \<and> take (capacity b) d = ?old" for d
    using realloc_length [of m ?old k d] realloc_prefix [of m ?old k d "capacity b"] k len by simp
  moreover have "bufo_ensure_capacity m b cap =
      Some (case realloc m ?old k of None \<Rightarrow> (False, b)
            | Some d \<Rightarrow> (True, b\<lparr>bdata := Some d, capacity := k\<rparr>))"
    using assms False r(1) unfolding bufo_ensure_capacity_def k_def Let_def bufo_ok_def by simp
  ultimately show ?thesis
    using assms k len realloc_never_fails [of m ?old k] by (auto simp: bufo_ok_def split: option.splits)
qed

lemma bufo_alloc_spec:
  assumes "bufo_ok b"
  shows "bufo_ok (snd (bufo_alloc m b cap))"
    and "bdata b = None \<Longrightarrow> never_fails m \<Longrightarrow> cap \<le> max_capacity \<Longrightarrow>
           fst (bufo_alloc m b cap) \<and> capacity (snd (bufo_alloc m b cap)) = cap \<and>
           bdata (snd (bufo_alloc m b cap)) \<noteq> None \<and>
           bsize (snd (bufo_alloc m b cap)) = bsize b \<and> pos (snd (bufo_alloc m b cap)) = pos b"
  using assms malloc_length [of m cap] malloc_never_fails [of m cap]
  by (auto simp: bufo_alloc_def bufo_ok_def split: option.splits)

text \<open>An append copies as much as fits behind the cursor and moves the cursor behind it.\<close>

lemma bufo_append_spec:
  assumes ok: "bufo_ok b"
  shows "returns (bufo_append b data) (\<lambda>(r, b'). bufo_ok b' \<and>
           (\<forall>blk. bdata b = Some blk \<longrightarrow>
              (let k = min (length data) (capacity b - pos b)
               in r = int k \<and> pos b' = pos b + k \<and> bsize b' = max (bsize b) (if k = 0 then 0 else pos b + k) \<and>
                  capacity b' = capacity b \<and>
                  bdata b' = Some (take (pos b) blk @ take k data @ drop (pos b + k) blk))))"
proof (cases "bdata b")
  case None
  with ok show ?thesis
    by (simp add: bufo_append_def bufo_ok_def)
next
  case (Some blk)
  show ?thesis
  proof (cases "data = [] \<or> capacity b \<le> pos b")
    case True
    with ok Some show ?thesis
      by (auto simp: bufo_append_def bufo_ok_def Let_def)
  next
    case False
    then show ?thesis
      using ok Some by (auto simp: bufo_append_def bufo_ok_def Let_def poke_in min_def)
  qed
qed

section \<open>Sequences of operations\<close>

datatype bufo_op =
    Init | Clear | Flush | Set_Size nat | Move_Front nat | Alloc allocator nat
  | Ensure allocator nat | Append "char list" | Reset_Pos | Reset_Size

definition bufo_exec :: "bufo_op \<Rightarrow> bufo \<Rightarrow> bufo option" where
  "bufo_exec oper b =
     (case oper of
        Init \<Rightarrow> Some (bufo_init b)
      | Clear \<Rightarrow> Some (snd (bufo_clear b))
      | Flush \<Rightarrow> Some (bufo_flush b)
      | Set_Size n \<Rightarrow> Some (bufo_set_size b n)
      | Move_Front n \<Rightarrow> Some (snd (bufo_move_front_pos b n))
      | Alloc m n \<Rightarrow> Some (snd (bufo_alloc m b n))
      | Ensure m n \<Rightarrow> map_option snd (bufo_ensure_capacity m b n)
      | Append data \<Rightarrow> map_option snd (bufo_append b data)
      | Reset_Pos \<Rightarrow> Some (bufo_reset_pos b)
      | Reset_Size \<Rightarrow> Some (bufo_reset_size b))"

fun bufo_run :: "bufo_op list \<Rightarrow> bufo \<Rightarrow> bufo option" where
  "bufo_run [] b = Some b"
| "bufo_run (oper # ops) b = Option.bind (bufo_exec oper b) (bufo_run ops)"

lemma bufo_exec_ok: "bufo_ok b \<Longrightarrow> returns (bufo_exec oper b) bufo_ok"
proof (cases oper)
  case (Ensure m n)
  then show "bufo_ok b \<Longrightarrow> ?thesis"
    by (auto simp: bufo_exec_def intro: returns_mono [OF bufo_ensure_capacity_spec])
next
  case (Append data)
  then show "bufo_ok b \<Longrightarrow> ?thesis"
    by (auto simp: bufo_exec_def intro: returns_mono [OF bufo_append_spec])
next
  case (Move_Front n)
  then show "bufo_ok b \<Longrightarrow> ?thesis"
    by (auto simp: bufo_exec_def bufo_move_front_pos_def bufo_ok_def)
next
  case (Alloc m n)
  then show "bufo_ok b \<Longrightarrow> ?thesis"
    by (simp add: bufo_exec_def bufo_alloc_spec(1))
qed (auto simp: bufo_exec_def bufo_ok_def bufo_init_def bufo_flush_def bufo_clear_def bufo_set_size_def
      bufo_reset_pos_def bufo_reset_size_def)

lemma bufo_run_preserves: "bufo_ok b \<Longrightarrow> returns (bufo_run ops b) bufo_ok"
proof (induction ops arbitrary: b)
  case (Cons oper ops)
  then show ?case
    using bufo_exec_ok [OF Cons.prems, of oper] by (auto elim!: returns_mono)
qed simp

text \<open>A producer appends pieces one after another.\<close>

fun bufo_append_all :: "char list list \<Rightarrow> bufo \<Rightarrow> bufo option" where
  "bufo_append_all [] b = Some b"
| "bufo_append_all (p # ps) b = Option.bind (bufo_append b p) (\<lambda>(r, b1). bufo_append_all ps b1)"

text \<open>The loop by which a consumer sends a buffer: \<open>bufo_chunk_size\<close>, the bytes at
  \<open>bufo_data\<close>, \<open>bufo_move_front_pos\<close>; the list gives the room the consumer has each time.\<close>

fun bufo_drain :: "nat list \<Rightarrow> bufo \<Rightarrow> (char list \<times> bufo) option" where
  "bufo_drain [] b = Some ([], b)"
| "bufo_drain (n # ns) b = do {
     let k = bufo_chunk_size b n;
     ptr \<leftarrow> bufo_data b;
     chunk \<leftarrow> peek ptr 0 k;
     (rest, b') \<leftarrow> bufo_drain ns (snd (bufo_move_front_pos b k));
     Some (chunk @ rest, b')
   }"

lemma bufo_append_all_spec:
  assumes "bufo_ok b" and "bdata b = Some blk" and "pos b = bsize b"
    and "pos b + length (concat ps) \<le> capacity b"
  shows "returns (bufo_append_all ps b) (\<lambda>b'. bufo_ok b' \<and> pos b' = bsize b' \<and>
           bsize b' = bsize b + length (concat ps) \<and>
           (\<exists>blk'. bdata b' = Some blk' \<and> take (bsize b') blk' = take (bsize b) blk @ concat ps))"
  using assms
proof (induction ps arbitrary: b blk)
  case (Cons p ps)
  obtain r b1 where a: "bufo_append b p = Some (r, b1)" and ok1: "bufo_ok b1"
    and b1: "pos b1 = pos b + length p" "bsize b1 = pos b + length p" "capacity b1 = capacity b"
      "bdata b1 = Some (take (pos b) blk @ p @ drop (pos b + length p) blk)"
    using bufo_append_spec [OF Cons.prems(1), of p] Cons.prems
    by (auto simp: Let_def min_def elim!: returnsE split: if_splits)
  have "length (take (pos b) blk) = pos b"
    using Cons.prems(1,2) by (simp add: bufo_ok_def)
  moreover have "returns (bufo_append_all ps b1) (\<lambda>b'. bufo_ok b' \<and> pos b' = bsize b' \<and>
           bsize b' = bsize b1 + length (concat ps) \<and>
           (\<exists>blk'. bdata b' = Some blk' \<and> take (bsize b') blk' =
              take (bsize b1) (take (pos b) blk @ p @ drop (pos b + length p) blk) @ concat ps))"
    using Cons.prems(3,4) b1 by (intro Cons.IH [OF ok1]) simp_all
  ultimately show ?case
    using a b1 Cons.prems(3) by (auto elim!: returns_mono)
qed auto

lemma bufo_chunk_size_min: "bufo_chunk_size b n = min n (bsize b - pos b)"
  by (simp add: bufo_chunk_size_def Let_def min_def)

lemma take_append_min: "take n ys @ take j (drop (min n (length ys)) ys) = take (n + j) ys"
  by (simp add: take_add min_def)

lemma bufo_drain_spec:
  assumes "bufo_ok b" and "bdata b = Some blk" and "pos b \<le> bsize b"
  shows "returns (bufo_drain ns b) (\<lambda>(out, b').
           out = take (sum_list ns) (drop (pos b) (take (bsize b) blk)) \<and>
           b' = b\<lparr>pos := min (bsize b) (pos b + sum_list ns)\<rparr>)"
  using assms
proof (induction ns arbitrary: b)
  case (Cons n ns)
  define k where "k = bufo_chunk_size b n"
  have k: "k = min n (bsize b - pos b)" and len: "bsize b \<le> length blk" "pos b \<le> length blk"
    using Cons.prems by (auto simp: k_def bufo_chunk_size_min bufo_ok_def)
  have "pos b + k < size_modulus"
    using Cons.prems k by (auto simp: bufo_ok_def max_capacity_def size_modulus_def)
  then have mv: "snd (bufo_move_front_pos b k) = b\<lparr>pos := pos b + k\<rparr>"
    using k by (auto simp: bufo_move_front_pos_def szadd_exact)
  have "returns (bufo_drain ns (b\<lparr>pos := pos b + k\<rparr>)) (\<lambda>(out, b').
           out = take (sum_list ns) (drop (pos b + k) (take (bsize b) blk)) \<and>
           b' = b\<lparr>pos := min (bsize b) (pos b + k + sum_list ns)\<rparr>)"
    using Cons.IH [of "b\<lparr>pos := pos b + k\<rparr>"] Cons.prems k by (auto simp: bufo_ok_def)
  moreover have "take k (drop (pos b) blk) = take n (drop (pos b) (take (bsize b) blk))"
    using k len by (simp add: drop_take min_def)
  moreover have "take n (drop (pos b) (take (bsize b) blk)) @
      take (sum_list ns) (drop (pos b + k) (take (bsize b) blk)) =
      take (n + sum_list ns) (drop (pos b) (take (bsize b) blk))"
  proof -
    have "k = min n (length (drop (pos b) (take (bsize b) blk)))"
      using k len by (simp add: min_def)
    then show ?thesis
      using take_append_min [of n "drop (pos b) (take (bsize b) blk)" "sum_list ns"]
      by (simp only: drop_drop add.commute)
  qed
  moreover have "min (bsize b) (pos b + k + sum_list ns) = min (bsize b) (pos b + (n + sum_list ns))"
    using k by (auto simp: min_def)
  moreover have "bufo_drain (n # ns) b = Option.bind (bufo_drain ns (b\<lparr>pos := pos b + k\<rparr>))
      (\<lambda>(rest, b'). Some (take k (drop (pos b) blk) @ rest, b'))"
  proof -
    have "k \<le> length blk - pos b"
      using k len by simp
    then show ?thesis
      using Cons.prems(2) by (simp add: Let_def k_def [symmetric] bufo_data_def mv peek_in)
  qed
  ultimately show ?case
    by (auto elim!: returns_mono)
qed (auto simp: min_def)

section \<open>Properties\<close>


text \<open>Property C23. Bytes appended in any pieces to a buffer that has room for them are read
  back in order by a consumer that drains the buffer in chunks of any sizes: it gets as many
  bytes as it asked for in total, or all of them.\<close>

theorem bufo_append_drain:
  assumes "never_fails m" and "cap \<le> max_capacity" and "length (concat ps) \<le> cap"
  shows "returns (do { b1 \<leftarrow> bufo_append_all ps (snd (bufo_alloc m (bufo_init b) cap));
                       bufo_drain ns (bufo_reset_pos b1) })
           (\<lambda>(out, b2). out = take (sum_list ns) (concat ps))"
proof -
  define b0 where "b0 = snd (bufo_alloc m (bufo_init b) cap)"
  have "bdata (bufo_init b) = None" "bsize (bufo_init b) = 0" "pos (bufo_init b) = 0"
    by (simp_all add: bufo_init_def bufo_flush_def)
  then have "bufo_ok b0" "capacity b0 = cap" "bdata b0 \<noteq> None" "bsize b0 = 0" "pos b0 = 0"
    using bufo_alloc_spec [OF bufo_init_ok [of b], of m cap] assms unfolding b0_def by auto
  then obtain b1 blk where a: "bufo_append_all ps b0 = Some b1" "bufo_ok b1" "pos b1 = bsize b1"
    "bdata b1 = Some blk" "take (bsize b1) blk = concat ps"
    using bufo_append_all_spec [of b0 _ ps] assms by (auto elim!: returnsE)
  then have "bufo_ok (bufo_reset_pos b1)"
    by (simp add: bufo_ok_def bufo_reset_pos_def)
  from bufo_drain_spec [OF this, of blk ns] a show ?thesis
    unfolding b0_def by (auto simp: bufo_reset_pos_def elim!: returns_mono)
qed

definition blank_bufo :: bufo where
  "blank_bufo = \<lparr>bdata = None, capacity = 0, bsize = 0, pos = 0, is_proxy = False, is_last = False\<rparr>"

theorem bufo_append_drain_witness:
  "never_fails (total_allocator (\<lambda>_ _. nul)) \<and> (8::nat) \<le> max_capacity \<and>
   length (concat [''abc'', ''de'']) \<le> 8 \<and>
   returns (do { b1 \<leftarrow> bufo_append_all [''abc'', ''de'']
                   (snd (bufo_alloc (total_allocator (\<lambda>_ _. nul)) (bufo_init blank_bufo) 8));
                 bufo_drain [2, 9] (bufo_reset_pos b1) })
     (\<lambda>(out, b2). out = take (sum_list [2, 9]) (concat [''abc'', ''de'']))"
proof -
  have "never_fails (total_allocator (\<lambda>_ _. nul))" "(8::nat) \<le> max_capacity"
    "length (concat [''abc'', ''de'']) \<le> 8"
    by (simp_all add: max_capacity_def)
  from this bufo_append_drain [OF this] show ?thesis
    by blast
qed

end
