(* ===== verification/Ws_Utf8.thy ===== *)
theory Ws_Utf8
  imports Prelude
begin

text \<open>
  The streaming UTF-8 validator of the WebSocket parser
  (protocols/websocket/ws_utf8.h). The validator is fed the payload of a TEXT message in
  chunks and carries its state from chunk to chunk. The reference is the encoder of
  RFC 3629: a byte string is valid when it is the concatenation of the encodings of
  Unicode scalar values. The theory shows that feeding any division of a message into
  chunks and finishing accepts exactly the valid byte strings.
\<close>

section \<open>State and operations\<close>

record ws_utf8_validator =
  needed :: int
  seq_len :: int
  min_first :: nat
  max_first :: nat

definition ws_utf8_validator_reset :: "ws_utf8_validator \<Rightarrow> ws_utf8_validator" where
  "ws_utf8_validator_reset v = v\<lparr>needed := 0, seq_len := 0, min_first := 0x80, max_first := 0xBF\<rparr>"

definition utf8_sequence :: "int \<Rightarrow> nat \<Rightarrow> nat \<Rightarrow> ws_utf8_validator \<Rightarrow> ws_utf8_validator" where
  "utf8_sequence n lo hi v = v\<lparr>needed := n, seq_len := n, min_first := lo, max_first := hi\<rparr>"

text \<open>The body of the loop of \<open>ws_utf8_validator_feed\<close>: \<open>None\<close> is the return of 0.\<close>

definition ws_utf8_validator_byte :: "ws_utf8_validator \<Rightarrow> nat \<Rightarrow> ws_utf8_validator option" where
  "ws_utf8_validator_byte v b =
     (if needed v = 0 then
        if b \<le> 0x7F then Some v
        else if 0xC2 \<le> b \<and> b \<le> 0xDF then Some (utf8_sequence 1 0x80 0xBF v)
        else if b = 0xE0 then Some (utf8_sequence 2 0xA0 0xBF v)
        else if 0xE1 \<le> b \<and> b \<le> 0xEC then Some (utf8_sequence 2 0x80 0xBF v)
        else if b = 0xED then Some (utf8_sequence 2 0x80 0x9F v)
        else if b = 0xEE \<or> b = 0xEF then Some (utf8_sequence 2 0x80 0xBF v)
        else if b = 0xF0 then Some (utf8_sequence 3 0x90 0xBF v)
        else if 0xF1 \<le> b \<and> b \<le> 0xF3 then Some (utf8_sequence 3 0x80 0xBF v)
        else if b = 0xF4 then Some (utf8_sequence 3 0x80 0x8F v)
        else None
      else
        let is_first = (needed v = seq_len v);
            lo = (if is_first then min_first v else 0x80);
            hi = (if is_first then max_first v else 0xBF)
        in if b < lo \<or> hi < b then None
           else let v1 = v\<lparr>needed := needed v - 1\<rparr>
                in Some (if needed v1 = 0 then v1\<lparr>seq_len := 0\<rparr> else v1))"

fun ws_utf8_validator_feed ::
    "ws_utf8_validator \<Rightarrow> char list \<Rightarrow> bool \<times> ws_utf8_validator" where
  "ws_utf8_validator_feed v [] = (True, v)"
| "ws_utf8_validator_feed v (b # data) =
     (case ws_utf8_validator_byte v (ord b) of
        None \<Rightarrow> (False, v)
      | Some v1 \<Rightarrow> ws_utf8_validator_feed v1 data)"

definition ws_utf8_validator_finish :: "ws_utf8_validator \<Rightarrow> bool" where
  "ws_utf8_validator_finish v \<longleftrightarrow> needed v = 0"

text \<open>The use the parser makes of the validator: the chunks of a message are fed one after
  another until one is refused, and the message is then finished.\<close>

fun ws_utf8_chunks :: "ws_utf8_validator \<Rightarrow> char list list \<Rightarrow> bool" where
  "ws_utf8_chunks v [] = ws_utf8_validator_finish v"
| "ws_utf8_chunks v (c # cs) =
     (let (ok, v1) = ws_utf8_validator_feed v c in ok \<and> ws_utf8_chunks v1 cs)"

section \<open>Reference: the encoding of RFC 3629\<close>

definition unicode_scalar :: "nat \<Rightarrow> bool" where
  "unicode_scalar u \<longleftrightarrow> u < 0x110000 \<and> \<not> (0xD800 \<le> u \<and> u \<le> 0xDFFF)"

definition utf8_encode :: "nat \<Rightarrow> nat list" where
  "utf8_encode u =
     (if u < 0x80 then [u]
      else if u < 0x800 then [0xC0 + u div 64, 0x80 + u mod 64]
      else if u < 0x10000 then [0xE0 + u div 4096, 0x80 + u div 64 mod 64, 0x80 + u mod 64]
      else [0xF0 + u div 262144, 0x80 + u div 4096 mod 64, 0x80 + u div 64 mod 64, 0x80 + u mod 64])"

definition utf8_valid :: "char list \<Rightarrow> bool" where
  "utf8_valid bs \<longleftrightarrow>
     (\<exists>us. list_all unicode_scalar us \<and> map ord bs = concat (map utf8_encode us))"

section \<open>Lemmas\<close>

text \<open>The validator as a function of the byte values of the whole message.\<close>

fun utf8_accepts :: "ws_utf8_validator \<Rightarrow> nat list \<Rightarrow> bool" where
  "utf8_accepts v [] = (needed v = 0)"
| "utf8_accepts v (b # bs) =
     (case ws_utf8_validator_byte v b of None \<Rightarrow> False | Some v1 \<Rightarrow> utf8_accepts v1 bs)"

declare utf8_accepts.simps(2) [simp del]

lemma feed_append:
  "ws_utf8_validator_feed v (xs @ ys) =
     (let (ok, v1) = ws_utf8_validator_feed v xs
      in if ok then ws_utf8_validator_feed v1 ys else (False, v1))"
  by (induction xs arbitrary: v) (auto split: option.splits)

lemma feed_accepts:
  "fst (ws_utf8_validator_feed v xs) \<and> utf8_accepts (snd (ws_utf8_validator_feed v xs)) ys \<longleftrightarrow>
   utf8_accepts v (map ord xs @ ys)"
  by (induction xs arbitrary: v) (auto simp: utf8_accepts.simps(2) split: option.splits)

lemma chunks_accepts: "ws_utf8_chunks v cs \<longleftrightarrow> utf8_accepts v (map ord (concat cs))"
proof (induction cs arbitrary: v)
  case Nil
  then show ?case
    by (simp add: ws_utf8_validator_finish_def)
next
  case (Cons c cs)
  then show ?case
    using feed_accepts [of v c "map ord (concat cs)"] by (simp add: split_beta)
qed

text \<open>At a code point boundary the other fields do not matter, so the language of the
  validator is described from any boundary state.\<close>

lemma accepts_boundary:
  "needed v = 0 \<Longrightarrow> needed w = 0 \<Longrightarrow> utf8_accepts v bs = utf8_accepts w bs"
proof (induction bs arbitrary: v w)
  case (Cons b bs)
  have "utf8_sequence n lo hi v = utf8_sequence n lo hi w" for n lo hi
    by (cases v; cases w) (simp add: utf8_sequence_def)
  with Cons.prems Cons.IH [OF Cons.prems] show ?case
    by (simp add: utf8_accepts.simps(2) ws_utf8_validator_byte_def)
qed simp

abbreviation utf8_start :: ws_utf8_validator where
  "utf8_start \<equiv> \<lparr>needed = 0, seq_len = 0, min_first = 0x80, max_first = 0xBF\<rparr>"

definition utf8_language :: "nat list \<Rightarrow> bool" where
  "utf8_language bs = utf8_accepts utf8_start bs"

lemma accepts_language: "needed v = 0 \<Longrightarrow> utf8_accepts v bs = utf8_language bs"
  unfolding utf8_language_def by (rule accepts_boundary) simp_all

definition utf8_lead :: "nat \<Rightarrow> (nat \<times> nat \<times> nat) option" where
  "utf8_lead b =
     (if 0xC2 \<le> b \<and> b \<le> 0xDF then Some (1, 0x80, 0xBF)
      else if b = 0xE0 then Some (2, 0xA0, 0xBF)
      else if b = 0xED then Some (2, 0x80, 0x9F)
      else if 0xE1 \<le> b \<and> b \<le> 0xEF then Some (2, 0x80, 0xBF)
      else if b = 0xF0 then Some (3, 0x90, 0xBF)
      else if 0xF1 \<le> b \<and> b \<le> 0xF3 then Some (3, 0x80, 0xBF)
      else if b = 0xF4 then Some (3, 0x80, 0x8F)
      else None)"

abbreviation utf8_tail :: "nat \<Rightarrow> bool" where
  "utf8_tail b \<equiv> 0x80 \<le> b \<and> b \<le> 0xBF"

lemma byte_lead:
  "needed v = 0 \<Longrightarrow> ws_utf8_validator_byte v b =
     (if b \<le> 0x7F then Some v
      else map_option (\<lambda>(n, lo, hi). utf8_sequence (int n) lo hi v) (utf8_lead b))"
  by (auto simp: ws_utf8_validator_byte_def utf8_lead_def)

lemma accepts_more:
  "needed v = n + 1 \<Longrightarrow> 0 \<le> n \<Longrightarrow> utf8_accepts v bs \<longleftrightarrow>
     (\<exists>b r. bs = b # r \<and>
        (if seq_len v = n + 1 then min_first v \<le> b \<and> b \<le> max_first v else utf8_tail b) \<and>
        utf8_accepts (if n = 0 then v\<lparr>needed := 0, seq_len := 0\<rparr> else v\<lparr>needed := n\<rparr>) r)"
  by (cases bs) (auto simp: utf8_accepts.simps(2) ws_utf8_validator_byte_def Let_def)

lemma accepts_sequence:
  "utf8_accepts (utf8_sequence 1 lo hi v) bs \<longleftrightarrow>
     (\<exists>b1 r. bs = b1 # r \<and> lo \<le> b1 \<and> b1 \<le> hi \<and> utf8_language r)"
  "utf8_accepts (utf8_sequence 2 lo hi v) bs \<longleftrightarrow>
     (\<exists>b1 b2 r. bs = b1 # b2 # r \<and> lo \<le> b1 \<and> b1 \<le> hi \<and> utf8_tail b2 \<and> utf8_language r)"
  "utf8_accepts (utf8_sequence 3 lo hi v) bs \<longleftrightarrow>
     (\<exists>b1 b2 b3 r. bs = b1 # b2 # b3 # r \<and> lo \<le> b1 \<and> b1 \<le> hi \<and> utf8_tail b2 \<and> utf8_tail b3 \<and>
        utf8_language r)"
  by (auto simp: utf8_sequence_def accepts_language
      accepts_more [where n = 0] accepts_more [where n = 1] accepts_more [where n = 2])

text \<open>The language of the validator, one code point at a time.\<close>

lemma language_Cons:
  "utf8_language (b # bs) \<longleftrightarrow>
     (if b \<le> 0x7F then utf8_language bs
      else case utf8_lead b of
             None \<Rightarrow> False
           | Some (n, lo, hi) \<Rightarrow> utf8_accepts (utf8_sequence (int n) lo hi utf8_start) bs)"
  unfolding utf8_language_def by (simp add: utf8_accepts.simps(2) byte_lead split: option.splits)

lemma digit: "b < 64 \<Longrightarrow> (64 * a + b) div 64 = a \<and> (64 * a + b) mod 64 = b" for a b :: nat
  by simp

lemma div_64: "u div 4096 = u div 64 div 64" "u div 262144 = u div 64 div 64 div 64" for u :: nat
  by (simp_all add: div_mult2_eq [symmetric])

lemma encode_digits:
  fixes a b c d :: nat
  shows "b < 64 \<Longrightarrow> c < 64 \<Longrightarrow> (64 * (64 * a + b) + c) div 4096 = a \<and>
           (64 * (64 * a + b) + c) div 64 mod 64 = b \<and> (64 * (64 * a + b) + c) mod 64 = c"
    and "b < 64 \<Longrightarrow> c < 64 \<Longrightarrow> d < 64 \<Longrightarrow> (64 * (64 * (64 * a + b) + c) + d) div 262144 = a \<and>
           (64 * (64 * (64 * a + b) + c) + d) div 4096 mod 64 = b \<and>
           (64 * (64 * (64 * a + b) + c) + d) div 64 mod 64 = c \<and>
           (64 * (64 * (64 * a + b) + c) + d) mod 64 = d"
  by (simp_all only: div_64 digit)

lemma scalar_lead1:
  assumes "unicode_scalar u" and "0x80 \<le> u" and "u < 0x800"
  shows "utf8_lead (0xC0 + u div 64) = Some (1, 0x80, 0xBF)"
  using assms unfolding utf8_lead_def by auto

text \<open>The ranges of code points of each length, by their leading digits.\<close>

lemma range2:
  fixes u :: nat
  assumes "b < 64" and "c < 64" and u: "u = 64 * (64 * a + b) + c"
  shows "0x800 \<le> u \<and> u < 0x10000 \<and> \<not> (0xD800 \<le> u \<and> u \<le> 0xDFFF) \<longleftrightarrow>
           a < 16 \<and> (a = 0 \<longrightarrow> 32 \<le> b) \<and> (a = 13 \<longrightarrow> b < 32)"
proof -
  consider "a = 0" | "1 \<le> a" "a \<le> 12" | "a = 13" | "14 \<le> a" "a < 16" | "16 \<le> a"
    by linarith
  then show ?thesis
    using assms(1,2) unfolding u by cases auto
qed

lemma range3:
  fixes u :: nat
  assumes "b < 64" and "c < 4096" and u: "u = 4096 * (64 * a + b) + c"
  shows "0x10000 \<le> u \<and> u < 0x110000 \<longleftrightarrow> a < 5 \<and> (a = 0 \<longrightarrow> 16 \<le> b) \<and> (a = 4 \<longrightarrow> b < 16)"
proof -
  consider "a = 0" | "1 \<le> a" "a \<le> 3" | "a = 4" | "5 \<le> a"
    by linarith
  then show ?thesis
    using assms(1,2) unfolding u by cases auto
qed

lemma lead2_iff:
  "a < 16 \<and> (a = 0 \<longrightarrow> 32 \<le> b) \<and> (a = 13 \<longrightarrow> b < 32) \<and> b < 64 \<longleftrightarrow>
   (\<exists>lo hi. utf8_lead (0xE0 + a) = Some (2, lo, hi) \<and> lo \<le> 0x80 + b \<and> 0x80 + b \<le> hi)"
  unfolding utf8_lead_def by auto

lemma lead3_iff:
  "a < 5 \<and> (a = 0 \<longrightarrow> 16 \<le> b) \<and> (a = 4 \<longrightarrow> b < 16) \<and> b < 64 \<longleftrightarrow>
   (\<exists>lo hi. utf8_lead (0xF0 + a) = Some (3, lo, hi) \<and> lo \<le> 0x80 + b \<and> 0x80 + b \<le> hi)"
  unfolding utf8_lead_def by auto

lemma scalar_lead2:
  assumes "unicode_scalar u" and "0x800 \<le> u" and "u < 0x10000"
  shows "\<exists>lo hi. utf8_lead (0xE0 + u div 4096) = Some (2, lo, hi) \<and> lo \<le> 0x80 + u div 64 mod 64 \<and>
           0x80 + u div 64 mod 64 \<le> hi"
proof -
  have "u = 64 * (64 * (u div 4096) + u div 64 mod 64) + u mod 64"
    by (simp add: div_64)
  from range2 [OF _ _ this] assms show ?thesis
    unfolding lead2_iff [symmetric] unicode_scalar_def by simp
qed

lemma scalar_lead3:
  assumes "unicode_scalar u" and "0x10000 \<le> u"
  shows "\<exists>lo hi. utf8_lead (0xF0 + u div 262144) = Some (3, lo, hi) \<and> lo \<le> 0x80 + u div 4096 mod 64 \<and>
           0x80 + u div 4096 mod 64 \<le> hi"
proof -
  have "u div 262144 = u div 4096 div 64"
    by (simp add: div_mult2_eq [symmetric])
  then have "u = 4096 * (64 * (u div 262144) + u div 4096 mod 64) + u mod 4096"
    by simp
  from range3 [OF _ _ this] assms show ?thesis
    unfolding lead3_iff [symmetric] unicode_scalar_def by simp
qed

lemma tail_mod: "utf8_tail (0x80 + u mod 64)"
  using mod_less_divisor [of 64 u] by simp

lemma language_encode:
  assumes "unicode_scalar u"
  shows "utf8_language (utf8_encode u @ bs) = utf8_language bs"
proof -
  consider "u < 0x80" | "0x80 \<le> u" "u < 0x800" | "0x800 \<le> u" "u < 0x10000" | "0x10000 \<le> u"
    by linarith
  then show ?thesis
  proof cases
    case 1
    then show ?thesis
      by (simp add: utf8_encode_def language_Cons)
  next
    case 2
    with scalar_lead1 [OF assms] tail_mod [of u] show ?thesis
      by (auto simp: utf8_encode_def language_Cons accepts_sequence)
  next
    case 3
    with scalar_lead2 [OF assms] tail_mod [of u] show ?thesis
      by (auto simp: utf8_encode_def language_Cons accepts_sequence)
  next
    case 4
    with scalar_lead3 [OF assms] tail_mod [of u] tail_mod [of "u div 64"] show ?thesis
      by (auto simp: utf8_encode_def language_Cons accepts_sequence)
  qed
qed

lemma tail_digit:
  assumes "utf8_tail b"
  obtains x where "b = 0x80 + x" and "x < 64"
  using assms that [of "b - 0x80"] by auto

lemma lead_bounds: "utf8_lead b = Some (n, lo, hi) \<Longrightarrow> 0x80 \<le> lo \<and> hi \<le> 0xBF \<and>
    (n = 1 \<and> 0xC2 \<le> b \<and> b \<le> 0xDF \<or> n = 2 \<and> 0xE0 \<le> b \<or> n = 3 \<and> 0xF0 \<le> b)"
  by (auto simp: utf8_lead_def split: if_splits)

lemma decode1:
  assumes l: "utf8_lead b = Some (1, lo, hi)" and "lo \<le> b1" and "b1 \<le> hi"
  shows "\<exists>u. unicode_scalar u \<and> utf8_encode u = [b, b1]"
proof -
  have "utf8_tail b1" "0xC2 \<le> b" "b \<le> 0xDF"
    using lead_bounds [OF l] assms by auto
  then obtain a x where "b = 0xC0 + a" "2 \<le> a" "a < 32" and x: "b1 = 0x80 + x" "x < 64"
    using that [of "b - 0xC0" "b1 - 0x80"] by auto
  then have "unicode_scalar (64 * a + x) \<and> utf8_encode (64 * a + x) = [b, b1]"
    unfolding unicode_scalar_def utf8_encode_def by auto
  then show ?thesis
    by blast
qed

lemma decode2:
  assumes l: "utf8_lead b = Some (2, lo, hi)" and "lo \<le> b1" and "b1 \<le> hi" and "utf8_tail b2"
  shows "\<exists>u. unicode_scalar u \<and> utf8_encode u = [b, b1, b2]"
proof -
  have "utf8_tail b1"
    using lead_bounds [OF l] assms by auto
  obtain a where a: "b = 0xE0 + a"
    using lead_bounds [OF l] le_Suc_ex by auto
  obtain x y where x: "b1 = 0x80 + x" "x < 64" and y: "b2 = 0x80 + y" "y < 64"
    using tail_digit \<open>utf8_tail b1\<close> \<open>utf8_tail b2\<close> by metis
  define u where "u = 64 * (64 * a + x) + y"
  have "0x800 \<le> u \<and> u < 0x10000 \<and> \<not> (0xD800 \<le> u \<and> u \<le> 0xDFFF)"
    using assms lead2_iff [of a x] unfolding range2 [OF x(2) y(2) u_def] a x by auto
  then have "unicode_scalar u \<and> utf8_encode u = [b, b1, b2]"
    unfolding unicode_scalar_def utf8_encode_def
    using encode_digits(1) [OF x(2) y(2), of a, folded u_def] a x y by auto
  then show ?thesis
    by blast
qed

lemma decode3:
  assumes l: "utf8_lead b = Some (3, lo, hi)" and "lo \<le> b1" and "b1 \<le> hi" and "utf8_tail b2"
    and "utf8_tail b3"
  shows "\<exists>u. unicode_scalar u \<and> utf8_encode u = [b, b1, b2, b3]"
proof -
  have "utf8_tail b1"
    using lead_bounds [OF l] assms by auto
  obtain a where a: "b = 0xF0 + a"
    using lead_bounds [OF l] le_Suc_ex by auto
  obtain x y z where x: "b1 = 0x80 + x" "x < 64" and y: "b2 = 0x80 + y" "y < 64" and z: "b3 = 0x80 + z" "z < 64"
    using tail_digit \<open>utf8_tail b1\<close> \<open>utf8_tail b2\<close> \<open>utf8_tail b3\<close> by metis
  define u where "u = 64 * (64 * (64 * a + x) + y) + z"
  have u: "u = 4096 * (64 * a + x) + (64 * y + z)" and "64 * y + z < 4096"
    using y z by (simp_all add: u_def)
  then have "0x10000 \<le> u \<and> u < 0x110000"
    using assms lead3_iff [of a x] range3 [OF x(2) _ u] a x by auto
  then have "unicode_scalar u \<and> utf8_encode u = [b, b1, b2, b3]"
    unfolding unicode_scalar_def utf8_encode_def
    using encode_digits(2) [OF x(2) y(2) z(2), of a, folded u_def] a x y z by auto
  then show ?thesis
    by blast
qed

lemma language_decode:
  assumes "utf8_language (b # bs)"
  shows "\<exists>u r. unicode_scalar u \<and> b # bs = utf8_encode u @ r \<and> utf8_language r"
proof (cases "b \<le> 0x7F")
  case True
  then have "unicode_scalar b \<and> b # bs = utf8_encode b @ bs \<and> utf8_language bs"
    using assms by (simp add: language_Cons unicode_scalar_def utf8_encode_def)
  then show ?thesis
    by blast
next
  case False
  then obtain n lo hi where l: "utf8_lead b = Some (n, lo, hi)"
    and a: "utf8_accepts (utf8_sequence (int n) lo hi utf8_start) bs"
    using assms by (auto simp: language_Cons split: option.splits)
  consider "n = 1" | "n = 2" | "n = 3"
    using lead_bounds [OF l] by blast
  then show ?thesis
  proof cases
    case 1
    then obtain b1 r where "bs = b1 # r" "lo \<le> b1" "b1 \<le> hi" "utf8_language r"
      using a by (auto simp: accepts_sequence)
    then show ?thesis
      using decode1 [of b lo hi b1] l 1 by (metis append_Cons append_Nil)
  next
    case 2
    then obtain b1 b2 r where "bs = b1 # b2 # r" "lo \<le> b1" "b1 \<le> hi" "utf8_tail b2" "utf8_language r"
      using a by (auto simp: accepts_sequence)
    then show ?thesis
      using decode2 [of b lo hi b1 b2] l 2 by (metis append_Cons append_Nil)
  next
    case 3
    then obtain b1 b2 b3 r where "bs = b1 # b2 # b3 # r" "lo \<le> b1" "b1 \<le> hi" "utf8_tail b2"
      "utf8_tail b3" "utf8_language r"
      using a by (auto simp: accepts_sequence)
    then show ?thesis
      using decode3 [of b lo hi b1 b2 b3] l 3 by (metis append_Cons append_Nil)
  qed
qed

lemma language_valid:
  "utf8_language bs \<longleftrightarrow> (\<exists>us. list_all unicode_scalar us \<and> bs = concat (map utf8_encode us))"
proof
  assume "utf8_language bs"
  then show "\<exists>us. list_all unicode_scalar us \<and> bs = concat (map utf8_encode us)"
  proof (induction "length bs" arbitrary: bs rule: less_induct)
    case less
    show ?case
    proof (cases bs)
      case Nil
      then show ?thesis
        by (intro exI [of _ "[]"]) simp
    next
      case (Cons b cs)
      then obtain u r where u: "unicode_scalar u" "bs = utf8_encode u @ r" "utf8_language r"
        using language_decode [of b cs] less.prems by blast
      then have "length r < length bs"
        by (simp add: utf8_encode_def)
      with less.hyps [OF _ u(3)] obtain us where "list_all unicode_scalar us" "r = concat (map utf8_encode us)"
        by blast
      with u show ?thesis
        by (intro exI [of _ "u # us"]) simp
    qed
  qed
next
  assume "\<exists>us. list_all unicode_scalar us \<and> bs = concat (map utf8_encode us)"
  then obtain us where "list_all unicode_scalar us" and "bs = concat (map utf8_encode us)"
    by blast
  moreover have "list_all unicode_scalar us \<Longrightarrow> utf8_language (concat (map utf8_encode us))"
    by (induction us) (simp_all add: language_encode, simp add: utf8_language_def)
  ultimately show "utf8_language bs"
    by simp
qed

section \<open>Properties\<close>

text \<open>Property C5. Feeding the chunks of a TEXT message to a freshly reset validator and
  finishing accepts the message exactly when its bytes are the UTF-8 encoding of a sequence
  of Unicode scalar values (RFC 3629: no overlong form, no surrogate, nothing above
  U+10FFFF, no stray or missing continuation byte), whatever the division into chunks: a
  multi-byte sequence may be cut anywhere.\<close>

theorem ws_utf8_chunks_valid:
  "ws_utf8_chunks (ws_utf8_validator_reset v) cs \<longleftrightarrow> utf8_valid (concat cs)"
proof -
  have "needed (ws_utf8_validator_reset v) = 0"
    by (simp add: ws_utf8_validator_reset_def)
  then show ?thesis
    by (simp add: chunks_accepts accepts_language language_valid utf8_valid_def)
qed

end
