(* ===== verification/Ws_Response.thy ===== *)
theory Ws_Response
  imports Helpers
begin

text \<open>
  Outgoing WebSocket frames (protocols/websocket/websocketsresponse.c and the compression
  context of ws_deflate.c). A response object holds the bytes of one server frame, header and
  payload, or a frame header and the file that is sent behind it. The deflate functions of
  zlib, the file system calls and the allocator are parameters. The reference is a decoder
  of RFC 6455 server frames; the theory shows that each way to fill a response writes exactly
  the allocated block and that the decoder recovers opcode and payload.
\<close>

unbundle bit_operations_syntax

section \<open>State\<close>

record 'z ws_deflate =
  deflate_stream :: 'z
  deflate_init :: bool
  server_no_context_takeover :: bool

text \<open>The functions of zlib the response uses. \<open>deflate\<close> gets the stream, the input and the size
  of the output area; it returns whether the status is \<open>Z_OK\<close>, the number of input bytes it
  left, the output and the new stream.\<close>

record 'z zlib_deflate =
  deflateBound :: "'z \<Rightarrow> nat \<Rightarrow> nat"
  deflate :: "'z \<Rightarrow> char list \<Rightarrow> nat \<Rightarrow> bool \<times> nat \<times> char list \<times> 'z"
  deflateReset :: "'z \<Rightarrow> 'z"

record 'z websocketsresponse =
  frame_code :: nat
  body_data :: "char list option"
  body_pos :: nat
  body_size :: nat
  file_fd :: "int"
  file_pos :: nat
  file_size :: nat
  ws_deflate :: "'z ws_deflate option"

definition WS_COMPRESS_THRESHOLD :: nat where
  "WS_COMPRESS_THRESHOLD = 128"

section \<open>Building a frame\<close>

definition websocketsresponse_create :: "'z ws_deflate option \<Rightarrow> 'z websocketsresponse" where
  "websocketsresponse_create d =
     \<lparr>frame_code = 0, body_data = None, body_pos = 0, body_size = 0, file_fd = -1, file_pos = 0,
      file_size = 0, ws_deflate = d\<rparr>"

definition websocketsresponse_reset :: "'z websocketsresponse \<Rightarrow> 'z websocketsresponse" where
  "websocketsresponse_reset r =
     r\<lparr>frame_code := 0, body_pos := 0, body_size := 0, file_fd := -1, file_pos := 0, file_size := 0,
       body_data := None\<rparr>"

definition websocketsresponse_data_size :: "nat \<Rightarrow> nat" where
  "websocketsresponse_data_size n =
     1 + (if n \<le> 125 then 1 else if n \<le> 65535 then 3 else 9) + n"

definition websocketsresponse_file_size :: "nat \<Rightarrow> nat" where
  "websocketsresponse_file_size n =
     1 + (if n \<le> 125 then 1 else if n \<le> 65535 then 3 else 9)"

text \<open>The loop of the 64 bit length: the bytes are stored from the most significant one.\<close>

fun set_length_bytes :: "char list \<Rightarrow> nat \<Rightarrow> nat \<Rightarrow> nat list \<Rightarrow> (char list \<times> nat) option" where
  "set_length_bytes data p n [] = Some (data, p)"
| "set_length_bytes data p n (i # is) = do {
     data1 \<leftarrow> poke data p [char_of (drop_bit (8 * i) n AND 0xFF)];
     set_length_bytes data1 (p + 1) n is
   }"

definition websocketsresponse_set_payload_length ::
    "char list \<Rightarrow> nat \<Rightarrow> nat \<Rightarrow> (char list \<times> nat) option" where
  "websocketsresponse_set_payload_length data p payload_length =
     (if payload_length \<le> 125 then do {
        d1 \<leftarrow> poke data p [char_of payload_length];
        Some (d1, p + 1)
      }
      else if payload_length \<le> 65535 then do {
        d1 \<leftarrow> poke data p [char_of (126 :: nat)];
        d2 \<leftarrow> poke d1 (p + 1) [char_of (drop_bit 8 payload_length AND 0xFF)];
        d3 \<leftarrow> poke d2 (p + 2) [char_of (payload_length AND 0xFF)];
        Some (d3, p + 3)
      }
      else do {
        d1 \<leftarrow> poke data p [char_of (127 :: nat)];
        set_length_bytes d1 (p + 1) payload_length [7, 6, 5, 4, 3, 2, 1, 0]
      })"

text \<open>The result is \<open>False\<close> for the return of -1. \<open>body\<close> is \<open>None\<close> for a NULL pointer and
  otherwise the memory the pointer refers to.\<close>

definition websocketsresponse_prepare ::
    "allocator \<Rightarrow> 'z websocketsresponse \<Rightarrow> char list option \<Rightarrow> nat \<Rightarrow> (bool \<times> 'z websocketsresponse) option" where
  "websocketsresponse_prepare m r body n =
     (case malloc m (body_size r) of
        None \<Rightarrow> Some (False, r)
      | Some data \<Rightarrow> do {
          (_, d1, p1) \<leftarrow> data_append data 0 [char_of (frame_code r)];
          (d2, p2) \<leftarrow> websocketsresponse_set_payload_length d1 p1 n;
          d3 \<leftarrow> (case body of
                  None \<Rightarrow> Some d2
                | Some blk \<Rightarrow> do {
                    bytes \<leftarrow> peek blk 0 n;
                    (_, d3, p3) \<leftarrow> data_append d2 p2 bytes;
                    Some d3
                  });
          Some (True, r\<lparr>body_data := Some d3, body_pos := 0\<rparr>)
        })"

text \<open>\<open>__compress_and_send\<close>: the compressed payload without the sync-flush marker, in a frame with
  RSV1 set, when it is shorter than the payload.\<close>

definition ws_trailer :: "char list" where
  "ws_trailer = [CHR 0x00, CHR 0x00, CHR 0xFF, CHR 0xFF]"

definition strip_trailer :: "char list \<Rightarrow> char list" where
  "strip_trailer out =
     (if 4 \<le> length out \<and> drop (length out - 4) out = ws_trailer then take (length out - 4) out else out)"

definition ws_deflate_reset_deflate :: "'z zlib_deflate \<Rightarrow> 'z ws_deflate \<Rightarrow> 'z ws_deflate" where
  "ws_deflate_reset_deflate z d =
     (if deflate_init d \<and> server_no_context_takeover d
      then d\<lparr>deflate_stream := deflateReset z (deflate_stream d)\<rparr> else d)"

definition compress_and_send ::
    "allocator \<Rightarrow> 'z zlib_deflate \<Rightarrow> 'z websocketsresponse \<Rightarrow> 'z ws_deflate \<Rightarrow> nat \<Rightarrow> char list \<Rightarrow>
     (bool \<times> 'z websocketsresponse) option" where
  "compress_and_send m z r ctx opcode data =
     (if 2147483647 < length data then Some (False, r)
      else
        let comp_capacity = deflateBound z (deflate_stream ctx) (length data) + 8 in
        case malloc m comp_capacity of
          None \<Rightarrow> Some (False, r)
        | Some blk \<Rightarrow>
            let (ok, avail_in, out, stream) = deflate z (deflate_stream ctx) data comp_capacity;
                discard = ctx\<lparr>deflate_stream := deflateReset z stream\<rparr>;
                keep = ctx\<lparr>deflate_stream := stream\<rparr>
            in do {
              written \<leftarrow> poke blk 0 out;
              (if \<not> ok \<or> avail_in \<noteq> 0 \<or> length out = comp_capacity
               then Some (False, r\<lparr>ws_deflate := Some discard\<rparr>)
               else
                 let comp = strip_trailer out in
                 if length data \<le> length comp then Some (False, r\<lparr>ws_deflate := Some discard\<rparr>)
                 else do {
                   (result, r1) \<leftarrow> websocketsresponse_prepare m
                      (r\<lparr>frame_code := 0x80 OR 0x40 OR opcode,
                         body_size := websocketsresponse_data_size (length comp)\<rparr>)
                      (Some written) (length comp);
                   Some (if result
                         then (True, r1\<lparr>ws_deflate := Some (ws_deflate_reset_deflate z keep)\<rparr>)
                         else (False, r1\<lparr>ws_deflate := Some discard\<rparr>))
                 })
            })"

text \<open>\<open>websocketsresponse_textn\<close> and \<open>websocketsresponse_binaryn\<close> differ only in the opcode.\<close>

definition send_data ::
    "allocator \<Rightarrow> 'z zlib_deflate \<Rightarrow> 'z websocketsresponse \<Rightarrow> nat \<Rightarrow> char list option \<Rightarrow> nat \<Rightarrow>
     'z websocketsresponse option" where
  "send_data m z r opcode data n =
     (if data = None \<and> 0 < n then Some r
      else do {
        (sent, r1) \<leftarrow>
          (case (ws_deflate r, data) of
             (Some ctx, Some blk) \<Rightarrow>
               if deflate_init ctx \<and> WS_COMPRESS_THRESHOLD \<le> n
               then do { bytes \<leftarrow> peek blk 0 n; compress_and_send m z r ctx opcode bytes }
               else Some (False, r)
           | _ \<Rightarrow> Some (False, r));
        (if sent then Some r1
         else map_option snd (websocketsresponse_prepare m
                (r1\<lparr>frame_code := 0x80 OR opcode, body_size := websocketsresponse_data_size n\<rparr>) data n))
      })"

definition websocketsresponse_textn ::
    "allocator \<Rightarrow> 'z zlib_deflate \<Rightarrow> 'z websocketsresponse \<Rightarrow> char list option \<Rightarrow> nat \<Rightarrow> 'z websocketsresponse option" where
  "websocketsresponse_textn m z r data n = send_data m z r 0x01 data n"

definition websocketsresponse_binaryn ::
    "allocator \<Rightarrow> 'z zlib_deflate \<Rightarrow> 'z websocketsresponse \<Rightarrow> char list option \<Rightarrow> nat \<Rightarrow> 'z websocketsresponse option" where
  "websocketsresponse_binaryn m z r data n = send_data m z r 0x02 data n"

text \<open>The variants that measure a NUL-terminated text first, given without its terminator.\<close>

definition websocketsresponse_text ::
    "allocator \<Rightarrow> 'z zlib_deflate \<Rightarrow> 'z websocketsresponse \<Rightarrow> char list option \<Rightarrow> 'z websocketsresponse option" where
  "websocketsresponse_text m z r data =
     (case data of None \<Rightarrow> Some r | Some s \<Rightarrow> websocketsresponse_textn m z r (Some (s @ [nul])) (length s))"

definition websocketsresponse_binary ::
    "allocator \<Rightarrow> 'z zlib_deflate \<Rightarrow> 'z websocketsresponse \<Rightarrow> char list option \<Rightarrow> 'z websocketsresponse option" where
  "websocketsresponse_binary m z r data =
     (case data of None \<Rightarrow> Some r | Some s \<Rightarrow> websocketsresponse_binaryn m z r (Some (s @ [nul])) (length s))"

text \<open>\<open>WEBSOCKETS_TEXT\<close> is \<open>0x81\<close>; the reply has the type of the request.\<close>

definition websocketsresponse_datan ::
    "allocator \<Rightarrow> 'z zlib_deflate \<Rightarrow> nat \<Rightarrow> 'z websocketsresponse \<Rightarrow> char list option \<Rightarrow> nat \<Rightarrow> 'z websocketsresponse option" where
  "websocketsresponse_datan m z request_type r data n =
     (if request_type = 0x81 then websocketsresponse_textn m z r data n
      else websocketsresponse_binaryn m z r data n)"

definition websocketsresponse_default ::
    "allocator \<Rightarrow> 'z zlib_deflate \<Rightarrow> 'z websocketsresponse \<Rightarrow> char list option \<Rightarrow> 'z websocketsresponse option" where
  "websocketsresponse_default m z r txt = websocketsresponse_text m z (websocketsresponse_reset r) txt"

text \<open>\<open>websocketsresponse_pong\<close> and \<open>websocketsresponse_close\<close>.\<close>

definition send_control ::
    "allocator \<Rightarrow> 'z websocketsresponse \<Rightarrow> nat \<Rightarrow> char list option \<Rightarrow> nat \<Rightarrow> 'z websocketsresponse option" where
  "send_control m r code data n =
     (let n1 = (if data = None then 0 else n);
          n2 = (if 125 < n1 then 125 else n1)
      in map_option snd (websocketsresponse_prepare m
           ((websocketsresponse_reset r)\<lparr>frame_code := code, body_size := websocketsresponse_data_size n2\<rparr>)
           data n2))"

definition websocketsresponse_pong ::
    "allocator \<Rightarrow> 'z websocketsresponse \<Rightarrow> char list option \<Rightarrow> nat \<Rightarrow> 'z websocketsresponse option" where
  "websocketsresponse_pong m r data n = send_control m r 0x8A data n"

definition websocketsresponse_close ::
    "allocator \<Rightarrow> 'z websocketsresponse \<Rightarrow> char list option \<Rightarrow> nat \<Rightarrow> 'z websocketsresponse option" where
  "websocketsresponse_close m r data n = send_control m r 0x88 data n"

definition websocketsresponse_detach_body ::
    "'z websocketsresponse \<Rightarrow> (char list option \<times> nat) \<times> 'z websocketsresponse" where
  "websocketsresponse_detach_body r =
     ((body_data r, body_size r), r\<lparr>body_data := None, body_size := 0, body_pos := 0, frame_code := 0\<rparr>)"

definition websocketsresponse_set_body ::
    "'z websocketsresponse \<Rightarrow> char list option \<Rightarrow> nat \<Rightarrow> 'z websocketsresponse" where
  "websocketsresponse_set_body r data n = r\<lparr>body_data := data, body_size := n, body_pos := 0\<rparr>"

section \<open>Files\<close>

datatype file_status = FILE_OK | FILE_FORBIDDEN | FILE_NOTFOUND

datatype stat_result = Stat_EACCES | Stat_Error | Stat_Directory | Stat_Regular | Stat_Other

definition PATH_MAX :: nat where
  "PATH_MAX = 4096"

text \<open>\<open>stat\<close> reads the buffer as a NUL-terminated path.\<close>

definition stat_status :: "(char list \<Rightarrow> stat_result) \<Rightarrow> char list \<Rightarrow> file_status" where
  "stat_status stat path =
     (case stat (takeWhile (\<lambda>c. c \<noteq> nul) path) of
        Stat_EACCES \<Rightarrow> FILE_FORBIDDEN
      | Stat_Error \<Rightarrow> FILE_NOTFOUND
      | Stat_Directory \<Rightarrow> FILE_FORBIDDEN
      | Stat_Other \<Rightarrow> FILE_NOTFOUND
      | Stat_Regular \<Rightarrow> FILE_OK)"

definition get_file_full_path ::
    "(char list \<Rightarrow> stat_result) \<Rightarrow> char list \<Rightarrow> char list \<Rightarrow> char list \<Rightarrow> (file_status \<times> char list) option" where
  "get_file_full_path stat root file_full_path path =
     (if path = [] then Some (FILE_NOTFOUND, file_full_path)
      else if is_path_traversal path then Some (FILE_FORBIDDEN, file_full_path)
      else do {
        (ok1, d1, p1) \<leftarrow> data_appendn file_full_path 0 PATH_MAX root;
        (if \<not> ok1 then Some (FILE_NOTFOUND, d1)
         else do {
           (ok2, d2, p2) \<leftarrow> (if hd path \<noteq> CHR ''/'' then data_appendn d1 p1 PATH_MAX ''/''
                             else Some (True, d1, p1));
           (if \<not> ok2 then Some (FILE_NOTFOUND, d2)
            else do {
              (ok3, d3, p3) \<leftarrow> data_appendn d2 p2 PATH_MAX path;
              (if \<not> ok3 then Some (FILE_NOTFOUND, d3)
               else do {
                 d4 \<leftarrow> poke d3 p3 [nul];
                 Some (stat_status stat d4, d4)
               })
            })
         })
      })"

text \<open>\<open>open\<close> yields a descriptor (-1 on failure) and \<open>lseek\<close> to the end the size (-1 on failure).\<close>

definition websocketsresponse_filen ::
    "allocator \<Rightarrow> 'z zlib_deflate \<Rightarrow> (char list \<Rightarrow> stat_result) \<Rightarrow> (char list \<Rightarrow> int) \<Rightarrow> (int \<Rightarrow> int) \<Rightarrow>
     char list \<Rightarrow> char list \<Rightarrow> 'z websocketsresponse \<Rightarrow> char list \<Rightarrow> (int \<times> 'z websocketsresponse) option" where
  "websocketsresponse_filen m z stat os_open seek_end root scratch r path = do {
     (status, full) \<leftarrow> get_file_full_path stat root scratch path;
     (case status of
        FILE_FORBIDDEN \<Rightarrow>
          map_option (Pair (-1)) (websocketsresponse_default m z r (Some ''resource forbidden''))
      | FILE_NOTFOUND \<Rightarrow>
          map_option (Pair (-1)) (websocketsresponse_default m z r (Some ''resource not found''))
      | FILE_OK \<Rightarrow>
          let fd = os_open (takeWhile (\<lambda>c. c \<noteq> nul) full) in
          if fd = -1
          then map_option (Pair (-1)) (websocketsresponse_default m z r (Some ''resource not found''))
          else
            let fsize = seek_end fd in
            if fsize = -1
            then map_option (Pair (-1)) (websocketsresponse_default m z r (Some ''resource not found''))
            else
              let r1 = r\<lparr>file_fd := fd, file_pos := 0, file_size := nat fsize, frame_code := 0x82,
                         body_size := websocketsresponse_file_size (nat fsize)\<rparr>
              in map_option (\<lambda>(ok, r2). (if ok then 0 else -1, r2))
                   (websocketsresponse_prepare m r1 None (nat fsize)))
   }"

section \<open>Reference: the frames of RFC 6455, section 5.2\<close>

definition be_value :: "char list \<Rightarrow> nat" where
  "be_value bs = foldl (\<lambda>v b. v * 256 + ord b) 0 bs"

text \<open>The header of a frame without mask: the first byte, the payload length, the bytes behind.\<close>

definition ws_frame_header :: "char list \<Rightarrow> (nat \<times> nat \<times> char list) option" where
  "ws_frame_header bs =
     (case bs of
        b0 # b1 # rest \<Rightarrow>
          if ord b1 \<le> 125 then Some (ord b0, ord b1, rest)
          else if ord b1 = 126 \<and> 2 \<le> length rest
          then Some (ord b0, be_value (take 2 rest), drop 2 rest)
          else if ord b1 = 127 \<and> 8 \<le> length rest
          then Some (ord b0, be_value (take 8 rest), drop 8 rest)
          else None
      | _ \<Rightarrow> None)"

section \<open>Lemmas\<close>

definition length_byte :: "nat \<Rightarrow> nat \<Rightarrow> char" where
  "length_byte n i = char_of (n div 256 ^ i)"

definition ws_length :: "nat \<Rightarrow> char list" where
  "ws_length n =
     (if n \<le> 125 then [char_of n]
      else if n \<le> 65535 then char_of (126 :: nat) # map (length_byte n) [1, 0]
      else char_of (127 :: nat) # map (length_byte n) [7, 6, 5, 4, 3, 2, 1, 0])"

lemma and_255: "n AND 255 = n mod 256" for n :: nat
  using take_bit_eq_mask [of 8 n] by (simp add: take_bit_eq_mod mask_eq_exp_minus_1)

lemma char_of_mod_256 [simp]: "char_of (n mod 256 :: nat) = char_of n"
  by (simp add: char_of_def bit_simps flip: take_bit_eq_mod [where n = 8, simplified])

lemma length_byte_bits: "char_of (drop_bit (8 * i) n AND 0xFF) = length_byte n i"
  by (simp add: length_byte_def and_255 drop_bit_eq_div power_mult)

lemma set_length_bytes_spec:
  "length xs = p \<Longrightarrow> length is \<le> length zs \<Longrightarrow>
   set_length_bytes (xs @ zs) p n is =
     Some ((xs @ map (length_byte n) is) @ drop (length is) zs, p + length is)"
proof (induction "is" arbitrary: xs p zs)
  case (Cons i "is")
  have "set_length_bytes ((xs @ [length_byte n i]) @ drop 1 zs) (p + 1) n is =
      Some (((xs @ [length_byte n i]) @ map (length_byte n) is) @ drop (length is) (drop 1 zs),
        (p + 1) + length is)"
    using Cons.prems by (intro Cons.IH) auto
  then show ?case
    using Cons.prems by (simp add: length_byte_bits poke_next)
qed simp

lemma set_payload_length_spec:
  assumes "length xs = p" and "length (ws_length n) \<le> length zs"
  shows "websocketsresponse_set_payload_length (xs @ zs) p n =
           Some ((xs @ ws_length n) @ drop (length (ws_length n)) zs, p + length (ws_length n))"
proof -
  have "length_byte n 0 = char_of n" "char_of (drop_bit 8 n AND 0xFF) = length_byte n 1"
    using length_byte_bits [of 1 n] by (simp_all add: length_byte_def)
  moreover have "poke ((xs @ [a]) @ drop 1 zs) (p + 1) [b] = Some ((xs @ [a, b]) @ drop 2 zs)"
    "poke ((xs @ [a, b]) @ drop 2 zs) (p + 2) [c] = Some ((xs @ [a, b, c]) @ drop 3 zs)"
    if "3 \<le> length zs" for a b c
    using that assms(1) poke_next [of "xs @ [a]" "p + 1" "[b]" "drop 1 zs"]
      poke_next [of "xs @ [a, b]" "p + 2" "[c]" "drop 2 zs"]
    by (simp_all add: numeral_2_eq_2 numeral_3_eq_3)
  moreover have "set_length_bytes ((xs @ [a]) @ drop 1 zs) (p + 1) n [7, 6, 5, 4, 3, 2, 1, 0] =
      Some ((xs @ a # map (length_byte n) [7, 6, 5, 4, 3, 2, 1, 0]) @ drop 9 zs, p + 9)"
    if "9 \<le> length zs" for a
    using that assms(1) set_length_bytes_spec [of "xs @ [a]" "p + 1" "[7, 6, 5, 4, 3, 2, 1, 0]" "drop 1 zs" n]
    by (simp add: numeral_eq_Suc del: set_length_bytes.simps)
  ultimately show ?thesis
    using assms poke_next [OF assms(1), of "[char_of n]" zs] poke_next [OF assms(1), of "[char_of (126::nat)]" zs]
      poke_next [OF assms(1), of "[char_of (127::nat)]" zs]
    by (auto simp: websocketsresponse_set_payload_length_def ws_length_def and_255
        numeral_2_eq_2 [symmetric] simp del: set_length_bytes.simps)
qed

lemma be_value_digits:
  "foldl (\<lambda>v b. v * 256 + ord b) a (map (length_byte n) (rev [0..<k])) = a * 256 ^ k + n mod 256 ^ k"
proof (induction k arbitrary: a)
  case (Suc k)
  have "n mod 256 ^ Suc k = 256 ^ k * (n div 256 ^ k mod 256) + n mod 256 ^ k"
    using mod_mult2_eq [of n "256 ^ k" 256] by (simp add: mult.commute)
  moreover have "ord (length_byte n k) = n div 256 ^ k mod 256"
    by (simp add: length_byte_def)
  ultimately show ?case
    by (simp add: Suc.IH) (simp add: algebra_simps)
qed simp

lemma be_value_length:
  "n < 65536 \<Longrightarrow> be_value (map (length_byte n) [1, 0]) = n"
  "n < 2 ^ 64 \<Longrightarrow> be_value (map (length_byte n) [7, 6, 5, 4, 3, 2, 1, 0]) = n"
proof -
  have "rev [0..<2] = [1, 0 :: nat]" "rev [0..<8] = [7, 6, 5, 4, 3, 2, 1, 0 :: nat]"
    by code_simp+
  then show "n < 65536 \<Longrightarrow> be_value (map (length_byte n) [1, 0]) = n"
    "n < 2 ^ 64 \<Longrightarrow> be_value (map (length_byte n) [7, 6, 5, 4, 3, 2, 1, 0]) = n"
    using be_value_digits [of 0 n 2] be_value_digits [of 0 n 8] by (simp_all add: be_value_def)
qed

lemma ws_frame_header_encode:
  assumes "n < 2 ^ 64" and "code < 256"
  shows "ws_frame_header (char_of code # ws_length n @ rest) = Some (code, n, rest)"
  using assms be_value_length [of n] by (auto simp: ws_frame_header_def ws_length_def)

definition ws_header_length :: "nat \<Rightarrow> nat" where
  "ws_header_length n = Suc (length (ws_length n))"

lemma data_size_header:
  "websocketsresponse_data_size n = ws_header_length n + n"
  "websocketsresponse_file_size n = ws_header_length n"
  by (simp_all add: websocketsresponse_data_size_def websocketsresponse_file_size_def ws_header_length_def ws_length_def)

text \<open>Preparing a frame fills the allocated block to the last byte.\<close>

definition ws_body :: "nat \<Rightarrow> char list option \<Rightarrow> char list" where
  "ws_body n body = (case body of None \<Rightarrow> [] | Some blk \<Rightarrow> take n blk)"

lemma prepare_spec:
  assumes blk: "malloc m (body_size r) = Some data"
    and sz: "body_size r = ws_header_length n + length (ws_body n body)"
    and body: "\<And>blk. body = Some blk \<Longrightarrow> n \<le> length blk"
  shows "websocketsresponse_prepare m r body n =
           Some (True, r\<lparr>body_data := Some (char_of (frame_code r) # ws_length n @ ws_body n body), body_pos := 0\<rparr>)"
proof -
  let ?c = "char_of (frame_code r) :: char"
  have len: "length data = Suc (length (ws_length n) + length (ws_body n body))"
    using malloc_length [OF blk] sz by (simp add: ws_header_length_def)
  then have "poke data 0 [?c] = Some ([?c] @ drop 1 data)"
    using poke_next [of "[]" 0 "[?c]" data] by simp
  moreover have "websocketsresponse_set_payload_length ([?c] @ drop 1 data) 1 n =
      Some (([?c] @ ws_length n) @ drop (length (ws_length n)) (drop 1 data), 1 + length (ws_length n))"
    using len by (intro set_payload_length_spec) simp_all
  moreover have "poke (([?c] @ ws_length n) @ drop (length (ws_length n)) (drop 1 data)) (1 + length (ws_length n)) (ws_body n body) =
      Some ([?c] @ ws_length n @ ws_body n body)"
    using len poke_next [of "[?c] @ ws_length n" "1 + length (ws_length n)" "ws_body n body"
        "drop (length (ws_length n)) (drop 1 data)"] by simp
  moreover have "drop (length (ws_length n)) (drop 1 data) = []" if "body = None"
    using len that by (simp add: ws_body_def)
  ultimately show ?thesis
    using blk body by (cases body) (auto simp: websocketsresponse_prepare_def data_append_def ws_body_def peek_in)
qed

text \<open>What it means that a response carries a frame: the block is as long as announced, the
  whole of it is to be sent, and RFC 6455 reads it as this frame.\<close>

definition carries :: "'z websocketsresponse \<Rightarrow> nat \<Rightarrow> char list \<Rightarrow> bool" where
  "carries r code payload \<longleftrightarrow> (\<exists>d. body_data r = Some d \<and> body_size r = length d \<and> body_pos r = 0 \<and>
     ws_frame_header d = Some (code, length payload, payload))"

lemma carries_deflate [simp]: "carries (r\<lparr>ws_deflate := d\<rparr>) code payload = carries r code payload"
  by (simp add: carries_def)

lemma prepare_carries:
  assumes m: "never_fails m" and n: "n < 2 ^ 64" "n \<le> length blk" and code: "frame_code r < 256"
    and sz: "body_size r = websocketsresponse_data_size n"
  shows "returns (websocketsresponse_prepare m r (Some blk) n) (\<lambda>(ok, r'). ok \<and>
           carries r' (frame_code r) (take n blk) \<and> ws_deflate r' = ws_deflate r)"
proof -
  obtain data where "malloc m (body_size r) = Some data"
    using malloc_never_fails [OF m] by blast
  from prepare_spec [OF this, of n "Some blk"] assms show ?thesis
    by (auto simp: data_size_header ws_body_def carries_def ws_frame_header_encode ws_header_length_def)
qed

lemma prepare_empty_carries:
  assumes m: "never_fails m" and code: "frame_code r < 256" and sz: "body_size r = websocketsresponse_data_size 0"
  shows "returns (websocketsresponse_prepare m r None 0) (\<lambda>(ok, r'). ok \<and>
           carries r' (frame_code r) [] \<and> ws_deflate r' = ws_deflate r)"
proof -
  obtain data where "malloc m (body_size r) = Some data"
    using malloc_never_fails [OF m] by blast
  from prepare_spec [OF this, of 0 None] assms ws_frame_header_encode [of 0 "frame_code r" "[]"] show ?thesis
    by (auto simp: data_size_header ws_body_def carries_def ws_frame_header_encode ws_header_length_def)
qed

text \<open>The documented behaviour of \<open>deflate\<close> the code relies on: the output fits in the output
  area.\<close>

definition deflate_fits :: "'z zlib_deflate \<Rightarrow> bool" where
  "deflate_fits z \<longleftrightarrow> (\<forall>s data cap ok avail out s'.
     deflate z s data cap = (ok, avail, out, s') \<longrightarrow> length out \<le> cap)"

lemma strip_trailer_length: "length (strip_trailer out) \<le> length out"
  by (simp add: strip_trailer_def)

lemma strip_trailer_prefix: "take (length (strip_trailer out)) out = strip_trailer out"
  by (simp add: strip_trailer_def)

lemma compress_and_send_spec:
  assumes m: "never_fails m" and z: "deflate_fits z" and code: "opcode = 1 \<or> opcode = 2"
  shows "returns (compress_and_send m z r ctx opcode data) (\<lambda>(sent, r').
           if sent then \<exists>out s. deflate z (deflate_stream ctx) data
                  (deflateBound z (deflate_stream ctx) (length data) + 8) = (True, 0, out, s) \<and>
                length (strip_trailer out) < length data \<and>
                carries r' (0xC0 OR opcode) (strip_trailer out)
           else \<exists>d. r' = r\<lparr>ws_deflate := d\<rparr>)"
proof -
  let ?cap = "deflateBound z (deflate_stream ctx) (length data) + 8"
  obtain blk where blk: "malloc m ?cap = Some blk"
    using malloc_never_fails [OF m] by blast
  obtain ok avail out s where d: "deflate z (deflate_stream ctx) data ?cap = (ok, avail, out, s)"
    by (metis prod_cases4)
  have fits: "length out \<le> ?cap"
    using z d unfolding deflate_fits_def by blast
  define comp where "comp = strip_trailer out"
  define written where "written = out @ drop (length out) blk"
  have w: "poke blk 0 out = Some written"
    using fits malloc_length [OF blk] poke_next [of "[]" 0 out blk] by (simp add: written_def)
  have c: "take (length comp) written = comp" "length comp \<le> length written"
    using strip_trailer_length [of out] strip_trailer_prefix [of out] by (simp_all add: written_def comp_def)
  have code': "0x80 OR 0x40 OR opcode = 0xC0 OR opcode" "0xC0 OR opcode < 256"
    using code by auto
  show ?thesis
  proof (cases "2147483647 < length data \<or> \<not> ok \<or> avail \<noteq> 0 \<or> length out = ?cap \<or> length data \<le> length comp")
    case True
    then show ?thesis
      using blk d w by (auto simp: compress_and_send_def Let_def comp_def intro: exI [of _ "ws_deflate r"])
  next
    case False
    define r0 where "r0 = r\<lparr>frame_code := 0xC0 OR opcode, body_size := websocketsresponse_data_size (length comp)\<rparr>"
    have "length comp < 2 ^ 64"
      using False by simp
    then have "returns (websocketsresponse_prepare m r0 (Some written) (length comp)) (\<lambda>(ok, r'). ok \<and>
           carries r' (frame_code r0) (take (length comp) written) \<and> ws_deflate r' = ws_deflate r0)"
      using c code' by (intro prepare_carries [OF m]) (simp_all add: r0_def)
    then have p: "returns (websocketsresponse_prepare m r0 (Some written) (length comp)) (\<lambda>(ok, r'). ok \<and>
           carries r' (0xC0 OR opcode) comp)"
      using c by (auto simp: r0_def elim!: returns_mono)
    have "compress_and_send m z r ctx opcode data =
        Option.bind (websocketsresponse_prepare m r0 (Some written) (length comp)) (\<lambda>(result, r1).
          Some (if result
                then (True, r1\<lparr>ws_deflate := Some (ws_deflate_reset_deflate z (ctx\<lparr>deflate_stream := s\<rparr>))\<rparr>)
                else (False, r1\<lparr>ws_deflate := Some (ctx\<lparr>deflate_stream := deflateReset z s\<rparr>)\<rparr>)))"
      using False blk d w unfolding compress_and_send_def Let_def comp_def r0_def code'(1) by simp
    with p False d show ?thesis
      by (auto simp: comp_def elim!: returns_mono)
  qed
qed

lemma send_data_spec:
  assumes m: "never_fails m" and z: "deflate_fits z" and code: "opcode = 1 \<or> opcode = 2"
    and n: "n < 2 ^ 64" "n \<le> length blk"
  shows "returns (send_data m z r opcode (Some blk) n) (\<lambda>r'. carries r' (0x80 OR opcode) (take n blk) \<or>
           (\<exists>ctx out s. ws_deflate r = Some ctx \<and> deflate_init ctx \<and> WS_COMPRESS_THRESHOLD \<le> n \<and>
              deflate z (deflate_stream ctx) (take n blk) (deflateBound z (deflate_stream ctx) n + 8) = (True, 0, out, s) \<and>
              length (strip_trailer out) < n \<and> carries r' (0xC0 OR opcode) (strip_trailer out)))"
proof -
  have plain: "returns (websocketsresponse_prepare m
      (r1\<lparr>frame_code := 0x80 OR opcode, body_size := websocketsresponse_data_size n\<rparr>) (Some blk) n)
      (\<lambda>(ok, r'). carries r' (0x80 OR opcode) (take n blk))" for r1 :: "'a websocketsresponse"
    using prepare_carries [OF m n, of "r1\<lparr>frame_code := 0x80 OR opcode, body_size := websocketsresponse_data_size n\<rparr>"] code
    by (auto elim!: returns_mono)
  show ?thesis
  proof (cases "\<exists>ctx. ws_deflate r = Some ctx \<and> deflate_init ctx \<and> WS_COMPRESS_THRESHOLD \<le> n")
    case False
    then show ?thesis
      using plain [of r] by (auto simp: send_data_def elim!: returns_mono split: option.splits)
  next
    case True
    then obtain ctx where ctx: "ws_deflate r = Some ctx" "deflate_init ctx" "WS_COMPRESS_THRESHOLD \<le> n"
      by blast
    have ln: "length (take n blk) = n"
      using n by simp
    obtain sent r1 where c: "compress_and_send m z r ctx opcode (take n blk) = Some (sent, r1)"
      and spec: "if sent then \<exists>out s. deflate z (deflate_stream ctx) (take n blk)
                  (deflateBound z (deflate_stream ctx) n + 8) = (True, 0, out, s) \<and>
                length (strip_trailer out) < n \<and> carries r1 (0xC0 OR opcode) (strip_trailer out)
           else \<exists>d. r1 = r\<lparr>ws_deflate := d\<rparr>"
      using compress_and_send_spec [OF m z code, of r ctx "take n blk", unfolded ln]
      by (auto elim!: returnsE)
    show ?thesis
      using ctx c spec n plain [of r1]
      by (cases sent) (auto simp: send_data_def peek_in elim!: returns_mono)
  qed
qed

lemma send_control_spec:
  assumes m: "never_fails m" and n: "n \<le> length blk" and code: "code < 256"
  shows "returns (send_control m r code (Some blk) n) (\<lambda>r'. carries r' code (take (min n 125) blk))"
    and "returns (send_control m r code None n) (\<lambda>r'. carries r' code [])"
  using prepare_carries [OF m, of "min n 125" blk "(websocketsresponse_reset r)\<lparr>frame_code := code,
      body_size := websocketsresponse_data_size (min n 125)\<rparr>"] n code
    prepare_empty_carries [OF m, of "(websocketsresponse_reset r)\<lparr>frame_code := code,
      body_size := websocketsresponse_data_size 0\<rparr>"]
  by (auto simp: send_control_def Let_def min_def elim!: returns_mono split: if_splits)

text \<open>The path that is opened: the root, a slash if the path has none, the path.\<close>

definition ws_full_path :: "char list \<Rightarrow> char list \<Rightarrow> char list" where
  "ws_full_path root path = root @ (if hd path = CHR ''/'' then [] else ''/'') @ path"

lemma data_appendn_next:
  assumes "length xs = p" and "p + length zs = max_size"
  shows "data_appendn (xs @ zs) p max_size ys =
           Some (if length ys < length zs then (True, (xs @ ys) @ drop (length ys) zs, p + length ys)
                 else (False, xs @ zs, p))"
  using assms poke_next [OF assms(1), of ys zs] by (auto simp: data_appendn_def)

lemma takeWhile_nul: "nul \<notin> set xs \<Longrightarrow> takeWhile (\<lambda>c. c \<noteq> nul) (xs @ nul # zs) = xs"
  by (induction xs) auto

lemma get_file_full_path_spec:
  assumes len: "length scratch = PATH_MAX"
  shows "returns (get_file_full_path stat root scratch path) (\<lambda>(status, full).
           length full = PATH_MAX \<and>
           (if path \<noteq> [] \<and> \<not> is_path_traversal path \<and> length (ws_full_path root path) < PATH_MAX
            then \<exists>tail. full = ws_full_path root path @ nul # tail \<and> status = stat_status stat full
            else status \<noteq> FILE_OK))"
proof (cases "path = [] \<or> is_path_traversal path")
  case True
  with len show ?thesis
    by (auto simp: get_file_full_path_def)
next
  case False
  define sl where "sl = (if hd path = CHR ''/'' then [] else ''/'')"
  have a1: "data_appendn scratch 0 PATH_MAX root =
      Some (if length root < PATH_MAX then (True, root @ drop (length root) scratch, length root)
            else (False, scratch, 0))"
    using data_appendn_next [of "[]" 0 scratch PATH_MAX root] len by simp
  have a2: "(if hd path \<noteq> CHR ''/'' then data_appendn (root @ drop (length root) scratch) (length root) PATH_MAX ''/''
             else Some (True, root @ drop (length root) scratch, length root)) =
      Some (if length (root @ sl) < PATH_MAX then (True, (root @ sl) @ drop (length (root @ sl)) scratch, length (root @ sl))
            else (False, root @ drop (length root) scratch, length root))" if "length root < PATH_MAX"
    using data_appendn_next [of root "length root" "drop (length root) scratch" PATH_MAX "''/''"] len that
    by (auto simp: sl_def)
  have a3: "data_appendn ((root @ sl) @ drop (length (root @ sl)) scratch) (length (root @ sl)) PATH_MAX path =
      Some (if length (ws_full_path root path) < PATH_MAX
            then (True, ws_full_path root path @ drop (length (ws_full_path root path)) scratch, length (ws_full_path root path))
            else (False, (root @ sl) @ drop (length (root @ sl)) scratch, length (root @ sl)))"
    if "length (root @ sl) < PATH_MAX"
    using data_appendn_next [of "root @ sl" "length (root @ sl)" "drop (length (root @ sl)) scratch" PATH_MAX path] len that
    by (auto simp: ws_full_path_def sl_def add.commute add.left_commute)
  have a4: "poke (ws_full_path root path @ drop (length (ws_full_path root path)) scratch) (length (ws_full_path root path)) [nul] =
      Some (ws_full_path root path @ nul # drop (Suc (length (ws_full_path root path))) scratch)"
    if "length (ws_full_path root path) < PATH_MAX"
    using poke_next [of "ws_full_path root path" "length (ws_full_path root path)" "[nul]"
        "drop (length (ws_full_path root path)) scratch"] len that by simp
  have "length (root @ sl) \<le> length (ws_full_path root path)"
    by (simp add: ws_full_path_def sl_def)
  then show ?thesis
    using False len a1 a2 a3 a4 unfolding get_file_full_path_def
    by (cases "length root < PATH_MAX"; cases "length (root @ sl) < PATH_MAX";
        cases "length (ws_full_path root path) < PATH_MAX") simp_all
qed

section \<open>Properties\<close>

text \<open>Property C15. Every reply a handler sends is a well-formed RFC 6455 server frame whose
  payload is what was sent. A text or binary reply of any length below \<open>2 ^ 64\<close> is one final
  frame with this payload, or, only where compression was negotiated, the payload is at least
  128 bytes long and the compressed form is shorter, one final frame with RSV1 set and the
  compressor's complete output without the sync-flush marker. A pong or close frame carries
  the first 125 bytes at most. In each case the block that is sent has exactly the announced
  size, and no byte outside of it is written.\<close>

theorem websocketsresponse_frames:
  assumes "never_fails m" and "deflate_fits z" and "n < 2 ^ 64" and "n \<le> length blk"
  shows "returns (websocketsresponse_textn m z r (Some blk) n) (\<lambda>r'. carries r' 0x81 (take n blk) \<or>
           (\<exists>ctx out s. ws_deflate r = Some ctx \<and> deflate_init ctx \<and> WS_COMPRESS_THRESHOLD \<le> n \<and>
              deflate z (deflate_stream ctx) (take n blk) (deflateBound z (deflate_stream ctx) n + 8) = (True, 0, out, s) \<and>
              length (strip_trailer out) < n \<and> carries r' 0xC1 (strip_trailer out))) \<and>
         returns (websocketsresponse_binaryn m z r (Some blk) n) (\<lambda>r'. carries r' 0x82 (take n blk) \<or>
           (\<exists>ctx out s. ws_deflate r = Some ctx \<and> deflate_init ctx \<and> WS_COMPRESS_THRESHOLD \<le> n \<and>
              deflate z (deflate_stream ctx) (take n blk) (deflateBound z (deflate_stream ctx) n + 8) = (True, 0, out, s) \<and>
              length (strip_trailer out) < n \<and> carries r' 0xC2 (strip_trailer out))) \<and>
         returns (websocketsresponse_pong m r (Some blk) n) (\<lambda>r'. carries r' 0x8A (take (min n 125) blk)) \<and>
         returns (websocketsresponse_close m r (Some blk) n) (\<lambda>r'. carries r' 0x88 (take (min n 125) blk))"
  using send_data_spec [OF assms(1,2) _ assms(3,4), of 1 r] send_data_spec [OF assms(1,2) _ assms(3,4), of 2 r]
    send_control_spec(1) [OF assms(1,4), of "0x8A" r] send_control_spec(1) [OF assms(1,4), of "0x88" r]
  by (simp add: websocketsresponse_textn_def websocketsresponse_binaryn_def websocketsresponse_pong_def
      websocketsresponse_close_def)

text \<open>A compressor for the witness: it keeps every second byte.\<close>

fun halve :: "char list \<Rightarrow> char list" where
  "halve (a # b # xs) = a # halve xs"
| "halve xs = xs"

definition halving_zlib :: "unit zlib_deflate" where
  "halving_zlib = \<lparr>deflateBound = (\<lambda>_ n. n), deflate = (\<lambda>_ data cap. (True, 0, take cap (halve data), ())),
     deflateReset = id\<rparr>"

definition deflating_response :: "unit websocketsresponse" where
  "deflating_response = websocketsresponse_create
     (Some \<lparr>deflate_stream = (), deflate_init = True, server_no_context_takeover = False\<rparr>)"

theorem websocketsresponse_frames_witness:
  "returns (websocketsresponse_textn (total_allocator (\<lambda>_ _. nul)) halving_zlib deflating_response
     (Some (replicate 200 CHR ''a'')) 200) (\<lambda>r'. carries r' 0x81 (take 200 (replicate 200 CHR ''a'')) \<or>
       (\<exists>ctx out s. ws_deflate deflating_response = Some ctx \<and> deflate_init ctx \<and> WS_COMPRESS_THRESHOLD \<le> 200 \<and>
          deflate halving_zlib (deflate_stream ctx) (take 200 (replicate 200 CHR ''a''))
            (deflateBound halving_zlib (deflate_stream ctx) 200 + 8) = (True, 0, out, s) \<and>
          length (strip_trailer out) < 200 \<and> carries r' 0xC1 (strip_trailer out)))"
proof -
  have "deflate_fits halving_zlib"
    by (auto simp: deflate_fits_def halving_zlib_def)
  then show ?thesis
    using websocketsresponse_frames [of "total_allocator (\<lambda>_ _. nul)" halving_zlib 200
        "replicate 200 CHR ''a''" deflating_response] by simp
qed

text \<open>Property C25. Building the path of a file reply never writes outside the buffer of
  \<open>PATH_MAX\<close> bytes, whatever the lengths of root and path. The file is accepted only when the
  request path is not empty, has no parent-directory segment, the complete path with its
  terminator fits, and \<open>stat\<close> reports a regular file at exactly root, slash, path.\<close>

theorem get_file_full_path_safe:
  assumes "length scratch = PATH_MAX"
  shows "returns (get_file_full_path stat root scratch path) (\<lambda>(status, full).
           length full = PATH_MAX \<and>
           (status = FILE_OK \<longrightarrow> path \<noteq> [] \<and> ''..'' \<notin> set (path_segments [] path) \<and>
              length (ws_full_path root path) < PATH_MAX \<and>
              (nul \<notin> set (ws_full_path root path) \<longrightarrow>
                 takeWhile (\<lambda>c. c \<noteq> nul) full = ws_full_path root path \<and>
                 stat (ws_full_path root path) = Stat_Regular)))"
proof -
  have "is_path_traversal path \<longleftrightarrow> ''..'' \<in> set (path_segments [] path)"
    unfolding is_path_traversal_def by (rule is_path_traversal_loop_iff) (rule last_three_slash)
  moreover have "stat_status stat (xs @ nul # tail) = FILE_OK \<Longrightarrow> nul \<notin> set xs \<Longrightarrow> stat xs = Stat_Regular" for xs tail
    by (auto simp: stat_status_def takeWhile_nul split: stat_result.splits)
  ultimately show ?thesis
    using get_file_full_path_spec [OF assms, of stat root path]
    by (auto simp: takeWhile_nul elim!: returns_mono split: if_splits)
qed

theorem get_file_full_path_safe_witness:
  "length (replicate PATH_MAX nul) = PATH_MAX \<and>
   returns (get_file_full_path (\<lambda>_. Stat_Regular) ''/srv'' (replicate PATH_MAX nul) ''a.txt'') (\<lambda>(status, full).
     length full = PATH_MAX \<and>
     (status = FILE_OK \<longrightarrow> ''a.txt'' \<noteq> [] \<and> ''..'' \<notin> set (path_segments [] ''a.txt'') \<and>
        length (ws_full_path ''/srv'' ''a.txt'') < PATH_MAX \<and>
        (nul \<notin> set (ws_full_path ''/srv'' ''a.txt'') \<longrightarrow>
           takeWhile (\<lambda>c. c \<noteq> nul) full = ws_full_path ''/srv'' ''a.txt'' \<and>
           (\<lambda>_. Stat_Regular) (ws_full_path ''/srv'' ''a.txt'') = Stat_Regular)))"
  using get_file_full_path_safe [of "replicate PATH_MAX nul" "\<lambda>_. Stat_Regular" "''/srv''" "''a.txt''"]
  by (intro conjI) simp_all

end
