(* ===== verification/Ws_Parser.thy ===== *)
theory Ws_Parser
  imports Bufferdata Bufo Ws_Utf8
begin

text \<open>
  The parser of incoming WebSocket frames (protocols/websocket/server/parsers/websocketsparser.c)
  with the request object (websocketsrequest.c) and the default protocol that stores the
  payload in a temporary file (websocketsprotocoldefault.c). The state is the parser struct:
  the stage machine over the bytes of the read buffer, the frame header under construction, the
  control payload, the request of the data message in progress, the decompression window and
  the UTF-8 validator. What the code calls outside the repository is gathered in the record
  \<open>ws_env\<close>: allocation, the temporary file, the system calls on it and \<open>inflate\<close>. Allocations
  and releases of request objects are recorded in a trace, so that ownership can be stated.
\<close>

unbundle bit_operations_syntax

section \<open>State\<close>

datatype ws_status =
    WSPARSER_ERROR | WSPARSER_CONTINUE | WSPARSER_OUT_OF_MEMORY | WSPARSER_BAD_REQUEST
  | WSPARSER_HOST_NOT_FOUND | WSPARSER_PAYLOAD_LARGE | WSPARSER_HANDLE_AND_CONTINUE | WSPARSER_COMPLETE

definition WSOPCODE_CONTINUE :: nat where "WSOPCODE_CONTINUE = 0x00"

definition WSOPCODE_TEXT :: nat where "WSOPCODE_TEXT = 0x01"

definition WSOPCODE_BINARY :: nat where "WSOPCODE_BINARY = 0x02"

definition WSOPCODE_CLOSE :: nat where "WSOPCODE_CLOSE = 0x08"

definition WSOPCODE_PING :: nat where "WSOPCODE_PING = 0x09"

definition WSOPCODE_PONG :: nat where "WSOPCODE_PONG = 0x0A"

lemmas opcode_defs =
  WSOPCODE_CONTINUE_def WSOPCODE_TEXT_def WSOPCODE_BINARY_def WSOPCODE_CLOSE_def WSOPCODE_PING_def
  WSOPCODE_PONG_def

definition WEBSOCKETS_NONE :: nat where "WEBSOCKETS_NONE = 0"

definition WEBSOCKETS_TEXT :: nat where "WEBSOCKETS_TEXT = 0x81"

datatype ws_stage =
    WSPARSER_STAGE_FIRST_BYTE | WSPARSER_STAGE_SECOND_BYTE | WSPARSER_STAGE_PAYLOAD_LEN_126
  | WSPARSER_STAGE_PAYLOAD_LEN_127 | WSPARSER_STAGE_MASK_KEY | WSPARSER_STAGE_PAYLOAD
  | WSPARSER_STAGE_CONTROL_PAYLOAD

record websockets_frame =
  fin :: nat
  rsv1 :: nat
  rsv2 :: nat
  rsv3 :: nat
  opcode :: nat
  masked :: nat
  mask :: "char list"
  payload_length :: nat

text \<open>The request with the payload of its protocol object: \<open>None\<close> for the descriptor -1, otherwise
  the content of the temporary file.\<close>

record websocketsrequest =
  req_type :: nat
  can_reset :: bool
  fragmented :: bool
  compressed :: bool
  payload :: "char list option"

datatype ws_event = Request_Created | Request_Freed

datatype write_result = Wrote nat | Write_Interrupted | Write_Failed

datatype inflate_status = Z_OK | Z_STREAM_END | Z_BUF_ERROR | Z_OTHER

text \<open>
  The environment. \<open>create_ok\<close> says whether the allocations of a protocol object and of a request
  succeed, \<open>tmpfile_ok\<close> whether the temporary file can be created, \<open>lseek_ok\<close> whether its size can
  be read. \<open>os_write\<close> gets the number of calls made before in the same loop, the content of the
  file and the bytes to write. \<open>inflate\<close> gets the stream and the input; it returns the status, the
  number of input bytes consumed, the output (with \<open>WS_DEFLATE_BUFFER_SIZE\<close> bytes of room) and
  the new stream.
\<close>

record 'z ws_env =
  client_max_body_size :: nat
  alloc :: allocator
  protocol_ok :: bool
  create_ok :: bool
  tmpfile_ok :: bool
  lseek_ok :: bool
  os_write :: "nat \<Rightarrow> char list \<Rightarrow> char list \<Rightarrow> write_result"
  inflate :: "'z \<Rightarrow> char list \<Rightarrow> inflate_status \<times> nat \<times> char list \<times> 'z"
  inflateReset :: "'z \<Rightarrow> 'z"

record 'z websocketsparser =
  stage :: ws_stage
  frame :: websockets_frame
  buf :: bufferdata
  bytes_readed :: nat
  pos_start :: nat
  parser_pos :: nat
  payload_index :: nat
  payload_saved_length :: nat
  message_fragmented :: bool
  buffer :: "char list"
  request :: "websocketsrequest option"
  ws_deflate_enabled :: bool
  inflate_stream :: 'z
  inflate_init :: bool
  client_no_context_takeover :: bool
  compressed_buf :: bufo
  compressed_buffered :: nat
  compressed_consumed :: nat
  decompressed_total :: nat
  utf8_validator :: ws_utf8_validator
  events :: "ws_event list"

definition WS_DEFLATE_BUFFER_SIZE :: nat where
  "WS_DEFLATE_BUFFER_SIZE = 16384"

section \<open>Requests\<close>

definition websocketsrequest_create :: "'z ws_env \<Rightarrow> websocketsrequest option" where
  "websocketsrequest_create e =
     (if create_ok e
      then Some \<lparr>req_type = WEBSOCKETS_NONE, can_reset = True, fragmented = False, compressed = False,
                 payload = None\<rparr>
      else None)"

definition log_event :: "ws_event \<Rightarrow> 'z websocketsparser \<Rightarrow> 'z websocketsparser" where
  "log_event ev p = p\<lparr>events := events p @ [ev]\<rparr>"

definition websocketsrequest_free :: "'z websocketsparser \<Rightarrow> 'z websocketsparser" where
  "websocketsrequest_free p = log_event Request_Freed p"

section \<open>Initialisation and reset\<close>

definition websockets_frame_init :: "websockets_frame \<Rightarrow> websockets_frame" where
  "websockets_frame_init f =
     f\<lparr>fin := 0, rsv1 := 0, rsv2 := 0, rsv3 := 0, opcode := 0, masked := 0,
       mask := [nul, nul, nul, nul], payload_length := 0\<rparr>"

definition websocketsparser_init :: "'z websocketsparser \<Rightarrow> 'z websocketsparser option" where
  "websocketsparser_init p = do {
     b \<leftarrow> bufferdata_init (buf p);
     Some (p\<lparr>stage := WSPARSER_STAGE_FIRST_BYTE, bytes_readed := 0, pos_start := 0, parser_pos := 0,
             payload_index := 0, payload_saved_length := 0, message_fragmented := False,
             request := None, compressed_buf := bufo_init (compressed_buf p),
             compressed_buffered := 0, compressed_consumed := 0, decompressed_total := 0,
             utf8_validator := ws_utf8_validator_reset (utf8_validator p),
             frame := websockets_frame_init (frame p), buf := b\<rparr>)
   }"

definition websocketsparser_flush :: "'z websocketsparser \<Rightarrow> 'z websocketsparser option" where
  "websocketsparser_flush p = do {
     b \<leftarrow> bufferdata_reset ((buf p)\<lparr>dynamic_buffer := None\<rparr>);
     Some (p\<lparr>stage := WSPARSER_STAGE_FIRST_BYTE, bytes_readed := 0, pos_start := 0, parser_pos := 0,
             payload_index := 0, payload_saved_length := 0, message_fragmented := False,
             request := None, frame := websockets_frame_init (frame p),
             compressed_buf := bufo_flush (compressed_buf p),
             compressed_buffered := 0, compressed_consumed := 0, decompressed_total := 0, buf := b\<rparr>)
   }"

definition websocketsparser_reset :: "'z websocketsparser \<Rightarrow> 'z websocketsparser option" where
  "websocketsparser_reset p = websocketsparser_flush p"

definition ws_clear :: "'z websocketsparser \<Rightarrow> 'z websocketsparser option" where
  "ws_clear p =
     websocketsparser_reset
       (if request p \<noteq> None then (websocketsrequest_free p)\<lparr>request := None\<rparr> else p)"

definition clear_and_return ::
    "'z websocketsparser \<Rightarrow> ws_status \<Rightarrow> (ws_status \<times> 'z websocketsparser) option" where
  "clear_and_return p error = map_option (Pair error) (ws_clear p)"

definition websocketsparser_set_bytes_readed :: "'z websocketsparser \<Rightarrow> nat \<Rightarrow> 'z websocketsparser" where
  "websocketsparser_set_bytes_readed p n = p\<lparr>bytes_readed := n\<rparr>"

section \<open>The payload of data frames\<close>

definition byte_xor :: "char \<Rightarrow> char \<Rightarrow> char" where
  "byte_xor a b = char_of (ord a XOR ord b)"

text \<open>The masking loop: the index runs on over the chunks of one frame.\<close>

fun unmask :: "char list \<Rightarrow> nat \<Rightarrow> char list \<Rightarrow> char list" where
  "unmask key i [] = []"
| "unmask key i (c # cs) = byte_xor c (key ! (i mod 4)) # unmask key (i + 1) cs"

text \<open>The loop that writes a chunk to the file. \<open>None\<close> is a loop that never ends, which happens
  when \<open>write\<close> is interrupted for ever.\<close>

partial_function (option) write_loop ::
    "'z ws_env \<Rightarrow> nat \<Rightarrow> char list \<Rightarrow> char list \<Rightarrow> (bool \<times> char list) option" where
  "write_loop e k file string =
     (if string = [] then Some (True, file)
      else case os_write e k file string of
             Write_Failed \<Rightarrow> Some (False, file)
           | Write_Interrupted \<Rightarrow> write_loop e (k + 1) file string
           | Wrote r \<Rightarrow>
               if r = 0 then Some (False, file)
               else write_loop e (k + 1) (file @ take r string) (drop r string))"

definition websockets_create_tmpfile :: "'z ws_env \<Rightarrow> websocketsrequest \<Rightarrow> bool \<times> websocketsrequest" where
  "websockets_create_tmpfile e r =
     (if payload r \<noteq> None then (True, r)
      else if tmpfile_ok e then (True, r\<lparr>payload := Some []\<rparr>) else (False, r))"

text \<open>The part of \<open>websockets_protocol_default_payload_parse\<close> behind the unmasking: \<open>string\<close> are
  the bytes to store.\<close>

definition payload_store ::
    "'z ws_env \<Rightarrow> 'z websocketsparser \<Rightarrow> char list \<Rightarrow> (bool \<times> 'z websocketsparser) option" where
  "payload_store e p string =
     (if string = [] then Some (True, p)
      else do {
        r \<leftarrow> request p;
        let (ok, r1) = websockets_create_tmpfile e r;
        let p1 = p\<lparr>request := Some r1\<rparr>;
        (if \<not> ok then Some (False, p1)
         else if \<not> lseek_ok e then Some (False, p1)
         else do {
           file \<leftarrow> payload r1;
           (if client_max_body_size e < szadd (length file) (length string) then Some (False, p1)
            else do {
              (done, file1) \<leftarrow> write_loop e 0 file string;
              Some (done, p1\<lparr>request := Some (r1\<lparr>payload := Some file1\<rparr>)\<rparr>)
            })
         })
      })"

text \<open>\<open>websockets_protocol_default_payload_parse\<close> with unmasking: \<open>size\<close> bytes of the read buffer
  are unmasked in place and stored. The result includes the unmasked bytes.\<close>

definition payload_parse_masked ::
    "'z ws_env \<Rightarrow> 'z websocketsparser \<Rightarrow> nat \<Rightarrow> nat \<Rightarrow> (bool \<times> char list \<times> 'z websocketsparser) option" where
  "payload_parse_masked e p i n = do {
     string \<leftarrow> peek (buffer p) i n;
     let plain = unmask (mask (frame p)) (payload_index p) string;
     buffer1 \<leftarrow> poke (buffer p) i plain;
     (ok, p1) \<leftarrow> payload_store e
        (p\<lparr>buffer := buffer1, payload_index := payload_index p + n\<rparr>) plain;
     Some (ok, plain, p1)
   }"

definition websocketsparser_text_feed_ok ::
    "'z websocketsparser \<Rightarrow> char list \<Rightarrow> (bool \<times> 'z websocketsparser) option" where
  "websocketsparser_text_feed_ok p data = do {
     r \<leftarrow> request p;
     (if req_type r \<noteq> WEBSOCKETS_TEXT then Some (True, p)
      else let (ok, v) = ws_utf8_validator_feed (utf8_validator p) data
           in Some (ok, p\<lparr>utf8_validator := v\<rparr>))
   }"

definition websocketsparser_text_finish_ok :: "'z websocketsparser \<Rightarrow> bool" where
  "websocketsparser_text_finish_ok p =
     (case request p of
        None \<Rightarrow> True
      | Some r \<Rightarrow> if req_type r \<noteq> WEBSOCKETS_TEXT then True
                  else ws_utf8_validator_finish (utf8_validator p))"

section \<open>Decompression\<close>

text \<open>One round of the loop of \<open>websocketsparser_decompress_chunk\<close> behind \<open>inflate\<close>: \<open>out\<close> has been
  produced and is delivered.\<close>

definition deliver_inflated ::
    "'z ws_env \<Rightarrow> 'z websocketsparser \<Rightarrow> char list \<Rightarrow> (bool \<times> 'z websocketsparser) option" where
  "deliver_inflated e p out =
     (if out = [] then Some (True, p)
      else if client_max_body_size e < szadd (decompressed_total p) (length out) then Some (False, p)
      else do {
        (ok, p1) \<leftarrow> websocketsparser_text_feed_ok
           (p\<lparr>decompressed_total := szadd (decompressed_total p) (length out)\<rparr>) out;
        (if \<not> ok then Some (False, p1) else payload_store e p1 out)
      })"

text \<open>The loop. \<open>input\<close> are the \<open>avail_in\<close> bytes at \<open>next_in\<close>; the output goes to the area
  behind the buffered input.\<close>

function inflate_loop ::
    "'z ws_env \<Rightarrow> 'z websocketsparser \<Rightarrow> char list \<Rightarrow> (bool \<times> 'z websocketsparser) option" where
  "inflate_loop e p input =
     (if input = [] then Some (True, p)
      else
        let (status, used, out, stream) = inflate e (inflate_stream p) input;
            p1 = p\<lparr>inflate_stream := stream\<rparr>
        in do {
          blk \<leftarrow> bdata (compressed_buf p);
          blk1 \<leftarrow> poke blk (compressed_buffered p) out;
          let p2 = p1\<lparr>compressed_buf := (compressed_buf p)\<lparr>bdata := Some blk1\<rparr>\<rparr>;
          (if status = Z_OTHER then Some (False, p2)
           else do {
             (ok, p3) \<leftarrow> deliver_inflated e p2 out;
             (if \<not> ok then Some (False, p3)
              else
                let p4 = p3\<lparr>compressed_consumed := compressed_consumed p3 + used\<rparr>
                in if status = Z_STREAM_END then Some (True, p4)
                   else if used = 0 then Some (True, p4)
                   else inflate_loop e p4 (drop used input))
           })
        })"
  by pat_completeness auto
termination
  by (relation "measure (\<lambda>(e, p, input). length input)") auto

declare inflate_loop.simps [simp del]

definition ws_deflate_reset_inflate :: "'z ws_env \<Rightarrow> 'z websocketsparser \<Rightarrow> 'z websocketsparser" where
  "ws_deflate_reset_inflate e p =
     (if inflate_init p \<and> client_no_context_takeover p
      then p\<lparr>inflate_stream := inflateReset e (inflate_stream p)\<rparr> else p)"

text \<open>The input window: the bytes \<open>inflate\<close> has left over are moved to the front, the new chunk
  is unmasked behind them, and the flush trailer is appended to the last chunk.\<close>

definition compressed_window ::
    "'z websocketsparser \<Rightarrow> char list \<Rightarrow> char list \<Rightarrow> bool \<Rightarrow> 'z websocketsparser option" where
  "compressed_window p blk data is_final = do {
     let backlog = compressed_buffered p - compressed_consumed p;
     blk1 \<leftarrow> (if 0 < compressed_consumed p then memmove blk 0 (compressed_consumed p) backlog else Some blk);
     let start = (if 0 < compressed_consumed p then backlog else compressed_buffered p);
     blk2 \<leftarrow> poke blk1 start (unmask (mask (frame p)) (payload_index p) data);
     blk3 \<leftarrow> (if is_final
              then poke blk2 (start + length data) [CHR 0x00, CHR 0x00, CHR 0xFF, CHR 0xFF] else Some blk2);
     Some (p\<lparr>compressed_consumed := 0,
             compressed_buffered := start + length data + (if is_final then 4 else 0),
             payload_index := payload_index p + length data,
             compressed_buf := (compressed_buf p)\<lparr>bdata := Some blk3\<rparr>\<rparr>)
   }"

definition websocketsparser_decompress_chunk ::
    "'z ws_env \<Rightarrow> 'z websocketsparser \<Rightarrow> char list \<Rightarrow> bool \<Rightarrow> (bool \<times> 'z websocketsparser) option" where
  "websocketsparser_decompress_chunk e p data is_final = do {
     let backlog = compressed_buffered p - compressed_consumed p;
     let trailer = (if is_final then 4 else 0);
     (ok, b) \<leftarrow> bufo_ensure_capacity (alloc e) (compressed_buf p)
        (backlog + length data + trailer + WS_DEFLATE_BUFFER_SIZE);
     let p1 = p\<lparr>compressed_buf := b\<rparr>;
     (if \<not> ok then Some (False, p1)
      else do {
        blk \<leftarrow> bdata b;
        p2 \<leftarrow> compressed_window p1 blk data is_final;
        blk2 \<leftarrow> bdata (compressed_buf p2);
        input \<leftarrow> peek blk2 (compressed_consumed p2) (compressed_buffered p2 - compressed_consumed p2);
        (ok, p3) \<leftarrow> inflate_loop e p2 input;
        Some (ok, if ok \<and> is_final then ws_deflate_reset_inflate e p3 else p3)
      })
   }"

section \<open>The header of a frame\<close>

definition websocketsparser_is_control_frame :: "websockets_frame \<Rightarrow> bool" where
  "websocketsparser_is_control_frame f \<longleftrightarrow>
     opcode f = WSOPCODE_CLOSE \<or> opcode f = WSOPCODE_PING \<or> opcode f = WSOPCODE_PONG"

text \<open>The bytes \<open>string[0], ..., string[n - 1]\<close> of the collecting buffer.\<close>

definition buf_bytes :: "'z ws_env \<Rightarrow> 'z websocketsparser \<Rightarrow> nat \<Rightarrow> (char list \<times> 'z websocketsparser) option" where
  "buf_bytes e p n = do {
     (s, b) \<leftarrow> bufferdata_get (alloc e) (buf p);
     string \<leftarrow> s;
     bytes \<leftarrow> peek string 0 n;
     Some (bytes, p\<lparr>buf := b\<rparr>)
   }"

definition known_opcode :: "nat \<Rightarrow> bool" where
  "known_opcode k \<longleftrightarrow> k = WSOPCODE_CONTINUE \<or> k = WSOPCODE_TEXT \<or> k = WSOPCODE_BINARY \<or>
     k = WSOPCODE_CLOSE \<or> k = WSOPCODE_PING \<or> k = WSOPCODE_PONG"

definition first_byte_frame :: "websockets_frame \<Rightarrow> nat \<Rightarrow> websockets_frame" where
  "first_byte_frame f c =
     f\<lparr>fin := drop_bit 7 c AND 1, rsv1 := drop_bit 6 c AND 1, rsv2 := drop_bit 5 c AND 1,
       rsv3 := drop_bit 4 c AND 1, opcode := c AND 0x0F\<rparr>"

text \<open>The data-frame part of \<open>websocketsparser_parse_first_byte\<close>: the request is created on the
  first frame of a message.\<close>

definition open_request :: "'z ws_env \<Rightarrow> 'z websocketsparser \<Rightarrow> 'z websocketsparser" where
  "open_request e p =
     (if request p = None
      then if protocol_ok e
           then case websocketsrequest_create e of
                  None \<Rightarrow> p
                | Some r \<Rightarrow> log_event Request_Created (p\<lparr>request := Some r\<rparr>)
           else p
      else p)"

definition start_message :: "'z websocketsparser \<Rightarrow> websocketsrequest \<Rightarrow> bool \<times> 'z websocketsparser" where
  "start_message p r =
     (if rsv1 (frame p) \<noteq> 0 \<and> \<not> ws_deflate_enabled p then (False, p)
      else
        let r1 = (if rsv1 (frame p) \<noteq> 0 then r\<lparr>compressed := True\<rparr> else r);
            r2 = (if req_type r1 = WEBSOCKETS_NONE then r1\<lparr>req_type := opcode (frame p) + 0x80\<rparr> else r1);
            fragments = (fin (frame p) = 0)
        in (True, p\<lparr>message_fragmented := fragments, request := Some (r2\<lparr>fragmented := fragments\<rparr>)\<rparr>))"

definition websocketsparser_parse_first_byte ::
    "'z ws_env \<Rightarrow> 'z websocketsparser \<Rightarrow> (bool \<times> 'z websocketsparser) option" where
  "websocketsparser_parse_first_byte e p = do {
     (bytes, p0) \<leftarrow> buf_bytes e p 1;
     let f = first_byte_frame (frame p0) (ord (hd bytes));
     let p1 = p0\<lparr>frame := f\<rparr>;
     Some
       (if \<not> known_opcode (opcode f) then (False, p1)
        else if rsv2 f \<noteq> 0 \<or> rsv3 f \<noteq> 0 then (False, p1)
        else if websocketsparser_is_control_frame f
        then if fin f = 0 then (False, p1) else if rsv1 f \<noteq> 0 then (False, p1) else (True, p1)
        else if opcode f = WSOPCODE_CONTINUE \<and> (\<not> message_fragmented p1 \<or> rsv1 f \<noteq> 0) then (False, p1)
        else if opcode f \<noteq> WSOPCODE_CONTINUE \<and> message_fragmented p1 then (False, p1)
        else
          let p2 = open_request e p1
          in case request p2 of None \<Rightarrow> (False, p2) | Some r \<Rightarrow> start_message p2 r)
   }"

definition websocketsparser_parse_second_byte ::
    "'z ws_env \<Rightarrow> 'z websocketsparser \<Rightarrow> (bool \<times> 'z websocketsparser) option" where
  "websocketsparser_parse_second_byte e p = do {
     (bytes, p1) \<leftarrow> buf_bytes e p 1;
     let c = ord (hd bytes);
     let f = (frame p1)\<lparr>masked := drop_bit 7 c AND 1, payload_length := c AND 0x7F\<rparr>;
     Some (masked f \<noteq> 0, p1\<lparr>frame := f\<rparr>)
   }"

definition length_step :: "nat \<Rightarrow> char \<Rightarrow> nat" where
  "length_step n c = take_bit 64 (push_bit 8 n) OR ord c"

definition websocketsparser_set_payload_length ::
    "'z ws_env \<Rightarrow> 'z websocketsparser \<Rightarrow> nat \<Rightarrow> (bool \<times> 'z websocketsparser) option" where
  "websocketsparser_set_payload_length e p byte_count = do {
     (bytes, p1) \<leftarrow> buf_bytes e p byte_count;
     Some (True, p1\<lparr>frame := (frame p1)\<lparr>payload_length := foldl length_step 0 bytes\<rparr>\<rparr>)
   }"

definition websocketsparser_parse_payload_length_126 ::
    "'z ws_env \<Rightarrow> 'z websocketsparser \<Rightarrow> (bool \<times> 'z websocketsparser) option" where
  "websocketsparser_parse_payload_length_126 e p = websocketsparser_set_payload_length e p 2"

definition websocketsparser_parse_payload_length_127 ::
    "'z ws_env \<Rightarrow> 'z websocketsparser \<Rightarrow> (bool \<times> 'z websocketsparser) option" where
  "websocketsparser_parse_payload_length_127 e p = websocketsparser_set_payload_length e p 8"

definition websocketsparser_parse_mask ::
    "'z ws_env \<Rightarrow> 'z websocketsparser \<Rightarrow> (bool \<times> 'z websocketsparser) option" where
  "websocketsparser_parse_mask e p = do {
     (bytes, p1) \<leftarrow> buf_bytes e p 4;
     Some (True, p1\<lparr>frame := (frame p1)\<lparr>mask := bytes\<rparr>,
                    stage := (if websocketsparser_is_control_frame (frame p1)
                              then WSPARSER_STAGE_CONTROL_PAYLOAD else WSPARSER_STAGE_PAYLOAD)\<rparr>)
   }"

section \<open>The stage machine\<close>

text \<open>The delivery step of \<open>websocketsparser_parse_payload\<close>: \<open>size\<close> bytes at the cursor are
  decompressed or unmasked, stored, and checked.\<close>

definition deliver_payload ::
    "'z ws_env \<Rightarrow> 'z websocketsparser \<Rightarrow> nat \<Rightarrow> bool \<Rightarrow> (bool \<times> 'z websocketsparser) option" where
  "deliver_payload e p n is_final = do {
     r \<leftarrow> request p;
     (if compressed r then do {
        data \<leftarrow> peek (buffer p) (parser_pos p) n;
        websocketsparser_decompress_chunk e p data (is_final \<and> fin (frame p) \<noteq> 0)
      }
      else do {
        (ok, plain, p1) \<leftarrow> payload_parse_masked e p (parser_pos p) n;
        (if \<not> ok then Some (False, p1) else websocketsparser_text_feed_ok p1 plain)
      })
   }"

definition websocketsparser_parse_payload ::
    "'z ws_env \<Rightarrow> 'z websocketsparser \<Rightarrow> (ws_status \<times> 'z websocketsparser) option" where
  "websocketsparser_parse_payload e p = do {
     let avail = szsub (bytes_readed p) (parser_pos p);
     let has_data_for_next_request = payload_length (frame p) < szadd avail (payload_saved_length p);
     let n = (if has_data_for_next_request
              then szsub (payload_length (frame p)) (payload_saved_length p) else avail);
     (if client_max_body_size e < szadd (payload_saved_length p) n
      then clear_and_return p WSPARSER_PAYLOAD_LARGE
      else do {
        let p1 = p\<lparr>payload_saved_length := szadd (payload_saved_length p) n\<rparr>;
        let is_final = (payload_saved_length p1 = payload_length (frame p1));
        (ok, p2) \<leftarrow> deliver_payload e p1 n is_final;
        (if \<not> ok then clear_and_return p2 WSPARSER_ERROR
         else if has_data_for_next_request
         then let p3 = p2\<lparr>parser_pos := parser_pos p2 + n\<rparr>
              in if fin (frame p3) \<noteq> 0 \<and> \<not> websocketsparser_text_finish_ok p3
                 then clear_and_return p3 WSPARSER_ERROR
                 else Some (WSPARSER_HANDLE_AND_CONTINUE, p3)
         else if \<not> is_final then Some (WSPARSER_CONTINUE, p2)
         else if fin (frame p2) \<noteq> 0
         then if \<not> websocketsparser_text_finish_ok p2 then clear_and_return p2 WSPARSER_ERROR
              else Some (WSPARSER_COMPLETE, p2)
         else Some (WSPARSER_HANDLE_AND_CONTINUE, p2))
      })
   }"

definition frame_end :: "'z websocketsparser \<Rightarrow> ws_status \<times> 'z websocketsparser" where
  "frame_end p =
     (let has_remaining = (parser_pos p + 1 < bytes_readed p)
      in if fin (frame p) \<noteq> 0 \<and> \<not> message_fragmented p \<and> \<not> has_remaining
         then (WSPARSER_COMPLETE, p)
         else (WSPARSER_HANDLE_AND_CONTINUE, p\<lparr>parser_pos := parser_pos p + 1\<rparr>))"

definition push_byte :: "'z ws_env \<Rightarrow> 'z websocketsparser \<Rightarrow> char \<Rightarrow> 'z websocketsparser option" where
  "push_byte e p ch = map_option (\<lambda>(_, b). p\<lparr>buf := b\<rparr>) (bufferdata_push (alloc e) (buf p) ch)"

definition complete_buf :: "'z ws_env \<Rightarrow> 'z websocketsparser \<Rightarrow> 'z websocketsparser option" where
  "complete_buf e p = map_option (\<lambda>(_, b). p\<lparr>buf := b\<rparr>) (bufferdata_complete (alloc e) (buf p))"

definition reset_buf :: "'z websocketsparser \<Rightarrow> 'z websocketsparser option" where
  "reset_buf p = map_option (\<lambda>b. p\<lparr>buf := b\<rparr>) (bufferdata_reset (buf p))"

text \<open>
  The cases of the switch in \<open>websocketsparser_run\<close>. The first component of a result is the
  status with which the function returns, or \<open>None\<close> when the loop goes on with the next byte.
\<close>

definition stage_first_byte ::
    "'z ws_env \<Rightarrow> 'z websocketsparser \<Rightarrow> char \<Rightarrow> (ws_status option \<times> 'z websocketsparser) option" where
  "stage_first_byte e p ch = do {
     p1 \<leftarrow> push_byte e p ch;
     p2 \<leftarrow> complete_buf e (p1\<lparr>stage := WSPARSER_STAGE_SECOND_BYTE\<rparr>);
     (ok, p3) \<leftarrow> websocketsparser_parse_first_byte e p2;
     (if \<not> ok then map_option (apfst Some) (clear_and_return p3 WSPARSER_BAD_REQUEST)
      else map_option (Pair None) (reset_buf p3))
   }"

definition stage_second_byte ::
    "'z ws_env \<Rightarrow> 'z websocketsparser \<Rightarrow> char \<Rightarrow> (ws_status option \<times> 'z websocketsparser) option" where
  "stage_second_byte e p ch = do {
     p1 \<leftarrow> push_byte e p ch;
     p2 \<leftarrow> complete_buf e p1;
     (ok, p3) \<leftarrow> websocketsparser_parse_second_byte e p2;
     (if \<not> ok then map_option (apfst Some) (clear_and_return p3 WSPARSER_BAD_REQUEST)
      else
        let next = (if payload_length (frame p3) = 126 then WSPARSER_STAGE_PAYLOAD_LEN_126
                    else if payload_length (frame p3) = 127 then WSPARSER_STAGE_PAYLOAD_LEN_127
                    else WSPARSER_STAGE_MASK_KEY)
        in map_option (Pair None) (reset_buf (p3\<lparr>stage := next\<rparr>)))
   }"

text \<open>\<open>PAYLOAD_LEN_126\<close> and \<open>PAYLOAD_LEN_127\<close> differ in the number of bytes and in the function
  that reads them.\<close>

definition stage_payload_len ::
    "'z ws_env \<Rightarrow> nat \<Rightarrow> ('z websocketsparser \<Rightarrow> (bool \<times> 'z websocketsparser) option) \<Rightarrow>
     'z websocketsparser \<Rightarrow> char \<Rightarrow> (ws_status option \<times> 'z websocketsparser) option" where
  "stage_payload_len e n parse p ch =
     (if websocketsparser_is_control_frame (frame p)
      then map_option (apfst Some) (clear_and_return p WSPARSER_BAD_REQUEST)
      else do {
        p1 \<leftarrow> push_byte e p ch;
        (if bufferdata_writed (buf p1) < n then Some (None, p1)
         else do {
           p2 \<leftarrow> complete_buf e (p1\<lparr>stage := WSPARSER_STAGE_MASK_KEY\<rparr>);
           (ok, p3) \<leftarrow> parse p2;
           (if \<not> ok then map_option (apfst Some) (clear_and_return p3 WSPARSER_BAD_REQUEST)
            else map_option (Pair None) (reset_buf p3))
         })
      })"

definition stage_mask_key ::
    "'z ws_env \<Rightarrow> 'z websocketsparser \<Rightarrow> char \<Rightarrow> (ws_status option \<times> 'z websocketsparser) option" where
  "stage_mask_key e p ch = do {
     p1 \<leftarrow> push_byte e p ch;
     (if bufferdata_writed (buf p1) < 4 then Some (None, p1)
      else do {
        p2 \<leftarrow> complete_buf e p1;
        (ok, p3) \<leftarrow> websocketsparser_parse_mask e p2;
        (if \<not> ok then map_option (apfst Some) (clear_and_return p3 WSPARSER_BAD_REQUEST)
         else do {
           p4 \<leftarrow> reset_buf p3;
           (if payload_length (frame p4) = 0 then Some (apfst Some (frame_end p4)) else Some (None, p4))
         })
      })
   }"

definition stage_control_payload ::
    "'z ws_env \<Rightarrow> 'z websocketsparser \<Rightarrow> char \<Rightarrow> (ws_status option \<times> 'z websocketsparser) option" where
  "stage_control_payload e p ch = do {
     let p1 = p\<lparr>payload_saved_length := payload_saved_length p + 1\<rparr>;
     let at_end = (payload_saved_length p1 = payload_length (frame p1));
     let ch1 = byte_xor ch (mask (frame p1) ! (payload_index p1 mod 4));
     p2 \<leftarrow> push_byte e (p1\<lparr>payload_index := payload_index p1 + 1\<rparr>) ch1;
     (if at_end then do {
        p3 \<leftarrow> complete_buf e p2;
        Some (apfst Some (frame_end p3))
      }
      else Some (None, p2))
   }"

definition ws_step ::
    "'z ws_env \<Rightarrow> 'z websocketsparser \<Rightarrow> char \<Rightarrow> (ws_status option \<times> 'z websocketsparser) option" where
  "ws_step e p ch =
     (case stage p of
        WSPARSER_STAGE_FIRST_BYTE \<Rightarrow> stage_first_byte e p ch
      | WSPARSER_STAGE_SECOND_BYTE \<Rightarrow> stage_second_byte e p ch
      | WSPARSER_STAGE_PAYLOAD_LEN_126 \<Rightarrow>
          stage_payload_len e 2 (websocketsparser_parse_payload_length_126 e) p ch
      | WSPARSER_STAGE_PAYLOAD_LEN_127 \<Rightarrow>
          stage_payload_len e 8 (websocketsparser_parse_payload_length_127 e) p ch
      | WSPARSER_STAGE_MASK_KEY \<Rightarrow> stage_mask_key e p ch
      | WSPARSER_STAGE_CONTROL_PAYLOAD \<Rightarrow> stage_control_payload e p ch
      | WSPARSER_STAGE_PAYLOAD \<Rightarrow> map_option (apfst Some) (websocketsparser_parse_payload e p))"

text \<open>The loop over the bytes of the read buffer.\<close>

partial_function (option) ws_loop ::
    "'z ws_env \<Rightarrow> 'z websocketsparser \<Rightarrow> (ws_status \<times> 'z websocketsparser) option" where
  "ws_loop e p =
     (if parser_pos p < bytes_readed p
      then do {
        ch \<leftarrow> peek (buffer p) (parser_pos p) 1;
        (r, p1) \<leftarrow> ws_step e p (hd ch);
        (case r of
           Some status \<Rightarrow> Some (status, p1)
         | None \<Rightarrow> ws_loop e (p1\<lparr>parser_pos := parser_pos p1 + 1\<rparr>))
      }
      else Some (WSPARSER_CONTINUE, p))"

definition websocketsparser_run ::
    "'z ws_env \<Rightarrow> 'z websocketsparser \<Rightarrow> (ws_status \<times> 'z websocketsparser) option" where
  "websocketsparser_run e p =
     (if stage p = WSPARSER_STAGE_PAYLOAD then websocketsparser_parse_payload e p
      else ws_loop e (p\<lparr>parser_pos := pos_start p\<rparr>))"

definition websocketsparser_prepare_remains :: "'z websocketsparser \<Rightarrow> 'z websocketsparser option" where
  "websocketsparser_prepare_remains p =
     (let p1 = (if \<not> websocketsparser_is_control_frame (frame p) \<and> fin (frame p) \<noteq> 0
                then p\<lparr>compressed_buffered := 0, compressed_consumed := 0, decompressed_total := 0,
                       utf8_validator := ws_utf8_validator_reset (utf8_validator p)\<rparr>
                else p)
      in map_option (\<lambda>b.
           p1\<lparr>buf := b, frame := websockets_frame_init (frame p1), stage := WSPARSER_STAGE_FIRST_BYTE,
              pos_start := parser_pos p1, payload_index := 0, payload_saved_length := 0,
              request := (if request p1 = None \<or> \<not> message_fragmented p1 then None else request p1),
              compressed_buf := bufo_flush (compressed_buf p1)\<rparr>)
         (bufferdata_clear (buf p1)))"

definition websocketsparser_create ::
    "'z websocketsparser \<Rightarrow> char list \<Rightarrow> 'z websocketsparser option" where
  "websocketsparser_create p connection_buffer =
     map_option (\<lambda>p1. p1\<lparr>ws_deflate_enabled := False, inflate_init := False,
                        client_no_context_takeover := False, buffer := connection_buffer\<rparr>)
       (websocketsparser_init p)"

end
