(* ===== verification/Ws_Safety.thy ===== *)
theory Ws_Safety
  imports Ws_Parser
begin

text \<open>
  The invariant of the WebSocket parser. Whatever bytes arrive, in whatever pieces, every access of
  the parser stays inside its buffers, the request is present where the code dereferences it, the
  loops end, and the stored payload never exceeds the configured limit.
\<close>

section \<open>The collecting buffer\<close>

text \<open>The parser collects at most 125 bytes, so its buffer never leaves the static block.\<close>

lemma push_byte_static:
  assumes "holds_static (buf p) xs" and "length xs < BUFFERDATA_CAPACITY"
  shows "\<exists>b. push_byte e p c = Some (p\<lparr>buf := b\<rparr>) \<and> holds_static b (xs @ [c])"
  using holds_static_push [OF assms, of "alloc e" c] by (auto simp: push_byte_def)

lemma complete_buf_static: "holds_static (buf p) xs \<Longrightarrow> complete_buf e p = Some p"
  by (simp add: complete_buf_def holds_static_complete)

lemma buf_bytes_static:
  assumes "holds_static (buf p) xs" and "n \<le> length xs"
  shows "buf_bytes e p n = Some (take n xs, p)"
proof -
  have "take n (static_buffer (buf p)) = take n xs"
    using holds_static_get(2) [OF assms(1)] assms(2) unfolding holds_cstring_def
    by (metis min.absorb1 take_take)
  moreover have "n \<le> length (static_buffer (buf p))"
    using holds_static_get(2) [OF assms(1)] assms(2) by (simp add: holds_cstring_def)
  ultimately show ?thesis
    by (simp add: buf_bytes_def holds_static_get(1) [OF assms(1)] peek_def)
qed

lemma reset_buf_static:
  assumes "holds_static (buf p) xs"
  shows "\<exists>b. reset_buf p = Some (p\<lparr>buf := b\<rparr>) \<and> holds_static b []"
  using holds_static_reset(1) [OF assms] by (auto simp: reset_buf_def)

section \<open>The environment\<close>

text \<open>What the code relies on: the limit of a message is not absurdly large, \<open>write\<close> is not
  interrupted for ever, and \<open>inflate\<close> keeps to its input and to its output area.\<close>

definition ws_env_ok :: "'z ws_env \<Rightarrow> bool" where
  "ws_env_ok e \<longleftrightarrow> client_max_body_size e < 2 ^ 63 \<and>
     (\<forall>k file string. \<exists>j\<ge>k. os_write e j file string \<noteq> Write_Interrupted) \<and>
     (\<forall>z input status used out z'. inflate e z input = (status, used, out, z') \<longrightarrow>
        length out \<le> WS_DEFLATE_BUFFER_SIZE \<and> used \<le> length input)"

section \<open>Storing the payload\<close>

lemma write_now:
  assumes IH: "\<And>s k f. length s < length string \<Longrightarrow> returns (write_loop e k f s) (\<lambda>(ok, f').
           \<exists>n. f' = f @ take n s \<and> (ok \<longrightarrow> f' = f @ s))"
    and now: "\<not> (string \<noteq> [] \<and> os_write e k f string = Write_Interrupted)"
  shows "returns (write_loop e k f string) (\<lambda>(ok, f').
           \<exists>n. f' = f @ take n string \<and> (ok \<longrightarrow> f' = f @ string))"
proof (cases "string = []")
  case True
  then show ?thesis
    by (simp add: write_loop.simps)
next
  case False
  have stop: "\<exists>n. take n string = []"
    by (rule exI [of _ 0]) simp
  show ?thesis
  proof (cases "os_write e k f string")
    case (Wrote r)
    show ?thesis
    proof (cases "r = 0")
      case True
      with Wrote False stop show ?thesis
        by (subst write_loop.simps) auto
    next
      case r: False
      have "returns (write_loop e (k + 1) (f @ take r string) (drop r string)) (\<lambda>(ok, f').
           \<exists>n. f' = (f @ take r string) @ take n (drop r string) \<and>
             (ok \<longrightarrow> f' = (f @ take r string) @ drop r string))"
        using False r by (intro IH) simp
      then show ?thesis
        using Wrote False r
        by (subst write_loop.simps) (auto simp: take_add [symmetric] elim!: returns_mono)
    qed
  next
    case Write_Failed
    with False stop show ?thesis
      by (subst write_loop.simps) auto
  qed (use False now in simp)
qed

lemma write_loop_returns:
  assumes fair: "\<And>k f string. \<exists>j\<ge>k. os_write e j f string \<noteq> Write_Interrupted"
  shows "returns (write_loop e k f string) (\<lambda>(ok, f').
           \<exists>n. f' = f @ take n string \<and> (ok \<longrightarrow> f' = f @ string))"
proof (induction "length string" arbitrary: k f string rule: less_induct)
  case less
  obtain j where j: "k \<le> j" "os_write e j f string \<noteq> Write_Interrupted"
    using fair by blast
  then show ?case
  proof (induction "j - k" arbitrary: k)
    case (Suc d)
    show ?case
    proof (cases "string \<noteq> [] \<and> os_write e k f string = Write_Interrupted")
      case True
      have "d = j - (k + 1)" and "k + 1 \<le> j"
        using Suc.hyps(2) by simp_all
      then show ?thesis
        using True Suc.hyps(1) [of "k + 1"] Suc.prems(2) by (subst write_loop.simps) simp
    next
      case False
      then show ?thesis
        by (rule write_now [rotated]) (rule less.hyps)
    qed
  next
    case 0
    then have "\<not> (string \<noteq> [] \<and> os_write e k f string = Write_Interrupted)"
      by simp
    then show ?case
      by (rule write_now [rotated]) (rule less.hyps)
  qed
qed

definition stored :: "websocketsrequest \<Rightarrow> char list" where
  "stored r = (case payload r of None \<Rightarrow> [] | Some f \<Rightarrow> f)"

definition request_ok :: "'z ws_env \<Rightarrow> websocketsrequest \<Rightarrow> bool" where
  "request_ok e r \<longleftrightarrow> length (stored r) \<le> client_max_body_size e"

text \<open>Two states of one request: only the stored payload differs.\<close>

definition same_request :: "websocketsrequest \<Rightarrow> websocketsrequest \<Rightarrow> bool" where
  "same_request r r' \<longleftrightarrow> req_type r' = req_type r \<and> compressed r' = compressed r \<and> fragmented r' = fragmented r"

lemma same_request_refl [simp]: "same_request r r"
  by (simp add: same_request_def)

lemma same_request_trans: "same_request r1 r2 \<Longrightarrow> same_request r2 r3 \<Longrightarrow> same_request r1 r3"
  by (simp add: same_request_def)

lemma payload_store_spec:
  assumes env: "ws_env_ok e" and r: "request p = Some r" "request_ok e r" and len: "length string < 2 ^ 63"
  shows "returns (payload_store e p string) (\<lambda>(ok, p'). \<exists>r'. p' = p\<lparr>request := Some r'\<rparr> \<and>
           same_request r r' \<and> request_ok e r' \<and> (ok \<longrightarrow> stored r' = stored r @ string))"
proof (cases "string = []")
  case True
  with r show ?thesis
    by (auto simp: payload_store_def intro!: exI [of _ r])
next
  case False
  obtain ok r1 where t: "websockets_create_tmpfile e r = (ok, r1)"
    by fastforce
  have r1: "stored r1 = stored r" "same_request r r1" "ok \<Longrightarrow> payload r1 = Some (stored r)"
    using t by (auto simp: websockets_create_tmpfile_def stored_def same_request_def split: if_splits)
  show ?thesis
  proof (cases "\<not> ok \<or> \<not> lseek_ok e \<or> client_max_body_size e < szadd (length (stored r)) (length string)")
    case True
    then have "payload_store e p string = Some (False, p\<lparr>request := Some r1\<rparr>)"
      using False t r(1) r1(3) by (cases ok) (auto simp: payload_store_def Let_def)
    moreover have "request_ok e r1"
      using r r1(1) by (simp add: request_ok_def)
    ultimately show ?thesis
      using r1(2) by (auto intro!: exI [of _ r1])
  next
    case ok: False
    obtain fair: "\<And>k f s. \<exists>j\<ge>k. os_write e j f s \<noteq> Write_Interrupted"
      and mx: "client_max_body_size e < 2 ^ 63"
      using env by (simp add: ws_env_ok_def)
    obtain d f where w: "write_loop e 0 (stored r) string = Some (d, f)"
      and wn: "\<exists>n. f = stored r @ take n string \<and> (d \<longrightarrow> f = stored r @ string)"
      by (rule returns_pairE [OF write_loop_returns [OF fair, of 0 "stored r" string]])
    from wn obtain n where n: "f = stored r @ take n string" and complete: "d \<Longrightarrow> f = stored r @ string"
      by blast
    have "length (stored r) + length string \<le> client_max_body_size e"
      using ok mx len r(2) szadd_exact [of "length (stored r)" "length string"]
      by (simp add: request_ok_def size_modulus_def)
    then have "request_ok e (r1\<lparr>payload := Some f\<rparr>)"
      using n by (simp add: request_ok_def stored_def)
    moreover have "same_request r (r1\<lparr>payload := Some f\<rparr>)" "stored (r1\<lparr>payload := Some f\<rparr>) = f"
      using r1(2) by (simp_all add: same_request_def stored_def)
    moreover have "payload_store e p string = Some (d, p\<lparr>request := Some (r1\<lparr>payload := Some f\<rparr>)\<rparr>)"
      using ok False t r(1) r1(3) w by (simp add: payload_store_def Let_def)
    ultimately show ?thesis
      using complete by (auto intro!: exI [of _ "r1\<lparr>payload := Some f\<rparr>"])
  qed
qed

section \<open>The decompression window\<close>

definition window_ok :: "'z websocketsparser \<Rightarrow> bool" where
  "window_ok p \<longleftrightarrow> bufo_ok (compressed_buf p) \<and> compressed_consumed p \<le> compressed_buffered p \<and>
     compressed_buffered p \<le> capacity (compressed_buf p)"

text \<open>How many requests the parser has created and neither freed nor still holds: the number of
  requests it has handed over.\<close>

definition handed_over :: "'z websocketsparser \<Rightarrow> int" where
  "handed_over p = int (count_list (events p) Request_Created) - int (count_list (events p) Request_Freed) -
     (if request p = None then 0 else 1)"

text \<open>What the delivery of payload bytes keeps of the state.\<close>

definition delivery :: "'z ws_env \<Rightarrow> 'z websocketsparser \<Rightarrow> 'z websocketsparser \<Rightarrow> bool" where
  "delivery e p p' \<longleftrightarrow>
     stage p' = stage p \<and> frame p' = frame p \<and> buf p' = buf p \<and> bytes_readed p' = bytes_readed p \<and>
     pos_start p' = pos_start p \<and> parser_pos p' = parser_pos p \<and>
     payload_saved_length p' = payload_saved_length p \<and> message_fragmented p' = message_fragmented p \<and>
     length (buffer p') = length (buffer p) \<and> events p' = events p \<and> window_ok p' \<and>
     (\<exists>r r'. request p = Some r \<and> request p' = Some r' \<and> same_request r r' \<and> request_ok e r')"

lemma delivery_trans: "delivery e p1 p2 \<Longrightarrow> delivery e p2 p3 \<Longrightarrow> delivery e p1 p3"
  unfolding delivery_def using same_request_trans by fastforce

lemma delivery_refl: "window_ok p \<Longrightarrow> request p = Some r \<Longrightarrow> request_ok e r \<Longrightarrow> delivery e p p"
  by (simp add: delivery_def)

lemma text_feed_delivery:
  assumes "window_ok p" and "request p = Some r" and "request_ok e r"
  shows "returns (websocketsparser_text_feed_ok p data) (\<lambda>(ok, p'). delivery e p p' \<and>
           compressed_buf p' = compressed_buf p \<and> compressed_buffered p' = compressed_buffered p \<and>
           compressed_consumed p' = compressed_consumed p)"
  using assms by (auto simp: websocketsparser_text_feed_ok_def delivery_def window_ok_def split: prod.splits)

lemma store_delivery:
  assumes "ws_env_ok e" and "window_ok p" and "request p = Some r" and "request_ok e r"
    and "length string < 2 ^ 63"
  shows "returns (payload_store e p string) (\<lambda>(ok, p'). delivery e p p' \<and>
           compressed_buf p' = compressed_buf p \<and> compressed_buffered p' = compressed_buffered p \<and>
           compressed_consumed p' = compressed_consumed p)"
  using payload_store_spec [OF assms(1,3,4,5)] assms(2,3)
  by (auto simp: delivery_def window_ok_def elim!: returns_mono)

lemma deliver_inflated_delivery:
  assumes env: "ws_env_ok e" and w: "window_ok p" and r: "request p = Some r" "request_ok e r"
    and len: "length out \<le> WS_DEFLATE_BUFFER_SIZE"
  shows "returns (deliver_inflated e p out) (\<lambda>(ok, p'). delivery e p p' \<and>
           compressed_buf p' = compressed_buf p \<and> compressed_buffered p' = compressed_buffered p \<and>
           compressed_consumed p' = compressed_consumed p)"
proof (cases "out = [] \<or> client_max_body_size e < szadd (decompressed_total p) (length out)")
  case True
  then show ?thesis
    using delivery_refl [OF w r] by (auto simp: deliver_inflated_def)
next
  case False
  let ?p = "p\<lparr>decompressed_total := szadd (decompressed_total p) (length out)\<rparr>"
  have p: "delivery e p ?p" "window_ok ?p" "request ?p = Some r"
    using w r by (simp_all add: delivery_def window_ok_def)
  obtain ok p1 where f: "websocketsparser_text_feed_ok ?p out = Some (ok, p1)" and d: "delivery e ?p p1"
    and same: "compressed_buf p1 = compressed_buf p" "compressed_buffered p1 = compressed_buffered p"
      "compressed_consumed p1 = compressed_consumed p"
    using text_feed_delivery [OF p(2,3) r(2), of out] by (auto elim!: returnsE)
  obtain r1 where r1: "request p1 = Some r1" "request_ok e r1" and w1: "window_ok p1"
    using d by (auto simp: delivery_def)
  have "length out < 2 ^ 63"
    using len by (simp add: WS_DEFLATE_BUFFER_SIZE_def)
  from store_delivery [OF env w1 r1 this] show ?thesis
    using False f same delivery_trans [OF p(1) d] delivery_trans [OF delivery_trans [OF p(1) d]]
    by (auto simp: deliver_inflated_def elim!: returns_mono)
qed

lemma bufo_ok_write:
  assumes "bufo_ok b" and "bdata b = Some blk" and "length blk' = length blk"
  shows "bufo_ok (b\<lparr>bdata := Some blk'\<rparr>)"
  using assms by (simp add: bufo_ok_def)

lemma inflate_loop_delivery:
  assumes env: "ws_env_ok e" and "bufo_ok (compressed_buf p)"
    and "compressed_buffered p + WS_DEFLATE_BUFFER_SIZE \<le> capacity (compressed_buf p)"
    and "compressed_consumed p + length input \<le> compressed_buffered p"
    and "request p = Some r" "request_ok e r"
  shows "returns (inflate_loop e p input) (\<lambda>(ok, p'). delivery e p p')"
  using assms(2-)
proof (induction "length input" arbitrary: p input r rule: less_induct)
  case less
  have w: "window_ok p"
    using less.prems by (simp add: window_ok_def)
  show ?case
  proof (cases "input = []")
    case True
    then show ?thesis
      using delivery_refl [OF w less.prems(4,5)] by (simp add: inflate_loop.simps)
  next
    case False
    obtain status used out z where i: "inflate e (inflate_stream p) input = (status, used, out, z)"
      by (metis prod_cases4)
    then have o: "length out \<le> WS_DEFLATE_BUFFER_SIZE" "used \<le> length input"
      using env unfolding ws_env_ok_def by blast+
    obtain blk where blk: "bdata (compressed_buf p) = Some blk" "length blk = capacity (compressed_buf p)"
      using less.prems(1,2) by (auto simp: bufo_ok_def WS_DEFLATE_BUFFER_SIZE_def split: option.splits)
    obtain blk1 where blk1: "poke blk (compressed_buffered p) out = Some blk1" "length blk1 = length blk"
      using less.prems(2) o(1) blk(2) by (simp add: poke_def)
    define p2 where "p2 = p\<lparr>inflate_stream := z, compressed_buf := (compressed_buf p)\<lparr>bdata := Some blk1\<rparr>\<rparr>"
    have p2: "delivery e p p2" "window_ok p2" "request p2 = Some r"
      using w less.prems(4,5) bufo_ok_write [OF less.prems(1) blk(1) blk1(2)]
      by (simp_all add: p2_def delivery_def window_ok_def)
    obtain ok p3 where d: "deliver_inflated e p2 out = Some (ok, p3)" "delivery e p2 p3"
      and same: "compressed_buf p3 = compressed_buf p2" "compressed_buffered p3 = compressed_buffered p2"
      "compressed_consumed p3 = compressed_consumed p2"
      using deliver_inflated_delivery [OF env p2(2,3) less.prems(5) o(1)] by (auto elim!: returnsE)
    define p4 where "p4 = p3\<lparr>compressed_consumed := compressed_consumed p3 + used\<rparr>"
    have "bufo_ok (compressed_buf p2)"
      using p2(2) by (simp add: window_ok_def)
    then have w4: "bufo_ok (compressed_buf p4)"
      "compressed_buffered p4 + WS_DEFLATE_BUFFER_SIZE \<le> capacity (compressed_buf p4)"
      "compressed_consumed p4 + length (drop used input) \<le> compressed_buffered p4"
      using less.prems(2,3) o(2) same by (simp_all add: p4_def p2_def)
    then have "delivery e p3 p4"
      using d(2) by (auto simp: delivery_def p4_def window_ok_def)
    then have p4: "delivery e p p4"
      using delivery_trans p2(1) d(2) by blast
    obtain r4 where r4: "request p4 = Some r4" "request_ok e r4"
      using p4 by (auto simp: delivery_def)
    have step: "inflate_loop e p input =
       (if status = Z_OTHER then Some (False, p2)
        else if \<not> ok then Some (False, p3)
        else if status = Z_STREAM_END \<or> used = 0 then Some (True, p4)
        else inflate_loop e p4 (drop used input))"
      using False i blk(1) blk1(1) d(1)
      by (subst inflate_loop.simps) (simp add: Let_def p2_def [symmetric] p4_def [symmetric])
    have "0 < used \<Longrightarrow> returns (inflate_loop e p4 (drop used input)) (\<lambda>(ok, p'). delivery e p4 p')"
      using False w4 r4 by (intro less.hyps) auto
    then show ?thesis
      unfolding step using p2(1) delivery_trans [OF p2(1) d(2)] p4 delivery_trans [OF p4]
      by (auto elim!: returns_mono)
  qed
qed

lemma unmask_length [simp]: "length (unmask key i xs) = length xs"
  by (induction xs arbitrary: i) simp_all

lemma decompress_delivery:
  assumes env: "ws_env_ok e" and w: "window_ok p" and r: "request p = Some r" "request_ok e r"
  shows "returns (websocketsparser_decompress_chunk e p data is_final) (\<lambda>(ok, p'). delivery e p p')"
proof -
  let ?backlog = "compressed_buffered p - compressed_consumed p"
  let ?need = "?backlog + length data + (if is_final then 4 else 0) + WS_DEFLATE_BUFFER_SIZE"
  have bo: "bufo_ok (compressed_buf p)"
    using w by (simp add: window_ok_def)
  obtain ok b where b: "bufo_ensure_capacity (alloc e) (compressed_buf p) ?need = Some (ok, b)" "bufo_ok b"
    "capacity (compressed_buf p) \<le> capacity b" "ok \<Longrightarrow> ?need \<le> capacity b"
    using bufo_ensure_capacity_spec [OF bo, of "alloc e" ?need] by (auto elim!: returnsE)
  define p1 where "p1 = p\<lparr>compressed_buf := b\<rparr>"
  have p1: "delivery e p p1"
    using w r b(2,3) by (simp add: p1_def delivery_def window_ok_def)
  show ?thesis
  proof (cases ok)
    case False
    with b(1) p1 show ?thesis
      by (simp add: websocketsparser_decompress_chunk_def Let_def p1_def)
  next
    case True
    obtain blk where blk: "bdata b = Some blk" "length blk = capacity b"
      using b(2) b(4) [OF True] by (auto simp: bufo_ok_def WS_DEFLATE_BUFFER_SIZE_def split: option.splits)
    have cb: "compressed_consumed p \<le> compressed_buffered p" "compressed_buffered p \<le> capacity b"
      using w b(3) by (simp_all add: window_ok_def)
    define start where "start = (if 0 < compressed_consumed p then ?backlog else compressed_buffered p)"
    have start: "start = ?backlog"
      by (simp add: start_def)
    obtain blk1 where blk1: "(if 0 < compressed_consumed p then memmove blk 0 (compressed_consumed p) ?backlog
        else Some blk) = Some blk1" "length blk1 = capacity b"
      using cb blk by (cases "0 < compressed_consumed p") (auto simp: memmove_in)
    obtain blk2 where blk2: "poke blk1 start (unmask (mask (frame p)) (payload_index p) data) = Some blk2"
      "length blk2 = capacity b"
      using b(4) [OF True] blk1(2) by (auto simp: start poke_def)
    obtain blk3 where blk3: "(if is_final
        then poke blk2 (start + length data) [CHR 0x00, CHR 0x00, CHR 0xFF, CHR 0xFF] else Some blk2) = Some blk3"
      "length blk3 = capacity b"
      using b(4) [OF True] blk2(2) by (cases is_final) (auto simp: start poke_def)
    define p2 where "p2 = p1\<lparr>compressed_consumed := 0,
             compressed_buffered := start + length data + (if is_final then 4 else 0),
             payload_index := payload_index p1 + length data,
             compressed_buf := (compressed_buf p1)\<lparr>bdata := Some blk3\<rparr>\<rparr>"
    have win: "compressed_window p1 blk data is_final = Some p2"
      using blk1(1) blk2(1) blk3(1) unfolding compressed_window_def p2_def p1_def start_def
      by (cases "0 < compressed_consumed p"; cases is_final) (simp_all add: Let_def)
    have bo2: "bufo_ok (compressed_buf p2)"
      using bufo_ok_write [OF b(2) blk(1)] blk3(2) blk(2) by (simp add: p2_def p1_def)
    have room: "compressed_buffered p2 + WS_DEFLATE_BUFFER_SIZE \<le> capacity (compressed_buf p2)"
      using b(4) [OF True] by (simp add: p2_def p1_def start)
    then have p2: "delivery e p1 p2"
      using bo2 r by (simp add: delivery_def window_ok_def p2_def p1_def)
    obtain input where input: "peek blk3 (compressed_consumed p2) (compressed_buffered p2 - compressed_consumed p2) = Some input"
      "length input = compressed_buffered p2"
      using room blk3(2) by (simp add: peek_def p2_def p1_def)
    have "returns (inflate_loop e p2 input) (\<lambda>(ok, p'). delivery e p2 p')"
      using bo2 room input(2) r by (intro inflate_loop_delivery [OF env]) (simp_all add: p2_def p1_def)
    moreover have "delivery e p2 p3 \<Longrightarrow> delivery e p (ws_deflate_reset_inflate e p3) \<and> delivery e p p3" for p3
      using delivery_trans [OF delivery_trans [OF p1 p2], of p3]
      by (auto simp: ws_deflate_reset_inflate_def delivery_def window_ok_def)
    moreover have "websocketsparser_decompress_chunk e p data is_final =
       Option.bind (inflate_loop e p2 input) (\<lambda>(ok, p3).
         Some (ok, if ok \<and> is_final then ws_deflate_reset_inflate e p3 else p3))"
    proof -
      have "bdata (compressed_buf p2) = Some blk3"
        by (simp add: p2_def)
      then show ?thesis
        using b(1) True blk(1) win input(1)
        by (simp add: websocketsparser_decompress_chunk_def Let_def p1_def [symmetric])
    qed
    ultimately show ?thesis
      by (auto elim!: returns_mono)
  qed
qed

section \<open>The invariant\<close>

definition ws_core :: "'z ws_env \<Rightarrow> 'z websocketsparser \<Rightarrow> bool" where
  "ws_core e p \<longleftrightarrow> length (mask (frame p)) = 4 \<and> bytes_readed p \<le> length (buffer p) \<and>
     length (buffer p) < 2 ^ 63 \<and> window_ok p \<and> (\<forall>r. request p = Some r \<longrightarrow> request_ok e r) \<and>
     (message_fragmented p \<longrightarrow> request p \<noteq> None)"

text \<open>Behind the first byte of a frame: a control frame is final and leaves a message in progress
  alone; a data frame has a request, and the message is fragmented exactly when the frame is not
  final.\<close>

definition header_ok :: "'z websocketsparser \<Rightarrow> bool" where
  "header_ok p \<longleftrightarrow>
     (if websocketsparser_is_control_frame (frame p)
      then fin (frame p) \<noteq> 0 \<and> (request p \<noteq> None \<longrightarrow> message_fragmented p)
      else request p \<noteq> None \<and> message_fragmented p = (fin (frame p) = 0))"

definition stage_inv :: "'z ws_env \<Rightarrow> 'z websocketsparser \<Rightarrow> char list \<Rightarrow> bool" where
  "stage_inv e p xs \<longleftrightarrow>
     (case stage p of
        WSPARSER_STAGE_FIRST_BYTE \<Rightarrow>
          xs = [] \<and> payload_saved_length p = 0 \<and> (request p \<noteq> None \<longrightarrow> message_fragmented p)
      | WSPARSER_STAGE_SECOND_BYTE \<Rightarrow> xs = [] \<and> payload_saved_length p = 0 \<and> header_ok p
      | WSPARSER_STAGE_PAYLOAD_LEN_126 \<Rightarrow> length xs < 2 \<and> payload_saved_length p = 0 \<and> header_ok p
      | WSPARSER_STAGE_PAYLOAD_LEN_127 \<Rightarrow> length xs < 8 \<and> payload_saved_length p = 0 \<and> header_ok p
      | WSPARSER_STAGE_MASK_KEY \<Rightarrow>
          length xs < 4 \<and> payload_saved_length p = 0 \<and> header_ok p \<and> payload_length (frame p) < 2 ^ 64 \<and>
          (websocketsparser_is_control_frame (frame p) \<longrightarrow> payload_length (frame p) \<le> 125)
      | WSPARSER_STAGE_CONTROL_PAYLOAD \<Rightarrow>
          length xs = payload_saved_length p \<and> payload_saved_length p < payload_length (frame p) \<and>
          payload_length (frame p) \<le> 125 \<and> websocketsparser_is_control_frame (frame p) \<and> header_ok p
      | WSPARSER_STAGE_PAYLOAD \<Rightarrow>
          xs = [] \<and> payload_saved_length p < payload_length (frame p) \<and>
          payload_length (frame p) < 2 ^ 64 \<and> payload_saved_length p \<le> client_max_body_size e \<and>
          \<not> websocketsparser_is_control_frame (frame p) \<and> header_ok p)"

definition ws_inv :: "'z ws_env \<Rightarrow> 'z websocketsparser \<Rightarrow> bool" where
  "ws_inv e p \<longleftrightarrow> ws_core e p \<and> (\<exists>xs. holds_static (buf p) xs \<and> stage_inv e p xs)"

text \<open>The state in which a complete frame is passed to the connection.\<close>

definition handled :: "'z ws_env \<Rightarrow> 'z websocketsparser \<Rightarrow> bool" where
  "handled e p \<longleftrightarrow> ws_core e p \<and> header_ok p \<and> (\<exists>xs. holds_static (buf p) xs \<and> length xs \<le> 125)"

definition result_ok :: "'z ws_env \<Rightarrow> 'z websocketsparser \<Rightarrow> ws_status \<Rightarrow> 'z websocketsparser \<Rightarrow> bool" where
  "result_ok e p st p' \<longleftrightarrow>
     handed_over p' = handed_over p \<and> length (buffer p') = length (buffer p) \<and>
     (case st of
        WSPARSER_CONTINUE \<Rightarrow> ws_inv e p'
      | WSPARSER_HANDLE_AND_CONTINUE \<Rightarrow>
          handled e p' \<and> bytes_readed p' = bytes_readed p \<and> pos_start p' = pos_start p \<and>
          parser_pos p \<le> parser_pos p' \<and> parser_pos p' \<le> bytes_readed p' \<and>
          (stage p \<noteq> WSPARSER_STAGE_PAYLOAD \<longrightarrow> parser_pos p < parser_pos p')
      | WSPARSER_COMPLETE \<Rightarrow> handled e p' \<and> fin (frame p') \<noteq> 0 \<and> \<not> message_fragmented p'
      | WSPARSER_BAD_REQUEST \<Rightarrow> ws_inv e p' \<and> request p' = None
      | WSPARSER_ERROR \<Rightarrow> ws_inv e p' \<and> request p' = None
      | WSPARSER_PAYLOAD_LARGE \<Rightarrow> ws_inv e p' \<and> request p' = None
      | WSPARSER_OUT_OF_MEMORY \<Rightarrow> False
      | WSPARSER_HOST_NOT_FOUND \<Rightarrow> False)"

lemma cursor_simps [simp]:
  "window_ok (p\<lparr>parser_pos := i\<rparr>) = window_ok p" "ws_core e (p\<lparr>parser_pos := i\<rparr>) = ws_core e p"
  "header_ok (p\<lparr>parser_pos := i\<rparr>) = header_ok p" "handed_over (p\<lparr>parser_pos := i\<rparr>) = handed_over p"
  "ws_inv e (p\<lparr>parser_pos := i\<rparr>) = ws_inv e p" "handled e (p\<lparr>parser_pos := i\<rparr>) = handled e p"
  by (cases "stage p"; simp add: window_ok_def ws_core_def header_ok_def handed_over_def ws_inv_def
      stage_inv_def handled_def)+

lemma frame_init_simps [simp]:
  "length (mask (websockets_frame_init f)) = 4" "opcode (websockets_frame_init f) = 0"
  "fin (websockets_frame_init f) = 0" "payload_length (websockets_frame_init f) = 0"
  by (simp_all add: websockets_frame_init_def)

lemma bufo_flush_ok: "bufo_ok b \<Longrightarrow> bufo_ok (bufo_flush b)" "capacity (bufo_flush b) = capacity b"
  by (simp_all add: bufo_flush_def bufo_ok_def)

lemma websocketsparser_flush_spec:
  assumes "holds_static (buf p) xs" and "bufo_ok (compressed_buf p)" and "length (buffer p) < 2 ^ 63"
  shows "\<exists>p'. websocketsparser_flush p = Some p' \<and> ws_inv e p' \<and> request p' = None \<and>
           events p' = events p \<and> length (buffer p') = length (buffer p)"
proof -
  have "(buf p)\<lparr>dynamic_buffer := None\<rparr> = buf p"
    using assms(1) by (simp add: holds_static_def)
  with holds_static_reset(1) [OF assms(1)] obtain b where
    "bufferdata_reset ((buf p)\<lparr>dynamic_buffer := None\<rparr>) = Some b" "holds_static b []"
    by auto
  then show ?thesis
    using assms(2,3) bufo_flush_ok [of "compressed_buf p"]
    by (auto simp: websocketsparser_flush_def ws_inv_def ws_core_def window_ok_def stage_inv_def)
qed

lemma ws_clear_spec:
  assumes "holds_static (buf p) xs" and "bufo_ok (compressed_buf p)" and "length (buffer p) < 2 ^ 63"
  shows "\<exists>p'. ws_clear p = Some p' \<and> ws_inv e p' \<and> request p' = None \<and> handed_over p' = handed_over p \<and>
           length (buffer p') = length (buffer p)"
proof (cases "request p = None")
  case True
  then show ?thesis
    using websocketsparser_flush_spec [OF assms, of e]
    by (auto simp: ws_clear_def websocketsparser_reset_def handed_over_def)
next
  case False
  let ?p = "(websocketsrequest_free p)\<lparr>request := None\<rparr>"
  have "holds_static (buf ?p) xs" "bufo_ok (compressed_buf ?p)" "length (buffer ?p) < 2 ^ 63"
    using assms by (simp_all add: websocketsrequest_free_def log_event_def)
  from websocketsparser_flush_spec [OF this, of e] False show ?thesis
    by (auto simp: ws_clear_def websocketsparser_reset_def handed_over_def websocketsrequest_free_def log_event_def)
qed

lemma clear_and_return_spec:
  assumes "holds_static (buf p) xs" and "bufo_ok (compressed_buf p)" and "length (buffer p) < 2 ^ 63"
    and "st = WSPARSER_BAD_REQUEST \<or> st = WSPARSER_ERROR \<or> st = WSPARSER_PAYLOAD_LARGE"
    and "handed_over p = handed_over p0" and "length (buffer p) = length (buffer p0)"
  shows "returns (clear_and_return p st) (\<lambda>(st', p'). st' = st \<and> result_ok e p0 st' p')"
  using ws_clear_spec [OF assms(1-3), of e] assms(4-6)
  by (auto simp: clear_and_return_def result_ok_def)

section \<open>Payload\<close>

lemma deliver_payload_delivery:
  assumes env: "ws_env_ok e" and core: "ws_core e p" and req: "request p \<noteq> None"
    and n: "parser_pos p + n \<le> length (buffer p)"
  shows "returns (deliver_payload e p n is_final) (\<lambda>(ok, p'). delivery e p p')"
proof -
  obtain r where r: "request p = Some r" "request_ok e r" and w: "window_ok p"
    using core req by (auto simp: ws_core_def)
  have pk: "peek (buffer p) (parser_pos p) n = Some (take n (drop (parser_pos p) (buffer p)))"
    using n by (simp add: peek_def)
  show ?thesis
  proof (cases "compressed r")
    case True
    then show ?thesis
      using r pk decompress_delivery [OF env w r] by (simp add: deliver_payload_def)
  next
    case False
    define plain where "plain = unmask (mask (frame p)) (payload_index p) (take n (drop (parser_pos p) (buffer p)))"
    have len: "length plain = n"
      using n by (simp add: plain_def)
    obtain buffer1 where b1: "poke (buffer p) (parser_pos p) plain = Some buffer1" "length buffer1 = length (buffer p)"
      using n len by (simp add: poke_def)
    define p1 where "p1 = p\<lparr>buffer := buffer1, payload_index := payload_index p + n\<rparr>"
    have p1: "delivery e p p1" "window_ok p1" "request p1 = Some r"
      using w r b1 by (simp_all add: p1_def delivery_def window_ok_def)
    have "length plain < 2 ^ 63"
      using len n core by (simp add: ws_core_def)
    from store_delivery [OF env p1(2,3) r(2) this]
    obtain ok p2 where s: "payload_store e p1 plain = Some (ok, p2)" "delivery e p1 p2"
      by (auto elim!: returnsE)
    obtain r2 where r2: "request p2 = Some r2" "request_ok e r2" "window_ok p2"
      using s(2) by (auto simp: delivery_def)
    have pp: "payload_parse_masked e p (parser_pos p) n = Some (ok, plain, p2)"
      using pk b1 s(1) unfolding payload_parse_masked_def p1_def plain_def by (simp add: Let_def)
    have "returns (websocketsparser_text_feed_ok p2 plain) (\<lambda>(ok, p'). delivery e p p')"
      using text_feed_delivery [OF r2(3,1,2), of plain] delivery_trans [OF delivery_trans [OF p1(1) s(2)]]
      by (auto elim!: returns_mono)
    then show ?thesis
      using False r pp delivery_trans [OF p1(1) s(2)] by (auto simp: deliver_payload_def)
  qed
qed

lemma delivery_core: "delivery e p p' \<Longrightarrow> ws_core e p \<Longrightarrow> ws_core e p'"
  by (auto simp: delivery_def ws_core_def)

lemma delivery_header: "delivery e p p' \<Longrightarrow> header_ok p' = header_ok p"
  by (auto simp: delivery_def header_ok_def)

lemma delivery_handed: "delivery e p p' \<Longrightarrow> handed_over p' = handed_over p"
  by (auto simp: delivery_def handed_over_def)

text \<open>How much of the available bytes belongs to the frame.\<close>

lemma payload_amount:
  assumes "at \<le> readed" and "readed < 2 ^ 63" and "saved < len" and "len < 2 ^ 64" and "saved < 2 ^ 63"
  shows "szsub readed at = readed - at"
    and "szadd (readed - at) saved = readed - at + saved"
    and "szsub len saved = len - saved"
    and "n \<le> readed - at \<Longrightarrow> szadd saved n = saved + n"
  using assms by (simp_all add: szsub_exact szadd_exact size_modulus_def)

text \<open>The function with the amount of payload it takes and the result of the delivery.\<close>

lemma parse_payload_unfold:
  assumes "parser_pos p \<le> bytes_readed p" and "bytes_readed p < 2 ^ 63"
    and "payload_saved_length p < payload_length (frame p)" and "payload_length (frame p) < 2 ^ 64"
    and "payload_saved_length p < 2 ^ 63"
    and avail: "avail = bytes_readed p - parser_pos p"
    and behind: "behind \<longleftrightarrow> payload_length (frame p) < avail + payload_saved_length p"
    and n: "n = (if behind then payload_length (frame p) - payload_saved_length p else avail)"
    and final: "final \<longleftrightarrow> payload_saved_length p + n = payload_length (frame p)"
    and d: "deliver_payload e (p\<lparr>payload_saved_length := payload_saved_length p + n\<rparr>) n final = Some (ok, p2)"
  shows "websocketsparser_parse_payload e p =
     (if client_max_body_size e < payload_saved_length p + n then clear_and_return p WSPARSER_PAYLOAD_LARGE
      else if \<not> ok then clear_and_return p2 WSPARSER_ERROR
      else if behind
      then if fin (frame p2) \<noteq> 0 \<and> \<not> websocketsparser_text_finish_ok (p2\<lparr>parser_pos := parser_pos p2 + n\<rparr>)
           then clear_and_return (p2\<lparr>parser_pos := parser_pos p2 + n\<rparr>) WSPARSER_ERROR
           else Some (WSPARSER_HANDLE_AND_CONTINUE, p2\<lparr>parser_pos := parser_pos p2 + n\<rparr>)
      else if \<not> final then Some (WSPARSER_CONTINUE, p2)
      else if fin (frame p2) \<noteq> 0
      then if \<not> websocketsparser_text_finish_ok p2 then clear_and_return p2 WSPARSER_ERROR
           else Some (WSPARSER_COMPLETE, p2)
      else Some (WSPARSER_HANDLE_AND_CONTINUE, p2))"
proof -
  note sz = payload_amount [OF assms(1-5)]
  have sza: "szsub (bytes_readed p) (parser_pos p) = avail"
    "szadd avail (payload_saved_length p) = avail + payload_saved_length p"
    using sz(1,2) by (simp_all add: avail)
  have "n \<le> avail"
    using assms(3) by (auto simp: n behind)
  then have szn: "szadd (payload_saved_length p) n = payload_saved_length p + n"
    using sz(4) by (simp add: avail)
  define p1 where "p1 = p\<lparr>payload_saved_length := payload_saved_length p + n\<rparr>"
  have fin1: "payload_saved_length p1 = payload_length (frame p1) \<longleftrightarrow> final"
    by (simp add: p1_def final)
  show ?thesis
    using d unfolding websocketsparser_parse_payload_def sza sz(3) Let_def behind [symmetric]
      n [symmetric] szn p1_def [symmetric] fin1 by simp
qed

lemma parse_payload_spec:
  assumes env: "ws_env_ok e" and inv: "ws_inv e p" and stg: "stage p = WSPARSER_STAGE_PAYLOAD"
    and pos: "parser_pos p \<le> bytes_readed p"
  shows "returns (websocketsparser_parse_payload e p) (\<lambda>(st, p'). result_ok e p st p')"
proof -
  have core: "ws_core e p" and buf: "holds_static (buf p) []" and hdr: "header_ok p"
    and saved: "payload_saved_length p < payload_length (frame p)" "payload_length (frame p) < 2 ^ 64"
      "payload_saved_length p \<le> client_max_body_size e"
    and ctl: "\<not> websocketsparser_is_control_frame (frame p)"
    using inv stg by (auto simp: ws_inv_def stage_inv_def)
  define avail where "avail = bytes_readed p - parser_pos p"
  define more where "more \<longleftrightarrow> payload_length (frame p) < avail + payload_saved_length p"
  define n where "n = (if more then payload_length (frame p) - payload_saved_length p else avail)"
  have bounds: "bytes_readed p < 2 ^ 63" "payload_saved_length p < 2 ^ 63"
    using core env saved(3) by (auto simp: ws_core_def ws_env_ok_def)
  have n: "n \<le> avail" "payload_saved_length p + n \<le> payload_length (frame p)"
    "more \<Longrightarrow> payload_saved_length p + n = payload_length (frame p)"
    using saved(1) by (auto simp: n_def more_def)
  define p1 where "p1 = p\<lparr>payload_saved_length := payload_saved_length p + n\<rparr>"
  define final where "final \<longleftrightarrow> payload_saved_length p + n = payload_length (frame p)"
  have p1: "ws_core e p1" "header_ok p1" "request p1 \<noteq> None" "parser_pos p1 + n \<le> length (buffer p1)"
    using core hdr ctl n(1) pos by (auto simp: p1_def ws_core_def window_ok_def header_ok_def avail_def)
  obtain ok p2 where d: "deliver_payload e p1 n final = Some (ok, p2)" "delivery e p1 p2"
    using deliver_payload_delivery [OF env p1(1,3,4), of final] by (auto elim!: returnsE)
  have p2: "ws_core e p2" "header_ok p2" "frame p2 = frame p" "handed_over p2 = handed_over p"
    "bytes_readed p2 = bytes_readed p" "parser_pos p2 = parser_pos p" "length (buffer p2) = length (buffer p)"
    "stage p2 = WSPARSER_STAGE_PAYLOAD" "payload_saved_length p2 = payload_saved_length p + n"
    "holds_static (buf p2) []" "bufo_ok (compressed_buf p2)" "pos_start p2 = pos_start p"
    using delivery_core [OF d(2) p1(1)] delivery_header [OF d(2)] delivery_handed [OF d(2)] p1(2) d(2) buf stg
    by (auto simp: delivery_def p1_def handed_over_def window_ok_def)
  have err: "returns (clear_and_return q st) (\<lambda>(st', p'). result_ok e p st' p')"
    if "holds_static (buf q) []" "bufo_ok (compressed_buf q)" "length (buffer q) = length (buffer p)"
      "handed_over q = handed_over p" "st = WSPARSER_ERROR \<or> st = WSPARSER_PAYLOAD_LARGE" for q st
    using that core by (intro returns_mono [OF clear_and_return_spec]) (auto simp: ws_core_def)
  note step = parse_payload_unfold [OF pos bounds(1) saved(1,2) bounds(2) avail_def more_def n_def final_def
      d(1) [unfolded p1_def]]
  define p3 where "p3 = p2\<lparr>parser_pos := parser_pos p2 + n\<rparr>"
  have p3: "ws_core e p3" "header_ok p3" "handed_over p3 = handed_over p" "holds_static (buf p3) []"
    "bufo_ok (compressed_buf p3)" "length (buffer p3) = length (buffer p)" "bytes_readed p3 = bytes_readed p"
    "pos_start p3 = pos_start p" "parser_pos p3 = parser_pos p + n"
    using p2 by (simp_all add: p3_def)
  have mid: "ws_inv e p2" if "\<not> client_max_body_size e < payload_saved_length p + n" "\<not> final"
    unfolding ws_inv_def stage_inv_def using that p2 n(2) saved(2) ctl by (simp add: final_def)
  have h2: "handled e p2" and h3: "handled e p3"
    unfolding handled_def using p2(1,2,10) p3(1,2,4) by auto
  have whole: "\<not> message_fragmented p2" if "fin (frame p2) \<noteq> 0"
    using p2(2,3) ctl that by (simp add: header_ok_def)
  have "n \<le> bytes_readed p - parser_pos p"
    using n(1) by (simp add: avail_def)
  then have "result_ok e p WSPARSER_HANDLE_AND_CONTINUE p3" "result_ok e p WSPARSER_HANDLE_AND_CONTINUE p2"
    using h2 h3 p2 p3 pos stg by (simp_all add: result_ok_def)
  moreover have "result_ok e p WSPARSER_CONTINUE p2"
    if "\<not> client_max_body_size e < payload_saved_length p + n" "\<not> final"
    using mid [OF that] p2 by (simp add: result_ok_def)
  moreover have "result_ok e p WSPARSER_COMPLETE p2" if "fin (frame p2) \<noteq> 0"
    using h2 p2 whole [OF that] that by (simp add: result_ok_def)
  moreover have "returns (clear_and_return p WSPARSER_PAYLOAD_LARGE) (\<lambda>(st', p'). result_ok e p st' p')"
    "returns (clear_and_return p2 WSPARSER_ERROR) (\<lambda>(st', p'). result_ok e p st' p')"
    "returns (clear_and_return p3 WSPARSER_ERROR) (\<lambda>(st', p'). result_ok e p st' p')"
    using p2 p3 core buf by (auto intro!: err simp: ws_core_def window_ok_def)
  ultimately show ?thesis
    unfolding step p3_def [symmetric] by simp
qed

section \<open>The bytes of a header\<close>

text \<open>What a step that parses a header byte keeps.\<close>

definition header_step :: "'z ws_env \<Rightarrow> 'z websocketsparser \<Rightarrow> 'z websocketsparser \<Rightarrow> bool" where
  "header_step e p p' \<longleftrightarrow> ws_core e p' \<and> handed_over p' = handed_over p \<and>
     bytes_readed p' = bytes_readed p \<and> pos_start p' = pos_start p \<and> parser_pos p' = parser_pos p \<and>
     length (buffer p') = length (buffer p) \<and> payload_saved_length p' = payload_saved_length p"

lemma request_ok_fresh: "payload r = None \<Longrightarrow> request_ok e r"
  by (simp add: request_ok_def stored_def)

lemma open_request_step:
  assumes "ws_core e p"
  shows "header_step e p (open_request e p)" and "message_fragmented (open_request e p) = message_fragmented p"
    and "frame (open_request e p) = frame p" and "stage (open_request e p) = stage p"
    and "buf (open_request e p) = buf p"
    and "request p \<noteq> None \<Longrightarrow> request (open_request e p) \<noteq> None"
  using assms
  by (auto simp: open_request_def websocketsrequest_create_def header_step_def ws_core_def window_ok_def
      handed_over_def log_event_def request_ok_fresh)

lemma start_message_step:
  assumes "ws_core e p" and "request p = Some r"
  shows "header_step e p (snd (start_message p r))"
    and "fst (start_message p r) \<Longrightarrow> request (snd (start_message p r)) \<noteq> None \<and>
      message_fragmented (snd (start_message p r)) = (fin (frame p) = 0)"
    and "frame (snd (start_message p r)) = frame p" and "stage (snd (start_message p r)) = stage p"
    and "buf (snd (start_message p r)) = buf p"
  using assms
  by (auto simp: start_message_def header_step_def ws_core_def window_ok_def handed_over_def Let_def
      request_ok_def stored_def)

lemma header_step_trans: "header_step e p1 p2 \<Longrightarrow> header_step e p2 p3 \<Longrightarrow> header_step e p1 p3"
  by (simp add: header_step_def)

lemma header_step_frame:
  "ws_core e p \<Longrightarrow> length (mask f) = 4 \<Longrightarrow> header_step e p (p\<lparr>frame := f\<rparr>)"
  by (simp add: header_step_def ws_core_def window_ok_def handed_over_def)

lemma first_byte_spec:
  assumes core: "ws_core e p" and buf: "holds_static (buf p) [ch]"
    and req: "request p \<noteq> None \<longrightarrow> message_fragmented p"
  shows "returns (websocketsparser_parse_first_byte e p) (\<lambda>(ok, p'). header_step e p p' \<and> stage p' = stage p \<and>
           buf p' = buf p \<and> (ok \<longrightarrow> header_ok p'))"
proof -
  define f where "f = first_byte_frame (frame p) (ord ch)"
  define p1 where "p1 = p\<lparr>frame := f\<rparr>"
  have m: "length (mask f) = 4"
    using core by (simp add: f_def first_byte_frame_def ws_core_def)
  have p1: "header_step e p p1"
    unfolding p1_def by (rule header_step_frame [OF core m])
  then have c1: "ws_core e p1"
    by (simp add: header_step_def)
  define p2 where "p2 = open_request e p1"
  have p2: "header_step e p p2" "ws_core e p2" "frame p2 = f" "stage p2 = stage p" "buf p2 = buf p"
    using open_request_step [OF c1] header_step_trans [OF p1] by (auto simp: p2_def p1_def header_step_def)
  have p3: "header_step e p (snd (start_message p2 r))" "stage (snd (start_message p2 r)) = stage p"
    "buf (snd (start_message p2 r)) = buf p"
    "fst (start_message p2 r) \<Longrightarrow> \<not> websocketsparser_is_control_frame f \<Longrightarrow> header_ok (snd (start_message p2 r))"
    if "request p2 = Some r" for r
    using start_message_step [OF p2(2) that] header_step_trans [OF p2(1)] p2(3,4,5)
    by (auto simp: header_ok_def)
  have eq: "websocketsparser_parse_first_byte e p = Some
       (if \<not> known_opcode (opcode f) then (False, p1)
        else if rsv2 f \<noteq> 0 \<or> rsv3 f \<noteq> 0 then (False, p1)
        else if websocketsparser_is_control_frame f
        then if fin f = 0 then (False, p1) else if rsv1 f \<noteq> 0 then (False, p1) else (True, p1)
        else if opcode f = WSOPCODE_CONTINUE \<and> (\<not> message_fragmented p1 \<or> rsv1 f \<noteq> 0) then (False, p1)
        else if opcode f \<noteq> WSOPCODE_CONTINUE \<and> message_fragmented p1 then (False, p1)
        else case request p2 of None \<Rightarrow> (False, p2) | Some r \<Rightarrow> start_message p2 r)"
  proof -
    have b: "buf_bytes e p 1 = Some ([ch], p)"
      using buf_bytes_static [OF buf, of 1 e] by simp
    show ?thesis
      unfolding websocketsparser_parse_first_byte_def b Option.bind.simps prod.case list.sel Let_def f_def
        p1_def p2_def by simp
  qed
  have ctl: "header_ok p1" if "websocketsparser_is_control_frame f" "fin f \<noteq> 0"
    using that req by (simp add: header_ok_def p1_def)
  have "stage p1 = stage p" "buf p1 = buf p"
    by (simp_all add: p1_def)
  then show ?thesis
    unfolding eq using p1 p2 ctl p3
    by (auto simp: split_beta split: option.splits)
qed

definition step_ok :: "'z ws_env \<Rightarrow> 'z websocketsparser \<Rightarrow> ws_status option \<Rightarrow> 'z websocketsparser \<Rightarrow> bool" where
  "step_ok e p r p' \<longleftrightarrow>
     (case r of
        None \<Rightarrow> ws_inv e p' \<and> handed_over p' = handed_over p \<and> length (buffer p') = length (buffer p) \<and>
                 parser_pos p' = parser_pos p \<and> bytes_readed p' = bytes_readed p \<and> pos_start p' = pos_start p
      | Some st \<Rightarrow> result_ok e p st p')"

text \<open>A step that has parsed its bytes resets the collecting buffer, or clears the parser.\<close>

lemma bad_request_step:
  assumes "header_step e p p'" and "holds_static (buf p') xs"
  shows "returns (map_option (apfst Some) (clear_and_return p' WSPARSER_BAD_REQUEST)) (\<lambda>(r, q). step_ok e p r q)"
  using assms clear_and_return_spec [OF assms(2), of WSPARSER_BAD_REQUEST p e]
  by (auto simp: header_step_def ws_core_def window_ok_def step_ok_def elim!: returns_mono)

lemma next_stage_step:
  assumes "header_step e p p'" and "holds_static (buf p') xs"
    and inv: "\<And>b. holds_static b [] \<Longrightarrow> stage_inv e (p'\<lparr>buf := b\<rparr>) []"
  shows "returns (map_option (Pair None) (reset_buf p')) (\<lambda>(r, q). step_ok e p r q)"
proof -
  obtain b where "reset_buf p' = Some (p'\<lparr>buf := b\<rparr>)" "holds_static b []"
    using reset_buf_static [OF assms(2)] by blast
  then show ?thesis
    using assms(1) inv
    by (auto simp: step_ok_def ws_inv_def header_step_def ws_core_def window_ok_def handed_over_def)
qed

lemma header_step_buf: "ws_core e p \<Longrightarrow> header_step e p (p\<lparr>buf := b\<rparr>)"
  by (simp add: header_step_def ws_core_def window_ok_def handed_over_def)

lemma capacity_room: "n < 200 \<Longrightarrow> n < BUFFERDATA_CAPACITY"
  by (simp add: BUFFERDATA_CAPACITY_def BUFFERDATA_SIZE_def)

lemma header_step_stage: "header_step e p q \<Longrightarrow> header_step e p (q\<lparr>stage := s\<rparr>)"
  by (simp add: header_step_def ws_core_def window_ok_def handed_over_def)

lemma header_ok_simps [simp]:
  "header_ok (p\<lparr>stage := s\<rparr>) = header_ok p" "header_ok (p\<lparr>buf := b\<rparr>) = header_ok p"
  "header_ok (p\<lparr>frame := (frame p)\<lparr>masked := k, payload_length := n\<rparr>\<rparr>) = header_ok p"
  "header_ok (p\<lparr>frame := (frame p)\<lparr>payload_length := n\<rparr>\<rparr>) = header_ok p"
  "header_ok (p\<lparr>frame := (frame p)\<lparr>mask := mk\<rparr>\<rparr>) = header_ok p"
  "header_ok (p\<lparr>frame := (frame p)\<lparr>mask := mk\<rparr>, stage := s\<rparr>) = header_ok p"
  by (simp_all add: header_ok_def websocketsparser_is_control_frame_def)

lemma ws_core_stage [simp]: "ws_core e (p\<lparr>stage := s\<rparr>) = ws_core e p" "ws_core e (p\<lparr>buf := b\<rparr>) = ws_core e p"
  by (simp_all add: ws_core_def window_ok_def)

lemma stage_first_byte_step:
  assumes core: "ws_core e p" and buf: "holds_static (buf p) xs" and inv: "stage_inv e p xs"
    and stg: "stage p = WSPARSER_STAGE_FIRST_BYTE"
  shows "returns (stage_first_byte e p ch) (\<lambda>(r, q). step_ok e p r q)"
proof -
  have xs: "xs = []" and sv: "payload_saved_length p = 0" and req: "request p \<noteq> None \<longrightarrow> message_fragmented p"
    using inv stg by (simp_all add: stage_inv_def)
  obtain b where b: "push_byte e p ch = Some (p\<lparr>buf := b\<rparr>)" "holds_static b [ch]"
    using push_byte_static [OF buf capacity_room, of e ch] xs by auto
  define p1 where "p1 = p\<lparr>buf := b, stage := WSPARSER_STAGE_SECOND_BYTE\<rparr>"
  have p1: "header_step e p p1" "ws_core e p1" "holds_static (buf p1) [ch]"
    "request p1 \<noteq> None \<longrightarrow> message_fragmented p1"
    using header_step_stage [OF header_step_buf [OF core, of b], of WSPARSER_STAGE_SECOND_BYTE] b(2) req
    by (simp_all add: p1_def header_step_def)
  obtain ok p2 where p2: "websocketsparser_parse_first_byte e p1 = Some (ok, p2)" "header_step e p1 p2"
    "stage p2 = WSPARSER_STAGE_SECOND_BYTE" "holds_static (buf p2) [ch]" "ok \<Longrightarrow> header_ok p2"
    using first_byte_spec [OF p1(2,3,4)] p1(3) by (auto simp: p1_def elim!: returnsE)
  have hs: "header_step e p p2"
    by (rule header_step_trans [OF p1(1) p2(2)])
  have "stage_first_byte e p ch =
      (if \<not> ok then map_option (apfst Some) (clear_and_return p2 WSPARSER_BAD_REQUEST)
       else map_option (Pair None) (reset_buf p2))"
    using b p2(1) complete_buf_static [OF p1(3), of e] by (simp add: stage_first_byte_def p1_def)
  moreover have "returns (map_option (Pair None) (reset_buf p2)) (\<lambda>(r, q). step_ok e p r q)" if ok
    using p2(3,5) that sv hs
    by (intro next_stage_step [OF hs p2(4)]) (simp add: stage_inv_def header_step_def)
  ultimately show ?thesis
    using bad_request_step [OF hs p2(4)] by simp
qed

lemma and_127: "n AND 127 = n mod 128" for n :: nat
  using take_bit_eq_mask [of 7 n] by (simp add: take_bit_eq_mod mask_eq_exp_minus_1)

lemma stage_second_byte_step:
  assumes core: "ws_core e p" and buf: "holds_static (buf p) xs" and inv: "stage_inv e p xs"
    and stg: "stage p = WSPARSER_STAGE_SECOND_BYTE"
  shows "returns (stage_second_byte e p ch) (\<lambda>(r, q). step_ok e p r q)"
proof -
  have xs: "xs = []" and sv: "payload_saved_length p = 0" and hdr: "header_ok p"
    using inv stg by (simp_all add: stage_inv_def)
  obtain b where b: "push_byte e p ch = Some (p\<lparr>buf := b\<rparr>)" "holds_static b [ch]"
    using push_byte_static [OF buf capacity_room, of e ch] xs by auto
  have get: "buf_bytes e (p\<lparr>buf := b\<rparr>) 1 = Some ([ch], p\<lparr>buf := b\<rparr>)"
    using buf_bytes_static [of "p\<lparr>buf := b\<rparr>" "[ch]" 1 e] b(2) by simp
  define n where "n = ord ch AND 0x7F"
  have n: "n < 128"
    by (simp add: n_def and_127)
  define nxt where "nxt = (if n = 126 then WSPARSER_STAGE_PAYLOAD_LEN_126
     else if n = 127 then WSPARSER_STAGE_PAYLOAD_LEN_127 else WSPARSER_STAGE_MASK_KEY)"
  define p1 where "p1 = p\<lparr>buf := b, frame := (frame p)\<lparr>masked := drop_bit 7 (ord ch) AND 1, payload_length := n\<rparr>\<rparr>"
  have p1: "header_step e p p1" "holds_static (buf p1) [ch]" "header_ok p1" "header_step e p (p1\<lparr>stage := nxt\<rparr>)"
    using core b(2) hdr by (simp_all add: p1_def header_step_def ws_core_def window_ok_def handed_over_def
        header_ok_def websocketsparser_is_control_frame_def)
  have eq: "stage_second_byte e p ch =
      (if drop_bit 7 (ord ch) AND 1 = 0 then map_option (apfst Some) (clear_and_return p1 WSPARSER_BAD_REQUEST)
       else map_option (Pair None) (reset_buf (p1\<lparr>stage := nxt\<rparr>)))"
    using b get complete_buf_static [of "p\<lparr>buf := b\<rparr>" "[ch]" e]
    by (simp add: stage_second_byte_def websocketsparser_parse_second_byte_def Let_def p1_def nxt_def n_def)
  have "stage_inv e (p1\<lparr>stage := nxt, buf := b'\<rparr>) []" for b'
    using hdr p1(3) sv n by (auto simp: stage_inv_def nxt_def p1_def)
  then have "returns (map_option (Pair None) (reset_buf (p1\<lparr>stage := nxt\<rparr>))) (\<lambda>(r, q). step_ok e p r q)"
    using p1(2) by (intro next_stage_step [OF p1(4)]) simp_all
  then show ?thesis
    unfolding eq using bad_request_step [OF p1(1,2)] by simp
qed

lemma ord_or_shift:
  assumes "a < 2 ^ 56"
  shows "length_step a c = a * 256 + ord c"
proof -
  have "take_bit 64 (push_bit 8 a) = push_bit 8 a"
    using assms by (simp add: take_bit_nat_eq_self push_bit_eq_mult)
  moreover have "push_bit 8 a OR ord c = push_bit 8 a + ord c"
  proof (rule disjunctive_add [symmetric])
    show "\<not> bit (push_bit 8 a) i \<or> \<not> bit (ord c) i" for i
    proof (cases "i < 8")
      case True
      then show ?thesis
        by (simp add: bit_push_bit_iff)
    next
      case False
      have "ord c < 2 ^ 8"
        using nat_of_char_less_256 [of c] by simp
      then have "take_bit 8 (ord c) = ord c"
        by (simp add: take_bit_nat_eq_self)
      then show ?thesis
        using False by (metis bit_take_bit_iff)
    qed
  qed
  ultimately show ?thesis
    by (simp add: length_step_def push_bit_eq_mult mult.commute)
qed

lemma length_fold:
  "a < 256 ^ k \<Longrightarrow> k + length bs \<le> 8 \<Longrightarrow>
   foldl length_step a bs = foldl (\<lambda>n c. n * 256 + ord c) a bs \<and>
   foldl length_step a bs < 256 ^ (k + length bs)"
proof (induction bs arbitrary: a k)
  case (Cons c bs)
  have "k \<le> 7"
    using Cons.prems by simp
  then have "(256::nat) ^ k \<le> 256 ^ 7"
    by (intro power_increasing) simp_all
  then have a: "length_step a c = a * 256 + ord c"
    using Cons.prems by (intro ord_or_shift) simp
  have "a * 256 + ord c < 256 ^ (k + 1)"
    using Cons.prems(1) nat_of_char_less_256 [of c] unfolding power_add power_one_right by linarith
  from Cons.IH [OF this] Cons.prems a show ?case
    by simp
qed simp

lemma length_fold_bound: "length bs \<le> 8 \<Longrightarrow> foldl length_step 0 bs < 2 ^ 64"
proof -
  assume le: "length bs \<le> 8"
  then have "foldl length_step 0 bs < 256 ^ length bs"
    using length_fold [of 0 0 bs] by simp
  also have "\<dots> \<le> 256 ^ 8"
    using le by (intro power_increasing) simp_all
  finally show ?thesis
    by simp
qed

lemma stage_payload_len_step:
  assumes core: "ws_core e p" and buf: "holds_static (buf p) xs" and hdr: "header_ok p"
    and sv: "payload_saved_length p = 0" and xs: "length xs < k" and k: "k \<le> 8"
    and more: "\<And>q. stage q = stage p \<Longrightarrow> payload_saved_length q = 0 \<Longrightarrow> header_ok q \<Longrightarrow> length xs + 1 < k \<Longrightarrow>
        stage_inv e q (xs @ [ch])"
  shows "returns (stage_payload_len e k (\<lambda>p. websocketsparser_set_payload_length e p k) p ch) (\<lambda>(r, q). step_ok e p r q)"
proof (cases "websocketsparser_is_control_frame (frame p)")
  case True
  have "header_step e p p"
    using core by (simp add: header_step_def)
  from bad_request_step [OF this buf] True show ?thesis
    by (simp add: stage_payload_len_def)
next
  case False
  obtain b where b: "push_byte e p ch = Some (p\<lparr>buf := b\<rparr>)" "holds_static b (xs @ [ch])"
    using push_byte_static [OF buf capacity_room, of e ch] xs k by auto
  have wr: "bufferdata_writed b = length xs + 1"
    using holds_static_writed [OF b(2)] by simp
  show ?thesis
  proof (cases "length xs + 1 < k")
    case True
    have "stage_inv e (p\<lparr>buf := b\<rparr>) (xs @ [ch])"
      using True hdr sv by (intro more) simp_all
    then have "step_ok e p None (p\<lparr>buf := b\<rparr>)"
      using core b(2) by (auto simp: step_ok_def ws_inv_def handed_over_def)
    then show ?thesis
      using True False b(1) wr by (simp add: stage_payload_len_def)
  next
    case all: False
    then have len: "length (xs @ [ch]) = k"
      using xs by simp
    define n where "n = foldl length_step 0 (xs @ [ch])"
    have n: "n < 2 ^ 64"
      unfolding n_def using len k by (intro length_fold_bound) simp
    define p1 where "p1 = p\<lparr>buf := b, stage := WSPARSER_STAGE_MASK_KEY\<rparr>"
    define p2 where "p2 = p1\<lparr>frame := (frame p1)\<lparr>payload_length := n\<rparr>\<rparr>"
    have "buf_bytes e p1 k = Some (xs @ [ch], p1)" "complete_buf e p1 = Some p1"
      using buf_bytes_static [of p1 "xs @ [ch]" k e] complete_buf_static [of p1 "xs @ [ch]" e] b(2) len
      by (simp_all add: p1_def)
    then have eq: "stage_payload_len e k (\<lambda>p. websocketsparser_set_payload_length e p k) p ch =
        map_option (Pair None) (reset_buf p2)"
      using all False b(1) wr
      by (simp add: stage_payload_len_def websocketsparser_set_payload_length_def p1_def p2_def n_def)
    have hs: "header_step e p p2" and buf2: "holds_static (buf p2) (xs @ [ch])"
      using core b(2) by (simp_all add: p2_def p1_def header_step_def ws_core_def window_ok_def handed_over_def)
    have "stage_inv e (p2\<lparr>buf := b'\<rparr>) []" for b'
      using hdr n sv False
      by (simp add: stage_inv_def p2_def p1_def header_ok_def websocketsparser_is_control_frame_def)
    then show ?thesis
      unfolding eq by (intro next_stage_step [OF hs buf2])
  qed
qed

lemma frame_end_result:
  assumes "handled e p'" and "handed_over p' = handed_over p" and "length (buffer p') = length (buffer p)"
    and "bytes_readed p' = bytes_readed p" and "pos_start p' = pos_start p" and "parser_pos p' = parser_pos p"
    and "parser_pos p < bytes_readed p" and "frame_end p' = (st, q)"
  shows "result_ok e p st q"
  using assms by (auto simp: frame_end_def result_ok_def Let_def split: if_splits)

lemma stage_mask_key_step:
  assumes core: "ws_core e p" and buf: "holds_static (buf p) xs" and inv: "stage_inv e p xs"
    and stg: "stage p = WSPARSER_STAGE_MASK_KEY" and pos: "parser_pos p < bytes_readed p"
  shows "returns (stage_mask_key e p ch) (\<lambda>(r, q). step_ok e p r q)"
proof -
  have xs: "length xs < 4" and sv: "payload_saved_length p = 0" and hdr: "header_ok p"
    and len: "payload_length (frame p) < 2 ^ 64"
      "websocketsparser_is_control_frame (frame p) \<longrightarrow> payload_length (frame p) \<le> 125"
    using inv stg by (simp_all add: stage_inv_def)
  obtain b where b: "push_byte e p ch = Some (p\<lparr>buf := b\<rparr>)" "holds_static b (xs @ [ch])"
    using push_byte_static [OF buf capacity_room, of e ch] xs by auto
  have wr: "bufferdata_writed b = length xs + 1"
    using holds_static_writed [OF b(2)] by simp
  show ?thesis
  proof (cases "length xs + 1 < 4")
    case True
    then have "stage_inv e (p\<lparr>buf := b\<rparr>) (xs @ [ch])"
      using hdr sv stg len by (simp add: stage_inv_def)
    then have "step_ok e p None (p\<lparr>buf := b\<rparr>)"
      using core b(2) by (auto simp: step_ok_def ws_inv_def handed_over_def)
    then show ?thesis
      using True b(1) wr by (simp add: stage_mask_key_def)
  next
    case False
    then have l4: "length (xs @ [ch]) = 4"
      using xs by simp
    define p1 where "p1 = p\<lparr>buf := b\<rparr>"
    have wr1: "bufferdata_writed (buf p1) = 4"
      using wr l4 by (simp add: p1_def)
    define p2 where "p2 = p1\<lparr>frame := (frame p1)\<lparr>mask := xs @ [ch]\<rparr>,
        stage := (if websocketsparser_is_control_frame (frame p1)
                  then WSPARSER_STAGE_CONTROL_PAYLOAD else WSPARSER_STAGE_PAYLOAD)\<rparr>"
    obtain b' where b': "reset_buf p2 = Some (p2\<lparr>buf := b'\<rparr>)" "holds_static b' []"
      using reset_buf_static [of p2 "xs @ [ch]"] b(2) by (auto simp: p2_def p1_def)
    define p3 where "p3 = p2\<lparr>buf := b'\<rparr>"
    have "buf_bytes e p1 4 = Some (xs @ [ch], p1)" "complete_buf e p1 = Some p1"
      using buf_bytes_static [of p1 "xs @ [ch]" 4 e] complete_buf_static [of p1 "xs @ [ch]" e] b(2) l4
      by (simp_all add: p1_def)
    then have eq: "stage_mask_key e p ch =
        (if payload_length (frame p3) = 0 then Some (apfst Some (frame_end p3)) else Some (None, p3))"
      using b(1) wr False b'(1) wr1
      by (simp add: stage_mask_key_def websocketsparser_parse_mask_def p1_def [symmetric] p2_def [symmetric]
          p3_def [symmetric])
    have core3: "ws_core e p3" and hdr3: "header_ok p3" and ho: "handed_over p3 = handed_over p"
      and rest: "bytes_readed p3 = bytes_readed p" "pos_start p3 = pos_start p" "parser_pos p3 = parser_pos p"
        "length (buffer p3) = length (buffer p)" "holds_static (buf p3) []"
      using core hdr l4 b'(2)
      by (simp_all add: p3_def p2_def p1_def ws_core_def window_ok_def header_ok_def handed_over_def
          websocketsparser_is_control_frame_def)
    show ?thesis
    proof (cases "payload_length (frame p3) = 0")
      case True
      have "handled e p3"
        using core3 hdr3 rest(5) by (auto simp: handled_def)
      then have "result_ok e p st q" if "frame_end p3 = (st, q)" for st q
        using frame_end_result [of e p3 p st q] that ho rest pos by simp
      then show ?thesis
        unfolding eq using True by (cases "frame_end p3") (simp add: step_ok_def)
    next
      case False
      have "stage_inv e p3 []"
        using False hdr len sv
        by (simp add: p3_def p2_def p1_def stage_inv_def header_ok_def websocketsparser_is_control_frame_def)
      then have "ws_inv e p3"
        using core3 rest(5) by (auto simp: ws_inv_def)
      then show ?thesis
        unfolding eq using False ho rest by (simp add: step_ok_def)
    qed
  qed
qed

lemma stage_control_payload_step:
  assumes core: "ws_core e p" and buf: "holds_static (buf p) xs" and inv: "stage_inv e p xs"
    and stg: "stage p = WSPARSER_STAGE_CONTROL_PAYLOAD" and pos: "parser_pos p < bytes_readed p"
  shows "returns (stage_control_payload e p ch) (\<lambda>(r, q). step_ok e p r q)"
proof -
  have xs: "length xs = payload_saved_length p" and hdr: "header_ok p"
    and len: "payload_saved_length p < payload_length (frame p)" "payload_length (frame p) \<le> 125"
    and ctl: "websocketsparser_is_control_frame (frame p)"
    using inv stg by (simp_all add: stage_inv_def)
  define c where "c = byte_xor ch (mask (frame p) ! (payload_index p mod 4))"
  define p1 where "p1 = p\<lparr>payload_saved_length := Suc (payload_saved_length p), payload_index := Suc (payload_index p)\<rparr>"
  have "holds_static (buf p1) xs" "length xs < BUFFERDATA_CAPACITY"
    using buf xs len by (simp_all add: p1_def BUFFERDATA_CAPACITY_def BUFFERDATA_SIZE_def)
  from push_byte_static [OF this, of e c] obtain b where
    b: "push_byte e p1 c = Some (p1\<lparr>buf := b\<rparr>)" "holds_static b (xs @ [c])"
    by blast
  define p2 where "p2 = p1\<lparr>buf := b\<rparr>"
  have b2: "holds_static (buf p2) (xs @ [c])"
    using b(2) by (simp add: p2_def)
  have eq: "stage_control_payload e p ch =
      (if payload_saved_length p + 1 = payload_length (frame p) then Some (apfst Some (frame_end p2))
       else Some (None, p2))"
    using b(1) complete_buf_static [OF b2, of e]
    by (simp add: stage_control_payload_def Let_def p1_def [symmetric] c_def [symmetric] p2_def [symmetric])
  have rest: "ws_core e p2" "header_ok p2" "handed_over p2 = handed_over p" "bytes_readed p2 = bytes_readed p"
    "pos_start p2 = pos_start p" "parser_pos p2 = parser_pos p" "length (buffer p2) = length (buffer p)"
    using core hdr
    by (simp_all add: p2_def p1_def ws_core_def window_ok_def header_ok_def handed_over_def)
  have l: "length (xs @ [c]) \<le> 125"
    using xs len by simp
  have "handled e p2"
    using rest(1,2) b2 l by (auto simp: handled_def)
  then have fe: "result_ok e p st q" if "frame_end p2 = (st, q)" for st q
    using frame_end_result [of e p2 p st q] that rest pos by simp
  have "ws_inv e p2" if "payload_saved_length p + 1 \<noteq> payload_length (frame p)"
  proof -
    have "stage_inv e p2 (xs @ [c])"
      using that rest(2) xs len ctl stg by (simp add: stage_inv_def) (simp add: p2_def p1_def)
    then show ?thesis
      using rest(1) b2 by (auto simp: ws_inv_def)
  qed
  then show ?thesis
    unfolding eq using fe rest by (cases "frame_end p2") (simp add: step_ok_def)
qed

section \<open>The loop\<close>

lemma ws_step_spec:
  assumes env: "ws_env_ok e" and inv: "ws_inv e p" and pos: "parser_pos p < bytes_readed p"
  shows "returns (ws_step e p ch) (\<lambda>(r, q). step_ok e p r q)"
proof -
  obtain xs where core: "ws_core e p" and buf: "holds_static (buf p) xs" and si: "stage_inv e p xs"
    using inv by (auto simp: ws_inv_def)
  show ?thesis
  proof (cases "stage p")
    case WSPARSER_STAGE_FIRST_BYTE
    then show ?thesis
      using stage_first_byte_step [OF core buf si] by (simp add: ws_step_def)
  next
    case WSPARSER_STAGE_SECOND_BYTE
    then show ?thesis
      using stage_second_byte_step [OF core buf si] by (simp add: ws_step_def)
  next
    case stg: WSPARSER_STAGE_PAYLOAD_LEN_126
    then have "returns (stage_payload_len e 2 (\<lambda>p. websocketsparser_set_payload_length e p 2) p ch) (\<lambda>(r, q). step_ok e p r q)"
      using si by (intro stage_payload_len_step [OF core buf]) (auto simp: stage_inv_def)
    then show ?thesis
      using stg by (simp add: ws_step_def websocketsparser_parse_payload_length_126_def [abs_def])
  next
    case stg: WSPARSER_STAGE_PAYLOAD_LEN_127
    then have "returns (stage_payload_len e 8 (\<lambda>p. websocketsparser_set_payload_length e p 8) p ch) (\<lambda>(r, q). step_ok e p r q)"
      using si by (intro stage_payload_len_step [OF core buf]) (auto simp: stage_inv_def)
    then show ?thesis
      using stg by (simp add: ws_step_def websocketsparser_parse_payload_length_127_def [abs_def])
  next
    case WSPARSER_STAGE_MASK_KEY
    then show ?thesis
      using stage_mask_key_step [OF core buf si _ pos] by (simp add: ws_step_def)
  next
    case stg: WSPARSER_STAGE_PAYLOAD
    then show ?thesis
      using parse_payload_spec [OF env inv stg] pos
      by (auto simp: ws_step_def step_ok_def elim!: returns_mono)
  next
    case WSPARSER_STAGE_CONTROL_PAYLOAD
    then show ?thesis
      using stage_control_payload_step [OF core buf si _ pos] by (simp add: ws_step_def)
  qed
qed

lemma result_ok_weaken:
  assumes "result_ok e p1 st q" and "handed_over p1 = handed_over p" and "length (buffer p1) = length (buffer p)"
    and "bytes_readed p1 = bytes_readed p" and "pos_start p1 = pos_start p" and "parser_pos p < parser_pos p1"
  shows "result_ok e p st q"
  using assms by (cases st) (auto simp: result_ok_def)

lemma ws_loop_spec:
  assumes env: "ws_env_ok e"
  shows "ws_inv e p \<Longrightarrow> parser_pos p \<le> bytes_readed p \<Longrightarrow> returns (ws_loop e p) (\<lambda>(st, q). result_ok e p st q)"
proof (induction "bytes_readed p - parser_pos p" arbitrary: p rule: less_induct)
  case less
  show ?case
  proof (cases "parser_pos p < bytes_readed p")
    case False
    then show ?thesis
      using less.prems by (subst ws_loop.simps) (simp add: result_ok_def)
  next
    case True
    have "parser_pos p + 1 \<le> length (buffer p)"
      using less.prems True by (simp add: ws_inv_def ws_core_def)
    then obtain ch where ch: "peek (buffer p) (parser_pos p) 1 = Some ch"
      by (simp add: peek_def)
    obtain r p1 where st: "ws_step e p (hd ch) = Some (r, p1)" "step_ok e p r p1"
      using ws_step_spec [OF env less.prems(1) True, of "hd ch"] by (auto elim!: returnsE)
    show ?thesis
    proof (cases r)
      case (Some status)
      then show ?thesis
        using True ch st by (subst ws_loop.simps) (simp add: step_ok_def)
    next
      case None
      define p2 where "p2 = p1\<lparr>parser_pos := parser_pos p1 + 1\<rparr>"
      have p2: "ws_inv e p2" "handed_over p2 = handed_over p" "length (buffer p2) = length (buffer p)"
        "bytes_readed p2 = bytes_readed p" "pos_start p2 = pos_start p" "parser_pos p2 = parser_pos p + 1"
        using st(2) None by (simp_all add: step_ok_def p2_def)
      have "returns (ws_loop e p2) (\<lambda>(st, q). result_ok e p2 st q)"
        using p2 True by (intro less.hyps) simp_all
      then have "returns (ws_loop e p2) (\<lambda>(st, q). result_ok e p st q)"
        by (rule returns_mono) (auto intro: result_ok_weaken [OF _ p2(2-5)] simp: p2(6))
      then show ?thesis
        using True ch st(1) None by (subst ws_loop.simps) (simp add: p2_def)
    qed
  qed
qed

text \<open>At the start of a read, and after a frame has been handled, the two cursors agree.\<close>

definition at_start :: "'z websocketsparser \<Rightarrow> bool" where
  "at_start p \<longleftrightarrow> parser_pos p = pos_start p \<and> pos_start p \<le> bytes_readed p"

lemma websocketsparser_run_spec:
  assumes env: "ws_env_ok e" and inv: "ws_inv e p" and pos: "at_start p"
  shows "returns (websocketsparser_run e p) (\<lambda>(st, q). result_ok e p st q)"
proof (cases "stage p = WSPARSER_STAGE_PAYLOAD")
  case True
  then show ?thesis
    using parse_payload_spec [OF env inv True] pos by (simp add: websocketsparser_run_def at_start_def)
next
  case False
  have "p\<lparr>parser_pos := pos_start p\<rparr> = p"
    using pos by (simp add: at_start_def)
  then have "websocketsparser_run e p = ws_loop e p"
    using False by (simp add: websocketsparser_run_def)
  then show ?thesis
    using ws_loop_spec [OF env inv] pos by (simp add: at_start_def)
qed

lemma prepare_remains_spec:
  assumes core: "ws_core e p" and buf: "holds_static (buf p) xs" and "parser_pos p \<le> bytes_readed p"
  shows "\<exists>q. websocketsparser_prepare_remains p = Some q \<and> ws_inv e q \<and> at_start q \<and>
           pos_start q = parser_pos p \<and> bytes_readed q = bytes_readed p \<and> length (buffer q) = length (buffer p) \<and>
           stage q = WSPARSER_STAGE_FIRST_BYTE \<and> events q = events p \<and>
           request q = (if message_fragmented p then request p else None)"
proof -
  obtain b where b: "bufferdata_clear (buf p) = Some b" "holds_static b []"
    using holds_static_reset(2) [OF buf] by blast
  define p1 where "p1 = (if \<not> websocketsparser_is_control_frame (frame p) \<and> fin (frame p) \<noteq> 0
      then p\<lparr>compressed_buffered := 0, compressed_consumed := 0, decompressed_total := 0,
             utf8_validator := ws_utf8_validator_reset (utf8_validator p)\<rparr> else p)"
  have p1: "buf p1 = buf p" "parser_pos p1 = parser_pos p" "bytes_readed p1 = bytes_readed p" "buffer p1 = buffer p"
    "events p1 = events p" "request p1 = request p" "message_fragmented p1 = message_fragmented p"
    "compressed_buf p1 = compressed_buf p" "compressed_consumed p1 \<le> compressed_buffered p1"
    "compressed_buffered p1 \<le> capacity (compressed_buf p)"
    using core by (simp_all add: p1_def ws_core_def window_ok_def)
  define q where "q = p1\<lparr>buf := b, frame := websockets_frame_init (frame p1), stage := WSPARSER_STAGE_FIRST_BYTE,
      pos_start := parser_pos p1, payload_index := 0, payload_saved_length := 0,
      request := (if request p1 = None \<or> \<not> message_fragmented p1 then None else request p1),
      compressed_buf := bufo_flush (compressed_buf p1)\<rparr>"
  have "websocketsparser_prepare_remains p = Some q"
    using b(1) p1(1) unfolding websocketsparser_prepare_remains_def p1_def [symmetric] Let_def q_def by simp
  moreover have "ws_inv e q"
    using b(2) core p1 bufo_flush_ok [of "compressed_buf p"]
    by (auto simp: q_def ws_inv_def ws_core_def window_ok_def stage_inv_def)
  ultimately show ?thesis
    using p1 assms(3) core by (auto simp: q_def at_start_def ws_core_def)
qed

end
