(* ===== verification/Ws_Handlers.thy ===== *)
theory Ws_Handlers
  imports Ws_Safety Ws_Response
begin

text \<open>
  The read side of a WebSocket connection (protocols/websocket/server/websocketsserverhandlers.c):
  the read event, which parses what has arrived, answers control frames and hands complete messages
  to the dispatcher. The results of \<open>recv\<close> and the decision of the dispatcher are parameters. The
  theory shows that the read event ends for any input, keeps the invariant of the parser and
  neither leaks nor frees twice a request. The write event is in theory \<open>Ws_Write\<close>.
\<close>

section \<open>Reading\<close>

text \<open>
  \<open>get_resource\<close> is the result of the protocol's function of that name (whether the request was
  queued), \<open>response_ok\<close> whether a response object can be allocated, \<open>post\<close> the result of
  queueing a response, with a flag for the deferred variant.
\<close>

record 'y ws_dispatch =
  get_resource :: "websocketsrequest \<Rightarrow> bool"
  response_ok :: bool
  post :: "bool \<Rightarrow> 'y websocketsresponse \<Rightarrow> bool"
  response_alloc :: allocator
  zlib :: "'y zlib_deflate"
  response_deflate :: "'y ws_deflate option"

record ('z, 'y) ws_connection =
  parser :: "'z websocketsparser"
  keepalive :: bool
  posted :: "'y websocketsresponse list"
  dispatched :: "websocketsrequest list"

text \<open>Creating a response, filling it and posting it.\<close>

definition post_response ::
    "'y ws_dispatch \<Rightarrow> bool \<Rightarrow> ('y websocketsresponse \<Rightarrow> 'y websocketsresponse option) \<Rightarrow>
     ('z, 'y) ws_connection \<Rightarrow> (bool \<times> ('z, 'y) ws_connection) option" where
  "post_response h deferred fill c =
     (if \<not> response_ok h then Some (False, c)
      else do {
        r \<leftarrow> fill (websocketsresponse_create (response_deflate h));
        Some (post h deferred r, c\<lparr>posted := posted c @ [r]\<rparr>)
      })"

text \<open>\<open>__handle\<close>.\<close>

definition ws_handle ::
    "'z ws_env \<Rightarrow> 'y ws_dispatch \<Rightarrow> bool \<Rightarrow> ('z, 'y) ws_connection \<Rightarrow> (bool \<times> ('z, 'y) ws_connection) option" where
  "ws_handle e h deferred c =
     (let p = parser c; op = opcode (frame p) in
      if op = WSOPCODE_CLOSE then
        if \<not> response_ok h then Some (False, c)
        else do {
          (s, b) \<leftarrow> bufferdata_get (alloc e) (buf p);
          post_response h deferred (\<lambda>r. websocketsresponse_close (response_alloc h) r s (bufferdata_writed b))
            (c\<lparr>parser := p\<lparr>buf := b\<rparr>, keepalive := False\<rparr>)
        }
      else if op = WSOPCODE_PING then
        if \<not> response_ok h then Some (False, c)
        else do {
          (s, b) \<leftarrow> bufferdata_get (alloc e) (buf p);
          post_response h deferred (\<lambda>r. websocketsresponse_pong (response_alloc h) r s (bufferdata_writed b))
            (c\<lparr>parser := p\<lparr>buf := b\<rparr>\<rparr>)
        }
      else if op = WSOPCODE_PONG then Some (True, c)
      else if fin (frame p) = 0 then Some (True, c)
      else do {
        r \<leftarrow> request p;
        (if get_resource h r then Some (True, c\<lparr>dispatched := dispatched c @ [r]\<rparr>)
         else post_response h deferred
                (\<lambda>x. websocketsresponse_default (response_alloc h) (zlib h) x (Some ''resource not found''))
                (c\<lparr>parser := (websocketsrequest_free p)\<lparr>request := None\<rparr>\<rparr>))
      })"

text \<open>\<open>__post_close_default\<close>: a close frame with a status code and a reason.\<close>

definition post_close_default ::
    "'y ws_dispatch \<Rightarrow> nat \<Rightarrow> char list \<Rightarrow> ('z, 'y) ws_connection \<Rightarrow> (bool \<times> ('z, 'y) ws_connection) option" where
  "post_close_default h status_code reason c =
     (if \<not> response_ok h then Some (False, c)
      else do {
        payload \<leftarrow> poke (replicate 125 nul) 0 [char_of (drop_bit 8 status_code AND 0xFF), char_of (status_code AND 0xFF)];
        let n = (if 123 < length reason then 123 else length reason);
        payload1 \<leftarrow> poke payload 2 (take n reason);
        post_response h False (\<lambda>r. websocketsresponse_close (response_alloc h) r (Some payload1) (2 + n))
          (c\<lparr>keepalive := False\<rparr>)
      })"

datatype read_outcome = Read_More | Read_Return bool

text \<open>The inner loop of \<open>__read\<close>, over the frames in the read buffer.\<close>

partial_function (option) ws_frames ::
    "'z ws_env \<Rightarrow> 'y ws_dispatch \<Rightarrow> ('z, 'y) ws_connection \<Rightarrow> (read_outcome \<times> ('z, 'y) ws_connection) option" where
  "ws_frames e h c = do {
     (st, p) \<leftarrow> websocketsparser_run e (parser c);
     let c1 = c\<lparr>parser := p\<rparr>;
     (case st of
        WSPARSER_ERROR \<Rightarrow> Some (Read_Return False, c1)
      | WSPARSER_OUT_OF_MEMORY \<Rightarrow> Some (Read_Return False, c1)
      | WSPARSER_PAYLOAD_LARGE \<Rightarrow>
          map_option (apfst Read_Return) (post_close_default h 1009 ''Payload large'' c1)
      | WSPARSER_BAD_REQUEST \<Rightarrow>
          map_option (apfst Read_Return) (post_close_default h 1002 ''Bad request'' c1)
      | WSPARSER_CONTINUE \<Rightarrow> Some (Read_More, c1)
      | WSPARSER_HANDLE_AND_CONTINUE \<Rightarrow> do {
          (ok, c2) \<leftarrow> ws_handle e h True c1;
          (if \<not> ok then Some (Read_Return False, c2)
           else do {
             p2 \<leftarrow> websocketsparser_prepare_remains (parser c2);
             ws_frames e h (c2\<lparr>parser := p2\<rparr>)
           })
        }
      | WSPARSER_COMPLETE \<Rightarrow> do {
          (ok, c2) \<leftarrow> ws_handle e h False c1;
          (if \<not> ok then Some (Read_Return False, c2)
           else do {
             p2 \<leftarrow> websocketsparser_reset (parser c2);
             Some (Read_Return True, c2\<lparr>parser := p2\<rparr>)
           })
        }
      | WSPARSER_HOST_NOT_FOUND \<Rightarrow> Some (Read_Return False, c1))
   }"

text \<open>The result of a call of \<open>connection_data_read\<close>; data is at the start of the read buffer.\<close>

datatype data_read = Data "char list" | Would_Block | Read_Error | Peer_Closed

definition ws_receive :: "char list \<Rightarrow> 'z websocketsparser \<Rightarrow> 'z websocketsparser option" where
  "ws_receive bytes p = do {
     b \<leftarrow> poke (buffer p) 0 bytes;
     Some ((websocketsparser_set_bytes_readed (p\<lparr>buffer := b\<rparr>) (length bytes))\<lparr>pos_start := 0, parser_pos := 0\<rparr>)
   }"

text \<open>\<open>__read\<close>; the list holds the results of the successive reads, and a list that is used up
  stands for a socket without further data.\<close>

fun ws_read ::
    "'z ws_env \<Rightarrow> 'y ws_dispatch \<Rightarrow> data_read list \<Rightarrow> ('z, 'y) ws_connection \<Rightarrow> (bool \<times> ('z, 'y) ws_connection) option" where
  "ws_read e h [] c = Some (True, c)"
| "ws_read e h (Would_Block # reads) c = Some (True, c)"
| "ws_read e h (Read_Error # reads) c = Some (False, c)"
| "ws_read e h (Peer_Closed # reads) c = Some (False, c)"
| "ws_read e h (Data bytes # reads) c = do {
     p \<leftarrow> ws_receive bytes (parser c);
     (outcome, c1) \<leftarrow> ws_frames e h (c\<lparr>parser := p\<rparr>);
     (case outcome of Read_More \<Rightarrow> ws_read e h reads c1 | Read_Return r \<Rightarrow> Some (r, c1))
   }"

text \<open>The life of a connection: one \<open>__read\<close> for each event, until one asks to close, and then
  \<open>websocketsparser_free\<close>.\<close>

fun ws_serve ::
    "'z ws_env \<Rightarrow> 'y ws_dispatch \<Rightarrow> data_read list list \<Rightarrow> ('z, 'y) ws_connection \<Rightarrow> ('z, 'y) ws_connection option" where
  "ws_serve e h [] c = Some c"
| "ws_serve e h (reads # later) c = do {
     (r, c1) \<leftarrow> ws_read e h reads c;
     (if r then ws_serve e h later c1 else Some c1)
   }"

definition websocketsparser_free :: "'z websocketsparser \<Rightarrow> 'z websocketsparser option" where
  "websocketsparser_free p =
     map_option (\<lambda>q. q\<lparr>compressed_buf := snd (bufo_clear (compressed_buf q))\<rparr>) (ws_clear p)"

section \<open>Responses always come back\<close>

lemma prepare_total:
  assumes "n \<le> length blk" and "body_size r = websocketsresponse_data_size n"
  shows "websocketsresponse_prepare m r (Some blk) n \<noteq> None"
proof (cases "malloc m (body_size r)")
  case None
  then show ?thesis
    by (auto simp: websocketsresponse_prepare_def)
next
  case (Some data)
  show ?thesis
    using prepare_spec [OF Some, of n "Some blk"] assms by (simp add: data_size_header ws_body_def)
qed

lemma send_control_total:
  assumes "n \<le> length blk"
  shows "send_control m r code (Some blk) n \<noteq> None"
  using prepare_total [of "if 125 < n then 125 else n" blk "(websocketsresponse_reset r)\<lparr>frame_code := code,
      body_size := websocketsresponse_data_size (if 125 < n then 125 else n)\<rparr>" m] assms
  by (auto simp: send_control_def Let_def split: if_splits)

lemma websocketsresponse_default_total:
  assumes "length txt < WS_COMPRESS_THRESHOLD"
  shows "websocketsresponse_default m z r (Some txt) \<noteq> None"
proof -
  have "\<not> WS_COMPRESS_THRESHOLD \<le> length txt"
    using assms by simp
  then show ?thesis
    using prepare_total [of "length txt" "txt @ [nul]" "(websocketsresponse_reset r)\<lparr>frame_code := 0x80 OR 0x01,
      body_size := websocketsresponse_data_size (length txt)\<rparr>" m]
    by (auto simp: websocketsresponse_default_def websocketsresponse_text_def websocketsresponse_textn_def
        send_data_def split: option.splits)
qed

lemma post_response_spec:
  assumes "\<forall>r. fill r \<noteq> None"
  shows "\<exists>ok ps. post_response h d fill c = Some (ok, c\<lparr>posted := ps\<rparr>)"
proof (cases "response_ok h")
  case True
  obtain r' where "fill (websocketsresponse_create (response_deflate h)) = Some r'"
    using assms by blast
  then show ?thesis
    using True by (auto simp: post_response_def)
next
  case False
  then have "post_response h d fill c = Some (False, c\<lparr>posted := posted c\<rparr>)"
    by (simp add: post_response_def)
  then show ?thesis
    by blast
qed

lemma post_close_default_spec:
  "\<exists>ok ps k. post_close_default h code reason c = Some (ok, c\<lparr>keepalive := k, posted := ps\<rparr>)"
proof (cases "response_ok h")
  case False
  then have "post_close_default h code reason c = Some (False, c\<lparr>keepalive := keepalive c, posted := posted c\<rparr>)"
    by (simp add: post_close_default_def)
  then show ?thesis
    by blast
next
  case True
  define n where "n = (if 123 < length reason then 123 else length reason)"
  define head :: "char list" where "head = [char_of (drop_bit 8 code AND 0xFF), char_of (code AND 0xFF)]"
  obtain p1 where p1: "poke (replicate 125 nul) 0 head = Some p1" "length p1 = 125"
    by (simp add: poke_def head_def)
  have "n \<le> 123" "length (take n reason) = n"
    by (simp_all add: n_def)
  then obtain p2 where p2: "poke p1 2 (take n reason) = Some p2" "length p2 = 125"
    using p1(2) by (simp add: poke_def)
  have "\<forall>r :: 'a websocketsresponse. websocketsresponse_close (response_alloc h) r (Some p2) (2 + n) \<noteq> None"
    unfolding websocketsresponse_close_def using p2(2) \<open>n \<le> 123\<close> by (intro allI send_control_total) simp
  from post_response_spec [OF this, of h False "c\<lparr>keepalive := False\<rparr>"] show ?thesis
    using True p1(1) p2(1) unfolding post_close_default_def Let_def n_def [symmetric] head_def [symmetric] by auto
qed

section \<open>The invariant of a connection\<close>

text \<open>Every request that was created and is neither freed nor held by the parser has been dispatched.\<close>

definition accounted :: "('z, 'y) ws_connection \<Rightarrow> bool" where
  "accounted c \<longleftrightarrow> handed_over (parser c) = int (length (dispatched c))"

text \<open>No dispatched message exceeds the configured limit.\<close>

definition bounded :: "'z ws_env \<Rightarrow> ('z, 'y) ws_connection \<Rightarrow> bool" where
  "bounded e c \<longleftrightarrow> list_all (request_ok e) (dispatched c)"

text \<open>After a frame has been handled: a dispatched request is still referenced by the parser.\<close>

definition handled_result :: "'z ws_env \<Rightarrow> ('z, 'y) ws_connection \<Rightarrow> ('z, 'y) ws_connection \<Rightarrow> bool \<Rightarrow> bool" where
  "handled_result e c c' ok \<longleftrightarrow>
     (\<exists>xs. holds_static (buf (parser c')) xs \<and> length xs \<le> 125) \<and> ws_core e (parser c') \<and>
     frame (parser c') = frame (parser c) \<and> message_fragmented (parser c') = message_fragmented (parser c) \<and>
     length (buffer (parser c')) = length (buffer (parser c)) \<and>
     bytes_readed (parser c') = bytes_readed (parser c) \<and> parser_pos (parser c') = parser_pos (parser c) \<and>
     (bounded e c \<longrightarrow> bounded e c') \<and>
     (if ok \<and> \<not> websocketsparser_is_control_frame (frame (parser c)) \<and> fin (frame (parser c)) \<noteq> 0
      then handed_over ((parser c')\<lparr>request := None\<rparr>) = int (length (dispatched c'))
      else accounted c' \<and> (ok \<longrightarrow> request (parser c') = request (parser c)))"

lemma handed_over_drop:
  "request p = Some r \<Longrightarrow> handed_over (p\<lparr>request := None\<rparr>) = handed_over p + 1"
  by (simp add: handed_over_def)

lemma ws_handle_spec:
  assumes hd: "handled e (parser c)" and acc: "accounted c"
  shows "returns (ws_handle e h d c) (\<lambda>(ok, c'). handled_result e c c' ok)"
proof -
  define p where "p = parser c"
  obtain xs where core: "ws_core e p" and hdr: "header_ok p" and buf: "holds_static (buf p) xs" "length xs \<le> 125"
    using hd by (auto simp: handled_def p_def)
  have get: "bufferdata_get (alloc e) (buf p) = Some (Some (static_buffer (buf p)), buf p)"
    by (rule holds_static_get(1) [OF buf(1)])
  have wr: "bufferdata_writed (buf p) \<le> length (static_buffer (buf p))"
    using holds_static_get(2) [OF buf(1)] holds_static_writed [OF buf(1)] by (simp add: holds_cstring_def)
  have same: "c\<lparr>parser := p\<lparr>buf := buf p\<rparr>\<rparr> = c"
    by (simp add: p_def)
  have keep: "handled_result e c (c\<lparr>keepalive := k, posted := ps\<rparr>) ok" "handled_result e c (c\<lparr>posted := ps\<rparr>) ok"
    "handled_result e c c ok"
    if "websocketsparser_is_control_frame (frame p) \<or> fin (frame p) = 0" for k ps ok
    using that core buf acc by (auto simp: handled_result_def p_def accounted_def bounded_def)
  have close: "\<forall>r :: 'b websocketsresponse. websocketsresponse_close (response_alloc h) r
      (Some (static_buffer (buf p))) (bufferdata_writed (buf p)) \<noteq> None"
    unfolding websocketsresponse_close_def by (intro allI send_control_total wr)
  have pong: "\<forall>r :: 'b websocketsresponse. websocketsresponse_pong (response_alloc h) r
      (Some (static_buffer (buf p))) (bufferdata_writed (buf p)) \<noteq> None"
    unfolding websocketsresponse_pong_def by (intro allI send_control_total wr)
  show ?thesis
  proof (cases "websocketsparser_is_control_frame (frame p) \<or> fin (frame p) = 0")
    case True
    note k = keep [OF True]
    obtain ok1 ps1 where r1: "post_response h d (\<lambda>r. websocketsresponse_close (response_alloc h) r
        (Some (static_buffer (buf p))) (bufferdata_writed (buf p))) (c\<lparr>keepalive := False\<rparr>) =
        Some (ok1, c\<lparr>keepalive := False, posted := ps1\<rparr>)"
      using post_response_spec [OF close, of h d "c\<lparr>keepalive := False\<rparr>"] by auto
    obtain ok2 ps2 where r2: "post_response h d (\<lambda>r. websocketsresponse_pong (response_alloc h) r
        (Some (static_buffer (buf p))) (bufferdata_writed (buf p))) c = Some (ok2, c\<lparr>posted := ps2\<rparr>)"
      using post_response_spec [OF pong, of h d c] by auto
    have "c\<lparr>parser := p, keepalive := False\<rparr> = c\<lparr>keepalive := False\<rparr>" "c\<lparr>parser := p\<rparr> = c"
      by (simp_all add: p_def)
    then have eq: "ws_handle e h d c = Some
       (if opcode (frame p) = WSOPCODE_CLOSE
        then if \<not> response_ok h then (False, c) else (ok1, c\<lparr>keepalive := False, posted := ps1\<rparr>)
        else if opcode (frame p) = WSOPCODE_PING
        then if \<not> response_ok h then (False, c) else (ok2, c\<lparr>posted := ps2\<rparr>)
        else (True, c))"
      using True get r1 r2 unfolding ws_handle_def Let_def p_def [symmetric] websocketsparser_is_control_frame_def
      by auto
    show ?thesis
      unfolding eq using k by simp
  next
    case False
    then have ctl: "\<not> websocketsparser_is_control_frame (frame p)" and fin: "fin (frame p) \<noteq> 0"
      by auto
    obtain r where r: "request p = Some r"
      using hdr ctl by (auto simp: header_ok_def)
    define q where "q = (websocketsrequest_free p)\<lparr>request := None\<rparr>"
    have frag: "\<not> message_fragmented p"
      using hdr ctl fin by (simp add: header_ok_def)
    have q: "handed_over q = handed_over p" "ws_core e q" "buf q = buf p" "frame q = frame p"
      "message_fragmented q = message_fragmented p" "length (buffer q) = length (buffer p)"
      "bytes_readed q = bytes_readed p" "parser_pos q = parser_pos p" "handed_over (q\<lparr>request := None\<rparr>) = handed_over q"
      using r core frag
      by (simp_all add: q_def websocketsrequest_free_def log_event_def handed_over_def ws_core_def window_ok_def)
    have nf: "\<forall>x. websocketsresponse_default (response_alloc h) (zlib h) x (Some ''resource not found'') \<noteq> None"
      by (intro allI websocketsresponse_default_total) (simp add: WS_COMPRESS_THRESHOLD_def)
    obtain ok ps where "post_response h d
        (\<lambda>x. websocketsresponse_default (response_alloc h) (zlib h) x (Some ''resource not found''))
        (c\<lparr>parser := q\<rparr>) = Some (ok, c\<lparr>parser := q, posted := ps\<rparr>)"
      using post_response_spec [OF nf, of h d "c\<lparr>parser := q\<rparr>"] by auto
    then have eq: "ws_handle e h d c =
        (if get_resource h r then Some (True, c\<lparr>dispatched := dispatched c @ [r]\<rparr>)
         else Some (ok, c\<lparr>parser := q, posted := ps\<rparr>))"
      using ctl fin r
      by (simp add: ws_handle_def Let_def p_def [symmetric] q_def websocketsparser_is_control_frame_def)
    show ?thesis
      unfolding eq using ctl fin r q core buf acc handed_over_drop [OF r]
      by (auto simp: handled_result_def p_def [symmetric] accounted_def bounded_def ws_core_def)
  qed
qed

definition conn_ok :: "'z ws_env \<Rightarrow> ('z, 'y) ws_connection \<Rightarrow> bool" where
  "conn_ok e c \<longleftrightarrow> ws_inv e (parser c) \<and> accounted c \<and> bounded e c"

text \<open>What is left of the invariant when the connection is to be closed.\<close>

definition closing_ok :: "'z ws_env \<Rightarrow> ('z, 'y) ws_connection \<Rightarrow> bool" where
  "closing_ok e c \<longleftrightarrow> (\<exists>xs. holds_static (buf (parser c)) xs) \<and> bufo_ok (compressed_buf (parser c)) \<and>
     length (buffer (parser c)) < 2 ^ 63 \<and> accounted c \<and> bounded e c"

lemma conn_ok_closing: "conn_ok e c \<Longrightarrow> closing_ok e c"
  by (auto simp: conn_ok_def closing_ok_def ws_inv_def ws_core_def window_ok_def)

lemma closing_core:
  assumes "ws_core e (parser c)" and "holds_static (buf (parser c)) xs" and "accounted c" and "bounded e c"
  shows "closing_ok e c"
  using assms by (auto simp: closing_ok_def ws_core_def window_ok_def)

lemma accounted_dropped:
  assumes hr: "handled_result e c c' True" and hd: "handled e (parser c)"
    and q: "events q = events (parser c')"
      "request q = (if message_fragmented (parser c') then request (parser c') else None)"
  shows "handed_over q = int (length (dispatched c'))"
proof -
  have frag: "message_fragmented (parser c') = message_fragmented (parser c)" and hdr: "header_ok (parser c)"
    using hr hd by (simp_all add: handled_result_def handled_def)
  show ?thesis
  proof (cases "\<not> websocketsparser_is_control_frame (frame (parser c)) \<and> fin (frame (parser c)) \<noteq> 0")
    case True
    then have "request q = None"
      using hdr q(2) frag by (simp add: header_ok_def)
    then have "handed_over q = handed_over ((parser c')\<lparr>request := None\<rparr>)"
      using q(1) by (simp add: handed_over_def)
    with True hr show ?thesis
      by (simp add: handled_result_def)
  next
    case False
    then have "request (parser c') = request (parser c)" "accounted c'"
      using hr by (auto simp: handled_result_def split: if_splits)
    moreover have "request q = request (parser c')"
      using False hdr q(2) frag calculation(1) by (auto simp: header_ok_def split: if_splits)
    ultimately show ?thesis
      using q(1) by (simp add: accounted_def handed_over_def)
  qed
qed

text \<open>The frames of one read: the loop ends.\<close>

definition outcome_ok :: "'z ws_env \<Rightarrow> nat \<Rightarrow> read_outcome \<Rightarrow> ('z, 'y) ws_connection \<Rightarrow> bool" where
  "outcome_ok e n outcome c \<longleftrightarrow> length (buffer (parser c)) = n \<and>
     (case outcome of Read_More \<Rightarrow> conn_ok e c | Read_Return r \<Rightarrow> if r then conn_ok e c else closing_ok e c)"

lemma ws_frames_spec:
  assumes env: "ws_env_ok e"
  shows "conn_ok e c \<Longrightarrow> at_start (parser c) \<Longrightarrow>
    returns (ws_frames e h c) (\<lambda>(outcome, c'). outcome_ok e (length (buffer (parser c))) outcome c')"
proof (induction "2 * (bytes_readed (parser c) - pos_start (parser c)) +
      (if stage (parser c) = WSPARSER_STAGE_PAYLOAD then 1 else 0)" arbitrary: c rule: less_induct)
  case less
  let ?n = "length (buffer (parser c))"
  have inv: "ws_inv e (parser c)" and acc: "accounted c" and bnd: "bounded e c"
    using less.prems(1) by (simp_all add: conn_ok_def)
  obtain st p where run: "websocketsparser_run e (parser c) = Some (st, p)" "result_ok e (parser c) st p"
    using websocketsparser_run_spec [OF env inv less.prems(2)] by (auto elim!: returnsE)
  define c1 where "c1 = c\<lparr>parser := p\<rparr>"
  have c1: "accounted c1" "length (buffer (parser c1)) = ?n" "bounded e c1"
    using run(2) acc bnd by (simp_all add: c1_def accounted_def result_ok_def bounded_def)
  have close: "returns (map_option (apfst Read_Return) (post_close_default h code reason c1))
      (\<lambda>(outcome, c'). outcome_ok e ?n outcome c')" if "ws_inv e p" for code reason
  proof -
    obtain ok ps k where pc: "post_close_default h code reason c1 = Some (ok, c1\<lparr>keepalive := k, posted := ps\<rparr>)"
      using post_close_default_spec by blast
    have "conn_ok e (c1\<lparr>keepalive := k, posted := ps\<rparr>)"
      using that c1 by (simp add: conn_ok_def accounted_def bounded_def c1_def)
    then show ?thesis
      using pc c1(2) conn_ok_closing by (auto simp: outcome_ok_def)
  qed
  have frames: "returns (ws_handle e h d c1) (\<lambda>(ok, c2). handled_result e c1 c2 ok)" if "handled e p" for d
    using ws_handle_spec [of e c1 h d] that c1(1) by (simp add: c1_def)
  have inv_c1: "conn_ok e c1" if "ws_inv e p"
    using that c1(1,3) by (simp add: conn_ok_def c1_def)
  show ?case
  proof (cases st)
    case WSPARSER_HANDLE_AND_CONTINUE
    then have h: "handled e p" and adv: "bytes_readed p = bytes_readed (parser c)" "pos_start (parser c) \<le> parser_pos p"
      "parser_pos p \<le> bytes_readed p" "stage (parser c) \<noteq> WSPARSER_STAGE_PAYLOAD \<Longrightarrow> pos_start (parser c) < parser_pos p"
      using run(2) less.prems(2) by (auto simp: result_ok_def at_start_def)
    obtain ok c2 where hd: "ws_handle e h True c1 = Some (ok, c2)" "handled_result e c1 c2 ok"
      using frames [OF h, of True] by (auto elim!: returnsE)
    obtain xs where c2: "ws_core e (parser c2)" "holds_static (buf (parser c2)) xs"
      "length (buffer (parser c2)) = ?n" "bytes_readed (parser c2) = bytes_readed p" "parser_pos (parser c2) = parser_pos p"
      using hd(2) c1(2) by (auto simp: handled_result_def c1_def)
    show ?thesis
    proof (cases ok)
      case False
      then have "closing_ok e c2"
        using closing_core [OF c2(1,2)] hd(2) c1(3) by (simp add: handled_result_def)
      then show ?thesis
        using False WSPARSER_HANDLE_AND_CONTINUE run(1) hd(1) c2(3)
        by (subst ws_frames.simps) (simp add: c1_def Let_def outcome_ok_def)
    next
      case True
      obtain q where q: "websocketsparser_prepare_remains (parser c2) = Some q" "ws_inv e q" "at_start q"
        "pos_start q = parser_pos p" "bytes_readed q = bytes_readed p" "length (buffer q) = ?n"
        "stage q = WSPARSER_STAGE_FIRST_BYTE" "events q = events (parser c2)"
        "request q = (if message_fragmented (parser c2) then request (parser c2) else None)"
        using prepare_remains_spec [OF c2(1,2)] adv(3) c2(3-5) by auto
      define c3 where "c3 = c2\<lparr>parser := q\<rparr>"
      have "handed_over q = int (length (dispatched c2))"
        using accounted_dropped [of e c1 c2 q] hd(2) True h q(8,9) by (simp add: c1_def)
      then have "conn_ok e c3" "at_start (parser c3)" "length (buffer (parser c3)) = ?n"
        using q(2,3,6) hd(2) c1(3) by (simp_all add: c3_def conn_ok_def accounted_def bounded_def handled_result_def)
      moreover have "2 * (bytes_readed (parser c3) - pos_start (parser c3)) +
          (if stage (parser c3) = WSPARSER_STAGE_PAYLOAD then 1 else 0) <
          2 * (bytes_readed (parser c) - pos_start (parser c)) +
          (if stage (parser c) = WSPARSER_STAGE_PAYLOAD then 1 else 0)"
        using adv q(4,5,7) by (auto simp: c3_def)
      ultimately have "returns (ws_frames e h c3) (\<lambda>(outcome, c'). outcome_ok e ?n outcome c')"
        using less.hyps [of c3] by simp
      then show ?thesis
        using True WSPARSER_HANDLE_AND_CONTINUE run(1) hd(1) q(1)
        by (subst ws_frames.simps) (simp add: c1_def Let_def c3_def)
    qed
  next
    case WSPARSER_COMPLETE
    then have h: "handled e p"
      using run(2) by (simp add: result_ok_def)
    obtain ok c2 where hd: "ws_handle e h False c1 = Some (ok, c2)" "handled_result e c1 c2 ok"
      using frames [OF h, of False] by (auto elim!: returnsE)
    obtain xs where c2: "ws_core e (parser c2)" "holds_static (buf (parser c2)) xs" "length (buffer (parser c2)) = ?n"
      using hd(2) c1(2) by (auto simp: handled_result_def c1_def)
    show ?thesis
    proof (cases ok)
      case False
      then have "closing_ok e c2"
        using closing_core [OF c2(1,2)] hd(2) c1(3) by (simp add: handled_result_def)
      then show ?thesis
        using False WSPARSER_COMPLETE run(1) hd(1) c2(3)
        by (subst ws_frames.simps) (simp add: c1_def Let_def outcome_ok_def)
    next
      case True
      obtain q where q: "websocketsparser_reset (parser c2) = Some q" "ws_inv e q" "request q = None"
        "events q = events (parser c2)" "length (buffer q) = ?n"
        using websocketsparser_flush_spec [OF c2(2), of e] c2(1,3)
        by (auto simp: websocketsparser_reset_def ws_core_def window_ok_def)
      have "\<not> message_fragmented (parser c2)"
        using hd(2) run(2) WSPARSER_COMPLETE by (simp add: handled_result_def result_ok_def c1_def)
      then have "handed_over q = int (length (dispatched c2))"
        using accounted_dropped [of e c1 c2 q] hd(2) True h q(3,4) by (simp add: c1_def)
      then have "conn_ok e (c2\<lparr>parser := q\<rparr>)"
        using q(2) hd(2) c1(3) by (simp add: conn_ok_def accounted_def bounded_def handled_result_def)
      then show ?thesis
        using True WSPARSER_COMPLETE run(1) hd(1) q(1,5)
        by (subst ws_frames.simps) (simp add: c1_def Let_def outcome_ok_def)
    qed
  next
    case WSPARSER_CONTINUE
    then show ?thesis
      using run inv_c1 c1(2) by (subst ws_frames.simps) (simp add: c1_def Let_def outcome_ok_def result_ok_def)
  next
    case WSPARSER_ERROR
    then show ?thesis
      using run inv_c1 c1(2) conn_ok_closing [of e c1]
      by (subst ws_frames.simps) (simp add: c1_def Let_def outcome_ok_def result_ok_def)
  next
    case WSPARSER_BAD_REQUEST
    then show ?thesis
      using run close by (subst ws_frames.simps) (simp add: c1_def Let_def result_ok_def)
  next
    case WSPARSER_PAYLOAD_LARGE
    then show ?thesis
      using run close by (subst ws_frames.simps) (simp add: c1_def Let_def result_ok_def)
  qed (use run(2) in \<open>simp_all add: result_ok_def\<close>)
qed

definition fits :: "nat \<Rightarrow> data_read \<Rightarrow> bool" where
  "fits n r \<longleftrightarrow> (case r of Data bytes \<Rightarrow> length bytes \<le> n | _ \<Rightarrow> True)"

lemma ws_receive_spec:
  assumes "ws_inv e p" and "length bytes \<le> length (buffer p)"
  shows "\<exists>q. ws_receive bytes p = Some q \<and> ws_inv e q \<and> at_start q \<and> length (buffer q) = length (buffer p) \<and>
           handed_over q = handed_over p"
proof -
  obtain b where b: "poke (buffer p) 0 bytes = Some b" "length b = length (buffer p)"
    using assms(2) by (simp add: poke_def)
  then show ?thesis
    using assms
    by (cases "stage p") (auto simp: ws_receive_def websocketsparser_set_bytes_readed_def ws_inv_def ws_core_def
        window_ok_def stage_inv_def header_ok_def at_start_def handed_over_def)
qed

lemma ws_read_spec:
  assumes env: "ws_env_ok e"
  shows "conn_ok e c \<Longrightarrow> list_all (fits (length (buffer (parser c)))) reads \<Longrightarrow>
    returns (ws_read e h reads c) (\<lambda>(r, c'). length (buffer (parser c')) = length (buffer (parser c)) \<and>
      (if r then conn_ok e c' else closing_ok e c'))"
proof (induction reads arbitrary: c)
  case Nil
  then show ?case
    by simp
next
  case (Cons rd reads)
  show ?case
  proof (cases rd)
    case (Data bytes)
    obtain p where p: "ws_receive bytes (parser c) = Some p" "ws_inv e p" "at_start p"
      "length (buffer p) = length (buffer (parser c))" "handed_over p = handed_over (parser c)"
      using ws_receive_spec [of e "parser c" bytes] Cons.prems Data by (auto simp: conn_ok_def fits_def)
    have "conn_ok e (c\<lparr>parser := p\<rparr>)"
      using Cons.prems(1) p(2,5) by (simp add: conn_ok_def accounted_def bounded_def)
    then obtain outcome c1 where f: "ws_frames e h (c\<lparr>parser := p\<rparr>) = Some (outcome, c1)"
      "outcome_ok e (length (buffer (parser c))) outcome c1"
      using ws_frames_spec [OF env, of "c\<lparr>parser := p\<rparr>" h] p(3,4) by (auto elim!: returnsE)
    show ?thesis
    proof (cases outcome)
      case Read_More
      then have "returns (ws_read e h reads c1) (\<lambda>(r, c'). length (buffer (parser c')) = length (buffer (parser c1)) \<and>
          (if r then conn_ok e c' else closing_ok e c'))"
        using f(2) Cons.prems(2) by (intro Cons.IH) (simp_all add: outcome_ok_def)
      then show ?thesis
        using Data p(1) f Read_More by (simp add: outcome_ok_def)
    next
      case (Read_Return r)
      then show ?thesis
        using Data p(1) f by (simp add: outcome_ok_def)
    qed
  qed (use Cons.prems conn_ok_closing in auto)
qed

lemma ws_serve_spec:
  assumes env: "ws_env_ok e"
  shows "conn_ok e c \<Longrightarrow> list_all (list_all (fits (length (buffer (parser c))))) batches \<Longrightarrow>
    returns (ws_serve e h batches c) (closing_ok e)"
proof (induction batches arbitrary: c)
  case Nil
  then show ?case
    using conn_ok_closing by simp
next
  case (Cons reads batches)
  obtain r c1 where rd: "ws_read e h reads c = Some (r, c1)" "length (buffer (parser c1)) = length (buffer (parser c))"
    "if r then conn_ok e c1 else closing_ok e c1"
    using ws_read_spec [OF env, of c reads h] Cons.prems by (auto elim!: returnsE)
  then show ?case
    using Cons.IH [of c1] Cons.prems(2) by simp
qed

lemma websocketsparser_create_spec:
  assumes "length (static_buffer (buf p0)) = BUFFERDATA_SIZE" and "events p0 = []" and "length cbuf < 2 ^ 63"
  shows "\<exists>p. websocketsparser_create p0 cbuf = Some p \<and> ws_inv e p \<and> events p = [] \<and> request p = None \<and> buffer p = cbuf"
proof -
  obtain b where b: "bufferdata_init (buf p0) = Some b" "bufferdata_inv b" "bufferdata_content b = []"
    using bufferdata_init_spec [OF assms(1)] by (auto simp: bufferdata_inv_def elim!: returnsE)
  then have "holds_static b []"
    by (auto simp: holds_static_def bufferdata_init_def split: Option.bind_splits)
  then show ?thesis
    using b(1) assms(2,3) bufo_init_ok [of "compressed_buf p0"]
    by (auto simp: websocketsparser_create_def websocketsparser_init_def ws_inv_def ws_core_def window_ok_def stage_inv_def
        bufo_init_def bufo_flush_def)
qed

lemma websocketsparser_free_spec:
  assumes "closing_ok e c"
  shows "\<exists>q. websocketsparser_free (parser c) = Some q \<and>
    int (count_list (events q) Request_Created) =
      int (count_list (events q) Request_Freed) + int (length (dispatched c))"
proof -
  obtain xs where c: "holds_static (buf (parser c)) xs" "bufo_ok (compressed_buf (parser c))"
    "length (buffer (parser c)) < 2 ^ 63" "accounted c"
    using assms by (auto simp: closing_ok_def)
  obtain q where q: "ws_clear (parser c) = Some q" "request q = None" "handed_over q = handed_over (parser c)"
    using ws_clear_spec [OF c(1-3)] by blast
  then have "int (count_list (events q) Request_Created) =
      int (count_list (events q) Request_Freed) + int (length (dispatched c))"
    using c(4) by (simp add: accounted_def handed_over_def)
  then show ?thesis
    using q(1) by (simp add: websocketsparser_free_def)
qed

definition open_connection ::
    "'z websocketsparser \<Rightarrow> bool \<Rightarrow> bool \<Rightarrow> ('z, 'y) ws_connection" where
  "open_connection p deflate_enabled no_takeover =
     \<lparr>parser = p\<lparr>ws_deflate_enabled := deflate_enabled, inflate_init := deflate_enabled,
                client_no_context_takeover := no_takeover\<rparr>,
      keepalive = True, posted = [], dispatched = []\<rparr>"

lemma ws_inv_configured:
  "ws_inv e (p\<lparr>ws_deflate_enabled := a, inflate_init := b, client_no_context_takeover := t\<rparr>) = ws_inv e p"
  by (cases "stage p") (simp_all add: ws_inv_def ws_core_def window_ok_def stage_inv_def header_ok_def)

section \<open>Properties\<close>

text \<open>Property C2. Whatever a peer sends, divided into reads in any way, and whatever allocations,
  file operations and queue operations fail: the read events of a connection come to an end, no
  access leaves a buffer and no absent request is dereferenced; after the parser is freed, every
  request that was created has been either dispatched or freed, exactly once; and no dispatched
  message is longer than the configured limit. The hypotheses on the environment are that the
  limit is below \<open>2 ^ 63\<close>, that \<open>write\<close> is not interrupted for ever and that \<open>inflate\<close> keeps to
  its buffers.\<close>

theorem ws_serve_safe:
  assumes "ws_env_ok e" and "length (static_buffer (buf p0)) = BUFFERDATA_SIZE" and "events p0 = []"
    and "length cbuf < 2 ^ 63" and "list_all (list_all (fits (length cbuf))) batches"
  shows "returns (do { p \<leftarrow> websocketsparser_create p0 cbuf;
                       c \<leftarrow> ws_serve e h batches (open_connection p dfl ntk);
                       q \<leftarrow> websocketsparser_free (parser c);
                       Some (c, q) })
           (\<lambda>(c, q). count_list (events q) Request_Created =
                        count_list (events q) Request_Freed + length (dispatched c) \<and>
                     list_all (\<lambda>r. length (stored r) \<le> client_max_body_size e) (dispatched c))"
proof -
  obtain p where p: "websocketsparser_create p0 cbuf = Some p" "ws_inv e p" "events p = []" "request p = None"
    "buffer p = cbuf"
    using websocketsparser_create_spec [OF assms(2-4)] by blast
  let ?c = "open_connection p dfl ntk :: ('a, 'b) ws_connection"
  have "ws_inv e (parser ?c)" "length (buffer (parser ?c)) = length cbuf"
    using p(2,5) by (simp_all add: open_connection_def ws_inv_configured)
  then have "conn_ok e ?c"
    using p(3,4) by (simp add: conn_ok_def accounted_def bounded_def open_connection_def handed_over_def)
  then obtain c where c: "ws_serve e h batches ?c = Some c" "closing_ok e c"
    using ws_serve_spec [OF assms(1), of ?c batches h] assms(5) \<open>length (buffer (parser ?c)) = length cbuf\<close>
    by (auto elim!: returnsE)
  obtain q where "websocketsparser_free (parser c) = Some q"
    "int (count_list (events q) Request_Created) = int (count_list (events q) Request_Freed) + int (length (dispatched c))"
    using websocketsparser_free_spec [OF c(2)] by blast
  moreover have "list_all (\<lambda>r. length (stored r) \<le> client_max_body_size e) (dispatched c)"
    using c(2) unfolding closing_ok_def bounded_def request_ok_def by simp
  ultimately show ?thesis
    using p(1) c(1) by simp
qed

text \<open>An environment in which everything succeeds, for the witnesses.\<close>

definition plain_env :: "unit ws_env" where
  "plain_env = \<lparr>client_max_body_size = 1000, alloc = total_allocator (\<lambda>_ _. nul), protocol_ok = True,
     create_ok = True, tmpfile_ok = True, lseek_ok = True, os_write = (\<lambda>k f s. Wrote (length s)),
     inflate = (\<lambda>z inp. (Z_OK, length inp, [], ())), inflateReset = id\<rparr>"

definition plain_dispatch :: "unit ws_dispatch" where
  "plain_dispatch = \<lparr>get_resource = (\<lambda>r. True), response_ok = True, post = (\<lambda>d r. True),
     response_alloc = total_allocator (\<lambda>_ _. nul), zlib = halving_zlib, response_deflate = None\<rparr>"

definition blank_parser :: "unit websocketsparser" where
  "blank_parser = \<lparr>stage = WSPARSER_STAGE_FIRST_BYTE,
     frame = \<lparr>fin = 0, rsv1 = 0, rsv2 = 0, rsv3 = 0, opcode = 0, masked = 0, mask = [], payload_length = 0\<rparr>,
     buf = blank_bufferdata, bytes_readed = 0, pos_start = 0, parser_pos = 0, payload_index = 0,
     payload_saved_length = 0, message_fragmented = False, buffer = [], request = None,
     ws_deflate_enabled = False, inflate_stream = (), inflate_init = False, client_no_context_takeover = False,
     compressed_buf = blank_bufo, compressed_buffered = 0, compressed_consumed = 0, decompressed_total = 0,
     utf8_validator = utf8_start, events = []\<rparr>"

lemma plain_env_ok: "ws_env_ok plain_env"
  by (auto simp: ws_env_ok_def plain_env_def)

theorem ws_serve_safe_witness:
  "ws_env_ok plain_env \<and> length (static_buffer (buf blank_parser)) = BUFFERDATA_SIZE \<and> events blank_parser = [] \<and>
   length (replicate 64 nul) < 2 ^ 63 \<and> list_all (list_all (fits (length (replicate 64 nul)))) [[Data ''abc'', Would_Block]] \<and>
   returns (do { p \<leftarrow> websocketsparser_create blank_parser (replicate 64 nul);
                 c \<leftarrow> ws_serve plain_env plain_dispatch [[Data ''abc'', Would_Block]] (open_connection p True False);
                 q \<leftarrow> websocketsparser_free (parser c);
                 Some (c, q) })
     (\<lambda>(c, q). count_list (events q) Request_Created =
                  count_list (events q) Request_Freed + length (dispatched c) \<and>
               list_all (\<lambda>r. length (stored r) \<le> client_max_body_size plain_env) (dispatched c))"
proof -
  have "length (static_buffer (buf blank_parser)) = BUFFERDATA_SIZE" "events blank_parser = []"
    "length (replicate 64 nul) < 2 ^ 63"
    "list_all (list_all (fits (length (replicate 64 nul)))) [[Data ''abc'', Would_Block]]"
    by (simp_all add: blank_parser_def blank_bufferdata_def fits_def)
  with plain_env_ok ws_serve_safe [OF plain_env_ok this] show ?thesis
    by blast
qed

end
