(* ===== verification/Ws_Write.thy ===== *)
theory Ws_Write
  imports Ws_Response
begin

text \<open>
  The write side of a WebSocket connection (\<open>__write\<close> in
  protocols/websocket/server/websocketsserverhandlers.c): a response, a frame in memory followed by
  the content of a file, is sent in as many write events as the socket needs. The results of
  \<open>send\<close> and \<open>read\<close> are parameters. The theory shows that the bytes the socket accepts are always
  a prefix of the response in order, that the end of the response is reported only when all
  of it has been accepted, and that it is reported when every call makes some progress.
\<close>

section \<open>Writing\<close>

datatype io_result = IO_Done nat | IO_Again | IO_Failed

datatype write_outcome = Write_Again | Write_Close | Write_Finished

text \<open>
  \<open>__write\<close> with the result of \<open>send\<close> for the bytes it is given, and the content of the response's
  file. The result includes the bytes the socket has accepted. \<open>Write_Finished\<close> is the call of
  \<open>connection_after_write\<close>. \<open>read_result\<close> is the result of \<open>read\<close> from the file.
\<close>

definition ws_write_file ::
    "nat \<Rightarrow> char list \<Rightarrow> io_result \<Rightarrow> io_result \<Rightarrow> 'y websocketsresponse \<Rightarrow>
     write_outcome \<times> char list \<times> 'y websocketsresponse" where
  "ws_write_file buffer_size content read_result w r =
     (if file_fd r > -1 \<and> file_pos r < file_size r then
        let n = (if buffer_size < file_size r - file_pos r then buffer_size else file_size r - file_pos r)
        in case read_result of
             IO_Again \<Rightarrow> (Write_Again, [], r)
           | IO_Failed \<Rightarrow> (Write_Close, [], r)
           | IO_Done k \<Rightarrow>
               let bytes = take k (take n (drop (file_pos r) content))
               in if bytes = [] then (Write_Close, [], r)
                  else case w of
                         IO_Again \<Rightarrow> (Write_Again, [], r)
                       | IO_Failed \<Rightarrow> (Write_Close, [], r)
                       | IO_Done j \<Rightarrow>
                           let r1 = r\<lparr>file_pos := file_pos r + length (take j bytes)\<rparr>
                           in if file_pos r1 < file_size r1 then (Write_Again, take j bytes, r1)
                              else (Write_Finished, take j bytes, r1)
      else (Write_Finished, [], r))"

definition ws_write ::
    "nat \<Rightarrow> char list \<Rightarrow> io_result \<Rightarrow> io_result \<Rightarrow> io_result \<Rightarrow> 'y websocketsresponse option \<Rightarrow>
     (write_outcome \<times> char list \<times> 'y websocketsresponse option) option" where
  "ws_write buffer_size content w1 read_result w2 response =
     (case response of
        None \<Rightarrow> Some (Write_Close, [], None)
      | Some r \<Rightarrow>
          (case body_data r of
             None \<Rightarrow> Some (Write_Finished, [], Some r)
           | Some data \<Rightarrow>
               if body_pos r < body_size r then do {
                 let n = (if buffer_size < body_size r - body_pos r then buffer_size else body_size r - body_pos r);
                 bytes \<leftarrow> peek data (body_pos r) n;
                 (case w1 of
                    IO_Again \<Rightarrow> Some (Write_Again, [], Some r)
                  | IO_Failed \<Rightarrow> Some (Write_Close, [], Some r)
                  | IO_Done k \<Rightarrow>
                      let out = take k bytes; r1 = r\<lparr>body_pos := body_pos r + length out\<rparr>
                      in if body_pos r1 < body_size r1 then Some (Write_Again, out, Some r1)
                         else let (o2, out2, r2) = ws_write_file buffer_size content read_result w2 r1
                              in Some (o2, out @ out2, Some r2))
               }
               else let (o2, out2, r2) = ws_write_file buffer_size content read_result w2 r
                    in Some (o2, out2, Some r2)))"

text \<open>A sequence of write events, until one is not to be repeated.\<close>

fun ws_writes ::
    "nat \<Rightarrow> char list \<Rightarrow> (io_result \<times> io_result \<times> io_result) list \<Rightarrow> 'y websocketsresponse option \<Rightarrow>
     (write_outcome \<times> char list \<times> 'y websocketsresponse option) option" where
  "ws_writes buffer_size content [] response = Some (Write_Again, [], response)"
| "ws_writes buffer_size content ((w1, rd, w2) # later) response = do {
     (oc, out, response1) \<leftarrow> ws_write buffer_size content w1 rd w2 response;
     (if oc = Write_Again then do {
        (oc2, out2, response2) \<leftarrow> ws_writes buffer_size content later response1;
        Some (oc2, out @ out2, response2)
      }
      else Some (oc, out, response1))
   }"

section \<open>What remains to be sent\<close>

definition unsent_body :: "'y websocketsresponse \<Rightarrow> char list" where
  "unsent_body r = (case body_data r of None \<Rightarrow> [] | Some data \<Rightarrow> drop (body_pos r) (take (body_size r) data))"

definition unsent_file :: "char list \<Rightarrow> 'y websocketsresponse \<Rightarrow> char list" where
  "unsent_file content r = (if file_fd r > -1 then drop (file_pos r) (take (file_size r) content) else [])"

definition unsent :: "char list \<Rightarrow> 'y websocketsresponse \<Rightarrow> char list" where
  "unsent content r = unsent_body r @ unsent_file content r"

definition write_ok :: "char list \<Rightarrow> 'y websocketsresponse \<Rightarrow> bool" where
  "write_ok content r \<longleftrightarrow> body_pos r \<le> body_size r \<and>
     (case body_data r of None \<Rightarrow> False | Some data \<Rightarrow> body_size r \<le> length data) \<and>
     (file_fd r > -1 \<longrightarrow> file_pos r \<le> file_size r \<and> file_size r \<le> length content)"

definition progresses :: "io_result \<Rightarrow> bool" where
  "progresses w \<longleftrightarrow> (case w of IO_Done n \<Rightarrow> 0 < n | _ \<Rightarrow> False)"

text \<open>What one write event guarantees.\<close>

definition write_step :: "char list \<Rightarrow> bool \<Rightarrow> 'y websocketsresponse \<Rightarrow> write_outcome \<Rightarrow> char list \<Rightarrow> 'y websocketsresponse \<Rightarrow> bool" where
  "write_step content active r oc out r' \<longleftrightarrow> write_ok content r' \<and> unsent content r = out @ unsent content r' \<and>
     (oc = Write_Finished \<longrightarrow> unsent content r' = []) \<and>
     (active \<longrightarrow> oc \<noteq> Write_Close \<and> (oc = Write_Again \<longrightarrow> out \<noteq> [] \<and> unsent content r' \<noteq> []))"

lemma file_step:
  assumes "write_ok content r" and "unsent_body r = []"
  shows "case ws_write_file bs content rd w r of (oc, out, r') \<Rightarrow>
           write_step content (0 < bs \<and> progresses rd \<and> progresses w) r oc out r' \<and> body_data r' = body_data r"
proof (cases "file_fd r > -1 \<and> file_pos r < file_size r")
  case False
  then have "unsent content r = []"
    using assms by (auto simp: unsent_def unsent_file_def write_ok_def)
  then show ?thesis
    using False assms(1) by (auto simp: ws_write_file_def write_step_def)
next
  case True
  have fs: "file_size r \<le> length content"
    using True assms(1) by (simp add: write_ok_def)
  have un: "unsent content r = drop (file_pos r) (take (file_size r) content)"
    using True assms(2) by (simp add: unsent_def unsent_file_def)
  define n where "n = (if bs < file_size r - file_pos r then bs else file_size r - file_pos r)"
  define piece where "piece k j = take j (take k (take n (drop (file_pos r) content)))" for k j
  have n: "n \<le> file_size r - file_pos r"
    by (simp add: n_def)
  have piece: "piece k j = take (length (piece k j)) (unsent content r)" "length (piece k j) \<le> file_size r - file_pos r" for k j
  proof -
    define m where "m = min j (min k n)"
    have m: "m \<le> file_size r - file_pos r"
      using n by (simp add: m_def)
    have eq: "piece k j = take m (drop (file_pos r) content)"
      by (simp add: piece_def m_def)
    then have "piece k j = take m (unsent content r)"
      using m by (simp add: un drop_take)
    moreover have "length (piece k j) = m"
      using m fs eq by simp
    ultimately show "piece k j = take (length (piece k j)) (unsent content r)" "length (piece k j) \<le> file_size r - file_pos r"
      using m by simp_all
  qed
  define r1 where "r1 k j = r\<lparr>file_pos := file_pos r + length (piece k j)\<rparr>" for k j
  have after: "unsent content (r1 k j) = drop (length (piece k j)) (unsent content r)" "write_ok content (r1 k j)"
    "unsent content (r1 k j) = [] \<longleftrightarrow> \<not> file_pos r + length (piece k j) < file_size r" for k j
    using True assms fs piece(2) [of k j]
    by (auto simp: un unsent_def unsent_file_def unsent_body_def r1_def write_ok_def add.commute split: option.splits)
  have stay: "write_step content False r oc [] r" if "oc \<noteq> Write_Finished" for oc
    using that assms(1) by (simp add: write_step_def)
  have ne: "piece k j \<noteq> []" if "0 < bs" "0 < k" "0 < j" for k j
    using that True fs by (auto simp: piece_def n_def)
  have go: "write_step content (0 < bs \<and> 0 < k \<and> 0 < j) r
      (if file_pos r + length (piece k j) < file_size r then Write_Again else Write_Finished) (piece k j) (r1 k j)" for k j
  proof -
    have "unsent content r = piece k j @ unsent content (r1 k j)"
      using piece(1) [of k j] after(1) [of k j] by (metis append_take_drop_id)
    then show ?thesis
      using after(2,3) [of k j] ne [of k j] by (auto simp: write_step_def)
  qed
  have eq: "ws_write_file bs content rd w r =
      (case rd of
         IO_Again \<Rightarrow> (Write_Again, [], r)
       | IO_Failed \<Rightarrow> (Write_Close, [], r)
       | IO_Done k \<Rightarrow>
           if take k (take n (drop (file_pos r) content)) = [] then (Write_Close, [], r)
           else case w of
                  IO_Again \<Rightarrow> (Write_Again, [], r)
                | IO_Failed \<Rightarrow> (Write_Close, [], r)
                | IO_Done j \<Rightarrow>
                    (if file_pos r + length (piece k j) < file_size r then Write_Again else Write_Finished, piece k j, r1 k j))"
    unfolding ws_write_file_def Let_def n_def [symmetric] piece_def r1_def using True
    by (simp del: take_take split: io_result.splits)
  show ?thesis
  proof (cases "\<exists>k j. rd = IO_Done k \<and> w = IO_Done j \<and> take k (take n (drop (file_pos r) content)) \<noteq> []")
    case True
    then obtain k j where kj: "rd = IO_Done k" "w = IO_Done j" "take k (take n (drop (file_pos r) content)) \<noteq> []"
      by blast
    then show ?thesis
      using eq go [of k j] by (simp add: progresses_def r1_def del: take_take)
  next
    case False
    then have "ws_write_file bs content rd w r = (Write_Again, [], r) \<or> ws_write_file bs content rd w r = (Write_Close, [], r)"
      using eq by (cases rd; cases w) (auto simp del: take_take take_eq_Nil split: if_splits)
    moreover have "\<not> (0 < bs \<and> progresses rd \<and> progresses w)"
      using False True fs by (cases rd; cases w) (auto simp: progresses_def n_def split: if_splits)
    ultimately show ?thesis
      using stay by auto
  qed
qed

lemma write_step_trans:
  assumes "unsent content r = out1 @ unsent content r1" and "write_step content active r1 oc out r'"
  shows "write_step content active r oc (out1 @ out) r'"
  using assms by (auto simp: write_step_def)

lemma ws_write_step:
  assumes "write_ok content r"
  shows "returns (ws_write bs content w1 rd w2 (Some r))
    (\<lambda>(oc, out, r'). \<exists>q. r' = Some q \<and> write_step content (0 < bs \<and> progresses w1 \<and> progresses rd \<and> progresses w2) r oc out q)"
proof -
  obtain data where data: "body_data r = Some data" "body_pos r \<le> body_size r" "body_size r \<le> length data"
    using assms by (auto simp: write_ok_def split: option.splits)
  show ?thesis
  proof (cases "body_pos r < body_size r")
    case False
    then have "unsent_body r = []"
      using data by (simp add: unsent_body_def)
    from file_step [OF assms this, of bs rd w2] show ?thesis
      using False data by (auto simp: ws_write_def write_step_def split: prod.splits)
  next
    case True
    define n where "n = (if bs < body_size r - body_pos r then bs else body_size r - body_pos r)"
    define bytes where "bytes = take n (drop (body_pos r) data)"
    have n: "n \<le> body_size r - body_pos r" "0 < bs \<longrightarrow> 0 < n"
      using True by (auto simp: n_def)
    have pk: "peek data (body_pos r) n = Some bytes"
      using n(1) data True by (simp add: peek_def bytes_def)
    have bt: "length bytes = n" "bytes = take n (unsent_body r)"
      using n(1) data True by (simp_all add: bytes_def unsent_body_def drop_take)
    define r1 where "r1 k = r\<lparr>body_pos := body_pos r + length (take k bytes)\<rparr>" for k
    have r1: "write_ok content (r1 k)" "unsent content r = take k bytes @ unsent content (r1 k)"
      "body_data (r1 k) = Some data" "unsent_body (r1 k) = [] \<longleftrightarrow> \<not> body_pos (r1 k) < body_size (r1 k)" for k
    proof -
      have len: "length (take k bytes) \<le> body_size r - body_pos r"
        using n(1) bt(1) by simp
      then show "write_ok content (r1 k)" "body_data (r1 k) = Some data"
        "unsent_body (r1 k) = [] \<longleftrightarrow> \<not> body_pos (r1 k) < body_size (r1 k)"
        using assms data True by (auto simp: r1_def write_ok_def unsent_body_def)
      have "unsent_body (r1 k) = drop (length (take k bytes)) (unsent_body r)"
        using data(1) by (simp add: unsent_body_def r1_def add.commute)
      moreover have "take k bytes = take (length (take k bytes)) (unsent_body r)"
        unfolding bt(2) by (simp add: min_def)
      ultimately have "unsent_body r = take k bytes @ unsent_body (r1 k)"
        by (metis append_take_drop_id)
      then show "unsent content r = take k bytes @ unsent content (r1 k)"
        by (simp add: unsent_def unsent_file_def r1_def)
    qed
    have stay: "write_step content False r oc [] r" if "oc \<noteq> Write_Finished" for oc
      using that assms(1) by (simp add: write_step_def)
    have eq: "ws_write bs content w1 rd w2 (Some r) =
        (case w1 of
           IO_Again \<Rightarrow> Some (Write_Again, [], Some r)
         | IO_Failed \<Rightarrow> Some (Write_Close, [], Some r)
         | IO_Done k \<Rightarrow>
             if body_pos (r1 k) < body_size (r1 k) then Some (Write_Again, take k bytes, Some (r1 k))
             else let (o2, out2, r2) = ws_write_file bs content rd w2 (r1 k)
                  in Some (o2, take k bytes @ out2, Some r2))"
      unfolding ws_write_def Let_def option.case n_def [symmetric] r1_def using True data(1) pk by (simp cong: io_result.case_cong)
    show ?thesis
    proof (cases w1)
      case (IO_Done k)
      show ?thesis
      proof (cases "body_pos (r1 k) < body_size (r1 k)")
        case True': True
        have "take k bytes \<noteq> []" if "0 < bs" "progresses w1"
          using that n(2) bt(1) IO_Done by (auto simp: progresses_def)
        moreover have "ws_write bs content w1 rd w2 (Some r) = Some (Write_Again, take k bytes, Some (r1 k))"
          using eq True' IO_Done by simp
        ultimately show ?thesis
          using r1 [of k] True' by (auto simp: write_step_def unsent_def)
      next
        case False
        obtain oc out q where f: "ws_write_file bs content rd w2 (r1 k) = (oc, out, q)"
          by (cases "ws_write_file bs content rd w2 (r1 k)")
        then have "ws_write bs content w1 rd w2 (Some r) = Some (oc, take k bytes @ out, Some q)"
          using eq False IO_Done by simp
        moreover have "write_step content (0 < bs \<and> progresses rd \<and> progresses w2) (r1 k) oc out q"
          using file_step [OF r1(1), of k bs rd w2] r1(4) [of k] False f by simp
        from write_step_trans [OF r1(2) this]
        have "write_step content (0 < bs \<and> progresses rd \<and> progresses w2) r oc (take k bytes @ out) q" .
        ultimately show ?thesis
          by (auto simp: write_step_def)
      qed
    qed (use eq stay in \<open>simp_all add: progresses_def\<close>)
  qed
qed

section \<open>Properties\<close>

lemma ws_writes_step:
  assumes "write_ok content r"
  shows "returns (ws_writes bs content events (Some r))
    (\<lambda>(oc, out, r'). \<exists>q. r' = Some q \<and> unsent content r = out @ unsent content q \<and>
       (oc = Write_Finished \<longrightarrow> unsent content q = []) \<and>
       (0 < bs \<and> list_all (\<lambda>(w1, rd, w2). progresses w1 \<and> progresses rd \<and> progresses w2) events \<and>
        length (unsent content r) < length events \<longrightarrow> oc = Write_Finished))"
  using assms
proof (induction events arbitrary: r)
  case (Cons ev events)
  obtain w1 rd w2 where ev: "ev = (w1, rd, w2)"
    by (cases ev)
  define active where "active \<longleftrightarrow> 0 < bs \<and> progresses w1 \<and> progresses rd \<and> progresses w2"
  obtain oc out q where st: "ws_write bs content w1 rd w2 (Some r) = Some (oc, out, Some q)"
    "write_step content active r oc out q"
    using ws_write_step [OF Cons.prems, of bs w1 rd w2] unfolding active_def [symmetric] by (auto elim!: returnsE)
  then have q: "write_ok content q" "unsent content r = out @ unsent content q"
    by (simp_all add: write_step_def)
  show ?case
  proof (cases "oc = Write_Again")
    case False
    then show ?thesis
      using st by (cases oc) (auto simp: ev write_step_def active_def)
  next
    case True
    have "active \<longrightarrow> length (unsent content q) < length (unsent content r)"
      using st(2) True q(2) by (simp add: write_step_def)
    then show ?thesis
      using Cons.IH [OF q(1)] st(1) True q(2) unfolding ev
      by (auto simp: active_def simp del: length_append elim!: returnsE)
  qed
qed simp

text \<open>Property C8. Whatever the socket and the file system answer in a sequence of write events, the
  bytes the socket has accepted are a prefix of the response, the frame followed by the
  content of the file, without gap or repetition; the end of the response is reported only
  when all of it has been accepted. When every call makes some progress, the end is
  reported after at most as many events as the response has bytes, plus one.\<close>

theorem ws_writes_complete:
  assumes "body_data r = Some data" and "body_pos r = 0" and "body_size r \<le> length data"
    and "file_fd r > -1 \<longrightarrow> file_pos r = 0 \<and> file_size r = length content"
    and "full = take (body_size r) data @ (if file_fd r > -1 then content else [])"
  shows "returns (ws_writes bs content events (Some r))
    (\<lambda>(oc, out, r'). (\<exists>rest. full = out @ rest) \<and> (oc = Write_Finished \<longrightarrow> out = full) \<and>
       (0 < bs \<and> list_all (\<lambda>(w1, rd, w2). progresses w1 \<and> progresses rd \<and> progresses w2) events \<and>
        length full < length events \<longrightarrow> oc = Write_Finished))"
proof -
  have "write_ok content r" "unsent content r = full"
    using assms by (auto simp: write_ok_def unsent_def unsent_body_def unsent_file_def)
  with ws_writes_step [of content r bs events] show ?thesis
    by (auto elim!: returns_mono)
qed

definition short_response :: "unit websocketsresponse" where
  "short_response = (websocketsresponse_create None)\<lparr>body_data := Some ''abc'', body_size := 3, body_pos := 0, file_fd := 4,
     file_pos := 0, file_size := 2\<rparr>"

theorem ws_writes_complete_witness:
  "body_data short_response = Some ''abc'' \<and> body_pos short_response = 0 \<and> body_size short_response \<le> length ''abc'' \<and>
   file_fd short_response > -1 \<and> file_pos short_response = 0 \<and> file_size short_response = length ''de'' \<and>
   ''abcde'' = take (body_size short_response) ''abc'' @ (if file_fd short_response > -1 then ''de'' else []) \<and>
   returns (ws_writes 2 ''de'' (replicate 6 (IO_Done 1, IO_Done 2, IO_Done 1)) (Some short_response))
    (\<lambda>(oc, out, r'). oc = Write_Finished \<and> out = ''abcde'')"
proof -
  have 1: "body_data short_response = Some ''abc''" "body_pos short_response = 0" "body_size short_response \<le> length ''abc''"
    "file_fd short_response > -1 \<longrightarrow> file_pos short_response = 0 \<and> file_size short_response = length ''de''"
    "''abcde'' = take (body_size short_response) ''abc'' @ (if file_fd short_response > -1 then ''de'' else [])"
    by (simp_all add: short_response_def)
  have 2: "file_fd short_response > -1"
    by (simp add: short_response_def)
  have "list_all (\<lambda>(w1, rd, w2). progresses w1 \<and> progresses rd \<and> progresses w2) (replicate 6 (IO_Done 1, IO_Done 2, IO_Done 1))"
    by (simp add: progresses_def list_all_iff)
  with 1 2 ws_writes_complete [OF 1, of 2 "replicate 6 (IO_Done 1, IO_Done 2, IO_Done 1)"] show ?thesis
    by (auto elim!: returns_mono)
qed

end
