(* ===== verification/Ws_Decode.thy ===== *)
theory Ws_Decode
  imports Ws_Handlers
begin

text \<open>
  The WebSocket parser as a decoder. A client frame of RFC 6455 (masked, one of the three length
  forms) is parsed to its payload, however its bytes are divided into reads.
\<close>

section \<open>Masking\<close>

lemma byte_xor_involution [simp]: "byte_xor (byte_xor c k) k = c"
proof -
  have "ord c XOR ord k < 256"
  proof -
    have "take_bit 8 (ord c XOR ord k) = ord c XOR ord k"
      by (simp add: take_bit_xor take_bit_nat_eq_self)
    then show ?thesis
      using take_bit_nat_less_exp [of 8 "ord c XOR ord k"] by simp
  qed
  then have "ord (byte_xor c k) = ord c XOR ord k"
    by (simp add: byte_xor_def)
  then show ?thesis
    by (simp add: byte_xor_def [of "byte_xor c k"] xor.assoc)
qed

lemma unmask_involution [simp]: "unmask key i (unmask key i xs) = xs"
  by (induction xs arbitrary: i) simp_all

lemma unmask_append: "unmask key i (xs @ ys) = unmask key i xs @ unmask key (i + length xs) ys"
  by (induction xs arbitrary: i) simp_all

lemma unmask_split:
  "unmask key i (take n xs) = take n (unmask key i xs)"
  "unmask key (i + n) (drop n xs) = drop n (unmask key i xs)"
proof -
  have eq: "unmask key i xs = unmask key i (take n xs) @ unmask key (i + length (take n xs)) (drop n xs)"
    unfolding unmask_append [symmetric] by simp
  show "unmask key i (take n xs) = take n (unmask key i xs)"
    using arg_cong [OF eq, of "take n"] by (cases "n \<le> length xs") simp_all
  show "unmask key (i + n) (drop n xs) = drop n (unmask key i xs)"
    using arg_cong [OF eq, of "drop n"] by (cases "n \<le> length xs") simp_all
qed

section \<open>A reliable environment\<close>

definition ws_env_good :: "'z ws_env \<Rightarrow> bool" where
  "ws_env_good e \<longleftrightarrow> ws_env_ok e \<and> protocol_ok e \<and> create_ok e \<and> tmpfile_ok e \<and> lseek_ok e \<and>
     (\<forall>k f s. s \<noteq> [] \<longrightarrow> (\<exists>n. os_write e k f s = Wrote n \<and> 0 < n))"

lemma write_loop_good:
  assumes "\<And>k f s. s \<noteq> [] \<Longrightarrow> \<exists>n. os_write e k f s = Wrote n \<and> 0 < n"
  shows "write_loop e k f s = Some (True, f @ s)"
proof (induction "length s" arbitrary: k f s rule: less_induct)
  case less
  show ?case
  proof (cases "s = []")
    case True
    then show ?thesis
      by (simp add: write_loop.simps)
  next
    case False
    obtain n where n: "os_write e k f s = Wrote n" "0 < n"
      using assms [OF False] by blast
    have "write_loop e (k + 1) (f @ take n s) (drop n s) = Some (True, (f @ take n s) @ drop n s)"
      using False n(2) by (intro less) simp
    then show ?thesis
      using False n by (subst write_loop.simps) simp
  qed
qed

lemma payload_store_good:
  assumes env: "ws_env_good e" and r: "request p = Some r"
    and len: "length (stored r) + length string \<le> client_max_body_size e" and ne: "string \<noteq> []"
  shows "payload_store e p string = Some (True, p\<lparr>request := Some (r\<lparr>payload := Some (stored r @ string)\<rparr>)\<rparr>)"
proof -
  obtain r1 where r1: "websockets_create_tmpfile e r = (True, r1)" "payload r1 = Some (stored r)"
    "r1\<lparr>payload := f\<rparr> = r\<lparr>payload := f\<rparr>" for f
    using env that [of "r\<lparr>payload := Some (stored r)\<rparr>"]
    by (cases "payload r") (auto simp: websockets_create_tmpfile_def stored_def ws_env_good_def)
  have "szadd (length (stored r)) (length string) = length (stored r) + length string"
    using len env by (intro szadd_exact) (simp add: ws_env_good_def ws_env_ok_def size_modulus_def)
  moreover have "write_loop e 0 (stored r) string = Some (True, stored r @ string)"
    using env by (intro write_loop_good) (simp add: ws_env_good_def)
  ultimately show ?thesis
    using r r1 ne len env by (simp add: payload_store_def ws_env_good_def Let_def)
qed

section \<open>Client frames\<close>

text \<open>The length bytes of a client frame are those of a server frame with the mask bit set in the
  first of them.\<close>

definition ws_more_length :: "nat \<Rightarrow> char list" where
  "ws_more_length n = tl (ws_length n)"

definition ws_second_byte :: "nat \<Rightarrow> char" where
  "ws_second_byte n = char_of (0x80 + (if n \<le> 125 then n else if n \<le> 65535 then 126 else 127))"

definition client_frame :: "nat \<Rightarrow> nat \<Rightarrow> char list \<Rightarrow> char list \<Rightarrow> char list" where
  "client_frame fn op key plain =
     char_of (0x80 * fn + op) # ws_second_byte (length plain) # ws_more_length (length plain) @ key @ unmask key 0 plain"

lemma more_length_cases:
  "n \<le> 125 \<Longrightarrow> ws_more_length n = []"
  "125 < n \<Longrightarrow> n \<le> 65535 \<Longrightarrow> ws_more_length n = map (length_byte n) [1, 0]"
  "65535 < n \<Longrightarrow> ws_more_length n = map (length_byte n) [7, 6, 5, 4, 3, 2, 1, 0]"
  by (simp_all add: ws_more_length_def ws_length_def)

lemma more_length_nonempty: "125 < n \<Longrightarrow> ws_more_length n \<noteq> []"
  by (cases "n \<le> 65535") (simp_all add: more_length_cases)

lemma more_length_value:
  assumes "n < 2 ^ 64" and "125 < n"
  shows "foldl length_step 0 (ws_more_length n) = n"
proof -
  have "be_value (ws_more_length n) = n" "length (ws_more_length n) \<le> 8"
    using assms be_value_length [of n] more_length_cases [of n] by (cases "n \<le> 65535"; simp)+
  then show ?thesis
    using length_fold [of 0 0 "ws_more_length n"] by (simp add: be_value_def)
qed

lemma second_byte_bits:
  "drop_bit 7 (ord (ws_second_byte n)) AND 1 = 1"
  "ord (ws_second_byte n) AND 0x7F = (if n \<le> 125 then n else if n \<le> 65535 then 126 else 127)"
proof -
  define k where "k = (if n \<le> 125 then n else if n \<le> 65535 then 126 else 127 :: nat)"
  have k: "k < 128" and c: "ord (ws_second_byte n) = 128 + k"
    by (auto simp: k_def ws_second_byte_def)
  have "drop_bit 7 (128 + k) = 1"
    using k by (simp add: drop_bit_eq_div)
  then show "drop_bit 7 (ord (ws_second_byte n)) AND 1 = 1"
    by (simp add: c)
  show "ord (ws_second_byte n) AND 0x7F = (if n \<le> 125 then n else if n \<le> 65535 then 126 else 127)"
    using k by (simp only: c and_127 k_def [symmetric]) simp
qed

section \<open>Progress through a frame\<close>

text \<open>The state once the first byte has been read: the request of the message is there.\<close>

definition started :: "nat \<Rightarrow> nat \<Rightarrow> char list \<Rightarrow> 'z websocketsparser \<Rightarrow> bool" where
  "started fn op got p \<longleftrightarrow> opcode (frame p) = op \<and> fin (frame p) = fn \<and>
     (\<exists>r. request p = Some r \<and> req_type r = 0x80 + op \<and> \<not> compressed r \<and> stored r = got)"

datatype place = At_First | At_Second | At_Length nat | At_Mask nat | At_Payload nat

text \<open>The payload of TEXT messages passes through the UTF-8 validator.\<close>

definition fed :: "nat \<Rightarrow> ws_utf8_validator \<Rightarrow> char list \<Rightarrow> bool \<times> ws_utf8_validator" where
  "fed op v xs = (if op = 1 then ws_utf8_validator_feed v xs else (True, v))"

lemma fed_Nil [simp]: "fed op v [] = (True, v)"
  by (simp add: fed_def)

text \<open>\<open>progress e v fn op key plain p l\<close>: the parser has read the frame up to the place \<open>l\<close>; \<open>v\<close> is
  the state of the UTF-8 validator at the start of the message.\<close>

definition progress ::
    "'z ws_env \<Rightarrow> ws_utf8_validator \<Rightarrow> nat \<Rightarrow> nat \<Rightarrow> char list \<Rightarrow> char list \<Rightarrow> 'z websocketsparser \<Rightarrow> place \<Rightarrow> bool" where
  "progress e v fn op key plain p l \<longleftrightarrow> ws_inv e p \<and>
     (let n = length plain; more = ws_more_length n in
      case l of
        At_First \<Rightarrow> stage p = WSPARSER_STAGE_FIRST_BYTE \<and> request p = None \<and> \<not> message_fragmented p \<and>
          payload_index p = 0 \<and> utf8_validator p = v
      | At_Second \<Rightarrow> stage p = WSPARSER_STAGE_SECOND_BYTE \<and> started fn op [] p \<and> payload_index p = 0 \<and>
          utf8_validator p = v
      | At_Length i \<Rightarrow> i < length more \<and> holds_static (buf p) (take i more) \<and> started fn op [] p \<and>
          payload_index p = 0 \<and> utf8_validator p = v \<and>
          stage p = (if n \<le> 65535 then WSPARSER_STAGE_PAYLOAD_LEN_126 else WSPARSER_STAGE_PAYLOAD_LEN_127)
      | At_Mask i \<Rightarrow> i < 4 \<and> holds_static (buf p) (take i key) \<and> started fn op [] p \<and> payload_index p = 0 \<and>
          utf8_validator p = v \<and> stage p = WSPARSER_STAGE_MASK_KEY \<and> payload_length (frame p) = n
      | At_Payload i \<Rightarrow> i < n \<and> stage p = WSPARSER_STAGE_PAYLOAD \<and> started fn op (take i plain) p \<and>
          payload_length (frame p) = n \<and> mask (frame p) = key \<and> payload_saved_length p = i \<and> payload_index p = i \<and>
          fed op v (take i plain) = (True, utf8_validator p))"

definition advance :: "nat \<Rightarrow> place \<Rightarrow> place" where
  "advance n l =
     (let m = length (ws_more_length n) in
      case l of
        At_First \<Rightarrow> At_Second
      | At_Second \<Rightarrow> if m = 0 then At_Mask 0 else At_Length 0
      | At_Length i \<Rightarrow> if i + 1 < m then At_Length (i + 1) else At_Mask 0
      | At_Mask i \<Rightarrow> if i + 1 < 4 then At_Mask (i + 1) else At_Payload 0
      | At_Payload i \<Rightarrow> At_Payload (i + 1))"

text \<open>The position of a place in the bytes of the frame.\<close>

definition offset :: "nat \<Rightarrow> place \<Rightarrow> nat" where
  "offset n l =
     (let m = length (ws_more_length n) in
      case l of At_First \<Rightarrow> 0 | At_Second \<Rightarrow> 1 | At_Length i \<Rightarrow> 2 + i | At_Mask i \<Rightarrow> 2 + m + i | At_Payload i \<Rightarrow> 6 + m + i)"

text \<open>What stays the same in a step over one header byte.\<close>

definition same_cursor :: "'z websocketsparser \<Rightarrow> 'z websocketsparser \<Rightarrow> bool" where
  "same_cursor p q \<longleftrightarrow> parser_pos q = parser_pos p \<and> bytes_readed q = bytes_readed p \<and> pos_start q = pos_start p \<and>
     buffer q = buffer p"

lemma step_inv:
  assumes "ws_env_ok e" and "ws_inv e p" and "parser_pos p < bytes_readed p" and "ws_step e p ch = Some (None, q)"
  shows "ws_inv e q"
  using ws_step_spec [OF assms(1-3), of ch] assms(4) by (simp add: step_ok_def)

lemma first_byte_bits:
  assumes "fn = 0 \<or> fn = 1" and "op = 1 \<or> op = 2"
  shows "fin (first_byte_frame f (0x80 * fn + op)) = fn" "opcode (first_byte_frame f (0x80 * fn + op)) = op"
    "rsv1 (first_byte_frame f (0x80 * fn + op)) = 0" "rsv2 (first_byte_frame f (0x80 * fn + op)) = 0"
    "rsv3 (first_byte_frame f (0x80 * fn + op)) = 0"
  using assms by (elim disjE; simp add: first_byte_frame_def drop_bit_eq_div and_15)+

lemma step_first:
  assumes env: "ws_env_good e" and fo: "fn = 0 \<or> fn = 1" "op = 1 \<or> op = 2"
    and pr: "progress e v fn op key plain p At_First" and pos: "parser_pos p < bytes_readed p"
  shows "\<exists>q. ws_step e p (char_of (0x80 * fn + op)) = Some (None, q) \<and>
           progress e v fn op key plain q At_Second \<and> same_cursor p q"
proof -
  define ch :: char where "ch = char_of (0x80 * fn + op)"
  have st: "stage p = WSPARSER_STAGE_FIRST_BYTE" "request p = None" "\<not> message_fragmented p"
    "payload_index p = 0" "utf8_validator p = v" and inv: "ws_inv e p"
    using pr by (simp_all add: progress_def Let_def)
  have "holds_static (buf p) []"
    using inv st(1) by (auto simp: ws_inv_def stage_inv_def)
  then obtain b where b: "push_byte e p ch = Some (p\<lparr>buf := b\<rparr>)" "holds_static b [ch]"
    using push_byte_static [of p "[]" e ch] by (auto simp: capacity_room)
  define p1 where "p1 = p\<lparr>buf := b, stage := WSPARSER_STAGE_SECOND_BYTE\<rparr>"
  define f where "f = first_byte_frame (frame p) (0x80 * fn + op)"
  note bits = first_byte_bits [OF fo, of "frame p", folded f_def]
  have get: "buf_bytes e p1 1 = Some ([ch], p1)" and cmp: "complete_buf e p1 = Some p1"
    using buf_bytes_static [of p1 "[ch]" 1 e] complete_buf_static [of p1 "[ch]" e] b(2) by (simp_all add: p1_def)
  have oc: "ord ch = 0x80 * fn + op"
    using fo by (auto simp: ch_def)
  define r0 where "r0 = \<lparr>req_type = op + 0x80, can_reset = True, fragmented = (fn = 0), compressed = False, payload = None\<rparr>"
  define p2 where "p2 = (log_event Request_Created (p1\<lparr>frame := f\<rparr>))\<lparr>message_fragmented := (fn = 0), request := Some r0\<rparr>"
  have kn: "known_opcode op" "\<not> websocketsparser_is_control_frame f" "op \<noteq> WSOPCODE_CONTINUE"
    using fo(2) bits(2) by (auto simp: known_opcode_def websocketsparser_is_control_frame_def opcode_defs)
  have f1: "first_byte_frame (frame p1) (0x80 * fn + op) = f"
    by (simp add: f_def p1_def)
  have "websocketsparser_parse_first_byte e p1 = Some (True, p2)"
    unfolding websocketsparser_parse_first_byte_def get Option.bind.simps prod.case list.sel Let_def oc f1
    using env st(2,3) kn bits
    by (simp add: open_request_def websocketsrequest_create_def ws_env_good_def start_message_def log_event_def
        WEBSOCKETS_NONE_def p1_def p2_def r0_def Let_def)
  moreover obtain b' where "reset_buf p2 = Some (p2\<lparr>buf := b'\<rparr>)"
    using reset_buf_static [of p2 "[ch]"] b(2) by (auto simp: p2_def p1_def log_event_def)
  ultimately have step: "ws_step e p ch = Some (None, p2\<lparr>buf := b'\<rparr>)"
    using b(1) cmp st(1) by (simp add: ws_step_def stage_first_byte_def p1_def)
  have "ws_inv e (p2\<lparr>buf := b'\<rparr>)"
    using step_inv [OF _ inv pos step] env by (simp add: ws_env_good_def)
  moreover have "started fn op [] (p2\<lparr>buf := b'\<rparr>)"
    using bits by (simp add: started_def p2_def r0_def stored_def log_event_def)
  ultimately have "progress e v fn op key plain (p2\<lparr>buf := b'\<rparr>) At_Second"
    using st by (simp add: progress_def Let_def p2_def p1_def log_event_def)
  moreover have "same_cursor p (p2\<lparr>buf := b'\<rparr>)"
    by (simp add: same_cursor_def p2_def p1_def log_event_def)
  ultimately show ?thesis
    using step unfolding ch_def by blast
qed

lemma started_simps [simp]:
  "started fn op got (p\<lparr>stage := s\<rparr>) = started fn op got p" "started fn op got (p\<lparr>buf := b\<rparr>) = started fn op got p"
  "started fn op got (p\<lparr>frame := (frame p)\<lparr>masked := k, payload_length := n\<rparr>\<rparr>) = started fn op got p"
  "started fn op got (p\<lparr>frame := (frame p)\<lparr>payload_length := n\<rparr>\<rparr>) = started fn op got p"
  by (simp_all add: started_def)

lemma step_second:
  assumes env: "ws_env_ok e" and pr: "progress e v fn op key plain p At_Second" and pos: "parser_pos p < bytes_readed p"
  shows "\<exists>q. ws_step e p (ws_second_byte (length plain)) = Some (None, q) \<and>
           progress e v fn op key plain q (advance (length plain) At_Second) \<and> same_cursor p q"
proof -
  define n where "n = length plain"
  define ch where "ch = ws_second_byte n"
  define k where "k = (if n \<le> 125 then n else if n \<le> 65535 then 126 else 127 :: nat)"
  have st: "stage p = WSPARSER_STAGE_SECOND_BYTE" "started fn op [] p" "payload_index p = 0" "utf8_validator p = v"
    and inv: "ws_inv e p"
    using pr by (simp_all add: progress_def Let_def)
  have "holds_static (buf p) []"
    using inv st(1) by (auto simp: ws_inv_def stage_inv_def)
  then obtain b where b: "push_byte e p ch = Some (p\<lparr>buf := b\<rparr>)" "holds_static b [ch]"
    using push_byte_static [of p "[]" e ch] by (auto simp: capacity_room)
  have get: "buf_bytes e (p\<lparr>buf := b\<rparr>) 1 = Some ([ch], p\<lparr>buf := b\<rparr>)"
    and cmp: "complete_buf e (p\<lparr>buf := b\<rparr>) = Some (p\<lparr>buf := b\<rparr>)"
    using buf_bytes_static [of "p\<lparr>buf := b\<rparr>" "[ch]" 1 e] complete_buf_static [of "p\<lparr>buf := b\<rparr>" "[ch]" e] b(2)
    by simp_all
  define nxt where "nxt = (if k = 126 then WSPARSER_STAGE_PAYLOAD_LEN_126
     else if k = 127 then WSPARSER_STAGE_PAYLOAD_LEN_127 else WSPARSER_STAGE_MASK_KEY)"
  define p1 where "p1 = p\<lparr>buf := b, frame := (frame p)\<lparr>masked := 1, payload_length := k\<rparr>, stage := nxt\<rparr>"
  obtain b' where b': "reset_buf p1 = Some (p1\<lparr>buf := b'\<rparr>)" "holds_static b' []"
    using reset_buf_static [of p1 "[ch]"] b(2) by (auto simp: p1_def)
  have k2: "drop_bit 7 (ord ch) AND 1 = 1" "ord ch AND 0x7F = k"
    unfolding ch_def k_def by (rule second_byte_bits)+
  have "ws_step e p ch = map_option (Pair None) (reset_buf p1)"
    using b(1) get cmp st(1) k2(1)
    unfolding ws_step_def stage_second_byte_def websocketsparser_parse_second_byte_def Let_def
    by (simp add: k2 p1_def nxt_def)
  then have step: "ws_step e p ch = Some (None, p1\<lparr>buf := b'\<rparr>)"
    by (simp add: b'(1))
  have "ws_inv e (p1\<lparr>buf := b'\<rparr>)"
    by (rule step_inv [OF env inv pos step])
  moreover have "started fn op [] (p1\<lparr>buf := b'\<rparr>)"
    using st(2) by (simp add: p1_def started_def)
  moreover have "advance n At_Second = (if n \<le> 125 then At_Mask 0 else At_Length 0)"
    "125 < n \<Longrightarrow> 0 < length (ws_more_length n)"
    using more_length_cases(1) [of n] more_length_nonempty [of n] by (auto simp: advance_def Let_def)
  ultimately have "progress e v fn op key plain (p1\<lparr>buf := b'\<rparr>) (advance n At_Second)"
    using st b'(2) unfolding progress_def n_def [symmetric] Let_def
    by (auto simp: p1_def nxt_def k_def)
  moreover have "same_cursor p (p1\<lparr>buf := b'\<rparr>)"
    by (simp add: same_cursor_def p1_def)
  ultimately show ?thesis
    using step unfolding ch_def n_def by blast
qed

lemma started_not_control:
  "op = 1 \<or> op = 2 \<Longrightarrow> started fn op got p \<Longrightarrow> \<not> websocketsparser_is_control_frame (frame p)"
  by (auto simp: started_def websocketsparser_is_control_frame_def opcode_defs)

lemma step_length:
  assumes env: "ws_env_ok e" and op: "op = 1 \<or> op = 2" and n: "length plain < 2 ^ 64"
    and pr: "progress e v fn op key plain p (At_Length i)" and pos: "parser_pos p < bytes_readed p"
  shows "\<exists>q. ws_step e p (ws_more_length (length plain) ! i) = Some (None, q) \<and>
           progress e v fn op key plain q (advance (length plain) (At_Length i)) \<and> same_cursor p q"
proof -
  define more where "more = ws_more_length (length plain)"
  define m where "m = length more"
  have st: "i < m" "holds_static (buf p) (take i more)" "started fn op [] p" "payload_index p = 0" "utf8_validator p = v"
    "stage p = (if length plain \<le> 65535 then WSPARSER_STAGE_PAYLOAD_LEN_126 else WSPARSER_STAGE_PAYLOAD_LEN_127)"
    and inv: "ws_inv e p"
    using pr by (simp_all add: progress_def Let_def more_def m_def)
  have big: "125 < length plain" and m8: "m \<le> 8" and mm: "m = (if length plain \<le> 65535 then 2 else 8)"
  proof -
    show "125 < length plain"
      using st(1) more_length_cases(1) [of "length plain"] by (cases "length plain \<le> 125") (auto simp: m_def more_def)
    then show "m = (if length plain \<le> 65535 then 2 else 8)"
      by (simp add: m_def more_def more_length_cases)
    then show "m \<le> 8"
      by simp
  qed
  have step: "ws_step e p ch = stage_payload_len e m (\<lambda>p. websocketsparser_set_payload_length e p m) p ch" for ch
    using st(6) mm by (simp add: ws_step_def websocketsparser_parse_payload_length_126_def [abs_def]
        websocketsparser_parse_payload_length_127_def [abs_def])
  have nctl: "\<not> websocketsparser_is_control_frame (frame p)"
    by (rule started_not_control [OF op st(3)])
  have tk: "take i more @ [more ! i] = take (Suc i) more" "length (take i more) = i"
    using st(1) by (simp_all add: take_Suc_conv_app_nth m_def)
  obtain b where b: "push_byte e p (more ! i) = Some (p\<lparr>buf := b\<rparr>)" "holds_static b (take (Suc i) more)"
    using push_byte_static [OF st(2) capacity_room, of e "more ! i"] tk st(1) m8 by auto
  have wr: "bufferdata_writed b = Suc i"
    using holds_static_writed [OF b(2)] st(1) by (simp add: m_def)
  show ?thesis
  proof (cases "Suc i < m")
    case True
    then have s1: "ws_step e p (more ! i) = Some (None, p\<lparr>buf := b\<rparr>)"
      using step nctl b(1) wr by (simp add: stage_payload_len_def)
    have "ws_inv e (p\<lparr>buf := b\<rparr>)"
      by (rule step_inv [OF env inv pos s1])
    then have "progress e v fn op key plain (p\<lparr>buf := b\<rparr>) (At_Length (Suc i))"
      using st b(2) True by (simp add: progress_def Let_def more_def m_def)
    then show ?thesis
      using s1 True by (auto simp: advance_def Let_def same_cursor_def more_def m_def)
  next
    case False
    then have all: "take (Suc i) more = more" "Suc i = m"
      using st(1) by (simp_all add: m_def)
    define p1 where "p1 = p\<lparr>buf := b, stage := WSPARSER_STAGE_MASK_KEY\<rparr>"
    define p2 where "p2 = p1\<lparr>frame := (frame p1)\<lparr>payload_length := length plain\<rparr>\<rparr>"
    obtain b' where b': "reset_buf p2 = Some (p2\<lparr>buf := b'\<rparr>)" "holds_static b' []"
      using reset_buf_static [of p2 more] b(2) all by (auto simp: p2_def p1_def)
    have "buf_bytes e p1 m = Some (more, p1)" "complete_buf e p1 = Some p1"
      using buf_bytes_static [of p1 more m e] complete_buf_static [of p1 more e] b(2) all
      by (simp_all add: p1_def m_def)
    then have s1: "ws_step e p (more ! i) = Some (None, p2\<lparr>buf := b'\<rparr>)"
      using step nctl b(1) wr all(2) b'(1) more_length_value [OF n big]
      by (simp add: stage_payload_len_def websocketsparser_set_payload_length_def p1_def p2_def more_def)
    have "ws_inv e (p2\<lparr>buf := b'\<rparr>)"
      by (rule step_inv [OF env inv pos s1])
    moreover have "started fn op [] (p2\<lparr>buf := b'\<rparr>)"
      using st(3) by (simp add: started_def p2_def p1_def)
    ultimately have "progress e v fn op key plain (p2\<lparr>buf := b'\<rparr>) (At_Mask 0)"
      using st b'(2) by (simp add: progress_def Let_def p2_def p1_def)
    then show ?thesis
      using s1 all(2) by (auto simp: advance_def Let_def same_cursor_def more_def m_def p2_def p1_def)
  qed
qed

lemma step_mask:
  assumes env: "ws_env_ok e" and op: "op = 1 \<or> op = 2" and key: "length key = 4" and ne: "plain \<noteq> []"
    and pr: "progress e v fn op key plain p (At_Mask i)" and pos: "parser_pos p < bytes_readed p"
  shows "\<exists>q. ws_step e p (key ! i) = Some (None, q) \<and>
           progress e v fn op key plain q (advance (length plain) (At_Mask i)) \<and> same_cursor p q"
proof -
  have st: "i < 4" "holds_static (buf p) (take i key)" "started fn op [] p" "payload_index p = 0" "utf8_validator p = v"
    "stage p = WSPARSER_STAGE_MASK_KEY" "payload_length (frame p) = length plain" and inv: "ws_inv e p"
    using pr by (simp_all add: progress_def Let_def)
  have sv: "payload_saved_length p = 0"
    using inv st(6) by (auto simp: ws_inv_def stage_inv_def)
  have nctl: "\<not> websocketsparser_is_control_frame (frame p)"
    by (rule started_not_control [OF op st(3)])
  have tk: "take i key @ [key ! i] = take (Suc i) key" "length (take i key) = i"
    using st(1) key by (simp_all add: take_Suc_conv_app_nth)
  obtain b where b: "push_byte e p (key ! i) = Some (p\<lparr>buf := b\<rparr>)" "holds_static b (take (Suc i) key)"
    using push_byte_static [OF st(2) capacity_room, of e "key ! i"] tk st(1) by auto
  have wr: "bufferdata_writed b = Suc i"
    using holds_static_writed [OF b(2)] st(1) key by simp
  show ?thesis
  proof (cases "Suc i < 4")
    case True
    then have s1: "ws_step e p (key ! i) = Some (None, p\<lparr>buf := b\<rparr>)"
      using st(6) b(1) wr by (simp add: ws_step_def stage_mask_key_def)
    have "ws_inv e (p\<lparr>buf := b\<rparr>)"
      by (rule step_inv [OF env inv pos s1])
    then have "progress e v fn op key plain (p\<lparr>buf := b\<rparr>) (At_Mask (Suc i))"
      using st b(2) True by (simp add: progress_def Let_def)
    then show ?thesis
      using s1 True by (auto simp: advance_def Let_def same_cursor_def)
  next
    case False
    then have all: "take (Suc i) key = key" "Suc i = 4"
      using st(1) key by simp_all
    define p1 where "p1 = p\<lparr>buf := b\<rparr>"
    define p2 where "p2 = p1\<lparr>frame := (frame p1)\<lparr>mask := key\<rparr>, stage := WSPARSER_STAGE_PAYLOAD\<rparr>"
    obtain b' where b': "reset_buf p2 = Some (p2\<lparr>buf := b'\<rparr>)" "holds_static b' []"
      using reset_buf_static [of p2 key] b(2) all by (auto simp: p2_def p1_def)
    have g: "buf_bytes e p1 4 = Some (key, p1)" "complete_buf e p1 = Some p1"
      using buf_bytes_static [of p1 key 4 e] complete_buf_static [of p1 key e] b(2) all key
      by (simp_all add: p1_def)
    have wr1: "bufferdata_writed (buf p1) = 4"
      using wr all by (simp add: p1_def)
    have pm: "websocketsparser_parse_mask e p1 = Some (True, p2)"
      using g(1) nctl by (simp add: websocketsparser_parse_mask_def p2_def p1_def)
    have "payload_length (frame (p2\<lparr>buf := b'\<rparr>)) \<noteq> 0"
      using st(7) ne by (simp add: p2_def p1_def)
    then have s1: "ws_step e p (key ! i) = Some (None, p2\<lparr>buf := b'\<rparr>)"
      using st(6) b(1) wr1 g(2) pm b'(1) by (simp add: ws_step_def stage_mask_key_def p1_def [symmetric])
    have "ws_inv e (p2\<lparr>buf := b'\<rparr>)"
      by (rule step_inv [OF env inv pos s1])
    moreover have "started fn op [] (p2\<lparr>buf := b'\<rparr>)"
      using st(3) by (simp add: started_def p2_def p1_def)
    ultimately have "progress e v fn op key plain (p2\<lparr>buf := b'\<rparr>) (At_Payload 0)"
      using st sv ne by (simp add: progress_def Let_def p2_def p1_def)
    then show ?thesis
      using s1 all(2) by (auto simp: advance_def Let_def same_cursor_def p2_def p1_def)
  qed
qed

text \<open>The frames the theorems are about.\<close>

definition good_frame :: "'z ws_env \<Rightarrow> ws_utf8_validator \<Rightarrow> nat \<Rightarrow> nat \<Rightarrow> char list \<Rightarrow> char list \<Rightarrow> bool" where
  "good_frame e v fn op key plain \<longleftrightarrow> (fn = 0 \<or> fn = 1) \<and> (op = 1 \<or> op = 2) \<and> length key = 4 \<and> plain \<noteq> [] \<and>
     length plain \<le> client_max_body_size e \<and>
     (op = 1 \<longrightarrow> fst (ws_utf8_validator_feed v plain) \<and>
        (fn = 1 \<longrightarrow> needed (snd (ws_utf8_validator_feed v plain)) = 0))"

lemma good_frame_length: "ws_env_ok e \<Longrightarrow> good_frame e v fn op key plain \<Longrightarrow> length plain < 2 ^ 63"
  by (simp add: good_frame_def ws_env_ok_def)

lemma client_frame_nth:
  assumes "length key = 4"
  shows "client_frame fn op key plain ! 0 = char_of (0x80 * fn + op)"
    and "client_frame fn op key plain ! 1 = ws_second_byte (length plain)"
    and "i < length (ws_more_length (length plain)) \<Longrightarrow> client_frame fn op key plain ! (2 + i) = ws_more_length (length plain) ! i"
    and "i < 4 \<Longrightarrow> client_frame fn op key plain ! (2 + length (ws_more_length (length plain)) + i) = key ! i"
  using assms by (simp_all add: client_frame_def nth_append)

definition at_payload :: "place \<Rightarrow> bool" where
  "at_payload l \<longleftrightarrow> (\<exists>i. l = At_Payload i)"

lemma header_step_progress:
  assumes env: "ws_env_good e" and good: "good_frame e v fn op key plain" and hd: "\<not> at_payload l"
    and pr: "progress e v fn op key plain p l" and pos: "parser_pos p < bytes_readed p"
  shows "\<exists>q. ws_step e p (client_frame fn op key plain ! offset (length plain) l) = Some (None, q) \<and>
           progress e v fn op key plain q (advance (length plain) l) \<and> same_cursor p q \<and>
           offset (length plain) (advance (length plain) l) = offset (length plain) l + 1"
proof -
  have ok: "ws_env_ok e" and g: "fn = 0 \<or> fn = 1" "op = 1 \<or> op = 2" "length key = 4" "plain \<noteq> []"
    using env good by (simp_all add: ws_env_good_def good_frame_def)
  have n: "length plain < 2 ^ 64"
    using good_frame_length [OF ok good] by simp
  note nth = client_frame_nth [OF g(3), where fn = fn and op = op and plain = plain]
  show ?thesis
  proof (cases l)
    case At_First
    then show ?thesis
      using step_first [OF env g(1,2), of v key plain p] pr pos nth(1) by (auto simp: offset_def advance_def)
  next
    case At_Second
    then show ?thesis
      using step_second [OF ok, of v fn op key plain p] pr pos nth(2) by (auto simp: offset_def advance_def Let_def)
  next
    case (At_Length i)
    then have "i < length (ws_more_length (length plain))"
      using pr by (simp add: progress_def Let_def)
    then show ?thesis
      using step_length [OF ok g(2) n, of v fn key p i] pr pos nth(3) At_Length
      by (auto simp: offset_def advance_def Let_def)
  next
    case (At_Mask i)
    then have "i < 4"
      using pr by (simp add: progress_def Let_def)
    then show ?thesis
      using step_mask [OF ok g(2,3,4), of v fn p i] pr pos nth(4) At_Mask
      by (auto simp: offset_def advance_def Let_def)
  qed (use hd in \<open>simp add: at_payload_def\<close>)
qed

section \<open>The payload\<close>

lemma feed_prefix: "fst (ws_utf8_validator_feed v (xs @ ys)) \<Longrightarrow> fst (ws_utf8_validator_feed v xs)"
  by (simp add: feed_append split_beta Let_def split: if_splits)

lemma deliver_progress:
  assumes env: "ws_env_good e" and good: "good_frame e v fn op key plain"
    and pr: "progress e v fn op key plain p (At_Payload i)"
    and k: "0 < k" "i + k \<le> length plain" "parser_pos p + k \<le> length (buffer p)"
    and bytes: "take k (drop (parser_pos p) (buffer p)) = take k (drop i (unmask key 0 plain))"
  shows "\<exists>q. deliver_payload e (p\<lparr>payload_saved_length := i + k\<rparr>) k fl = Some (True, q) \<and>
           started fn op (take (i + k) plain) q \<and> frame q = frame p \<and> stage q = stage p \<and> payload_index q = i + k \<and>
           payload_saved_length q = i + k \<and> parser_pos q = parser_pos p \<and> bytes_readed q = bytes_readed p \<and>
           pos_start q = pos_start p \<and>
           take k (drop (parser_pos p) (buffer q)) = take k (drop i plain) \<and> length (buffer q) = length (buffer p) \<and>
           drop (parser_pos p + k) (buffer q) = drop (parser_pos p + k) (buffer p) \<and>
           fed op v (take (i + k) plain) = (True, utf8_validator q)"
proof -
  have st: "started fn op (take i plain) p" "mask (frame p) = key" "payload_index p = i"
    "fed op v (take i plain) = (True, utf8_validator p)"
    using pr by (simp_all add: progress_def Let_def)
  obtain r where r: "request p = Some r" "req_type r = 0x80 + op" "\<not> compressed r" "stored r = take i plain"
    using st(1) by (auto simp: started_def)
  define piece where "piece = take k (drop i plain)"
  have um: "unmask key i (take k (drop (parser_pos p) (buffer p))) = piece"
    unfolding bytes piece_def using unmask_split(2) [of key 0 i "unmask key 0 plain"] by (simp add: unmask_split(1))
  have pc: "length piece = k" "piece \<noteq> []" "take (i + k) plain = take i plain @ piece"
    using k(1,2) by (auto simp: piece_def take_add)
  obtain buffer1 where b1: "poke (buffer p) (parser_pos p) piece = Some buffer1"
    and b2: "take k (drop (parser_pos p) buffer1) = piece" "length buffer1 = length (buffer p)"
      "drop (parser_pos p + k) buffer1 = drop (parser_pos p + k) (buffer p)"
    using k(3) pc(1) by (simp add: poke_def)
  define p1 where "p1 = p\<lparr>payload_saved_length := i + k, buffer := buffer1, payload_index := i + k\<rparr>"
  define r1 where "r1 = r\<lparr>payload := Some (take (i + k) plain)\<rparr>"
  have "payload_store e p1 piece = Some (True, p1\<lparr>request := Some r1\<rparr>)"
    using payload_store_good [OF env, of p1 r piece] r(1,4) pc k(2) good
    by (simp add: p1_def r1_def good_frame_def)
  then have pp: "payload_parse_masked e (p\<lparr>payload_saved_length := i + k\<rparr>) (parser_pos p) k =
      Some (True, piece, p1\<lparr>request := Some r1\<rparr>)"
    using k(3) um b1 st(2,3) by (simp add: payload_parse_masked_def peek_def p1_def Let_def)
  define v1 where "v1 = (if op = 1 then snd (ws_utf8_validator_feed (utf8_validator p) piece) else utf8_validator p)"
  define q where "q = p1\<lparr>request := Some r1, utf8_validator := v1\<rparr>"
  have val: "fed op v (take (i + k) plain) = (True, v1)"
    "op = 1 \<longrightarrow> ws_utf8_validator_feed (utf8_validator p) piece = (True, v1)"
  proof -
    have "fst (ws_utf8_validator_feed v (take (i + k) plain @ drop (i + k) plain))" if "op = 1"
      using good that by (simp add: good_frame_def)
    then have "fst (ws_utf8_validator_feed v (take (i + k) plain))" if "op = 1"
      using feed_prefix that by blast
    then show "fed op v (take (i + k) plain) = (True, v1)"
      "op = 1 \<longrightarrow> ws_utf8_validator_feed (utf8_validator p) piece = (True, v1)"
      using st(4) unfolding pc(3) feed_append v1_def fed_def by (auto simp: prod_eq_iff split_beta split: if_splits)
  qed
  have "websocketsparser_text_feed_ok (p1\<lparr>request := Some r1\<rparr>) piece = Some (True, q)"
  proof (cases "op = 1")
    case True
    then show ?thesis
      using r(2) val by (simp add: websocketsparser_text_feed_ok_def r1_def q_def p1_def WEBSOCKETS_TEXT_def)
  next
    case False
    then have "q = p1\<lparr>request := Some r1\<rparr>"
      by (simp add: q_def v1_def p1_def)
    then show ?thesis
      using False r(2) by (simp add: websocketsparser_text_feed_ok_def r1_def WEBSOCKETS_TEXT_def)
  qed
  then have "deliver_payload e (p\<lparr>payload_saved_length := i + k\<rparr>) k fl = Some (True, q)"
    using r(1,3) pp by (simp add: deliver_payload_def)
  moreover have "started fn op (take (i + k) plain) q"
    using st(1) r by (simp add: started_def q_def p1_def r1_def stored_def)
  ultimately show ?thesis
    using val b2 by (auto simp: q_def p1_def piece_def)
qed

text \<open>The bytes of the current read that are not consumed yet.\<close>

definition ahead :: "'z websocketsparser \<Rightarrow> char list" where
  "ahead p = drop (parser_pos p) (take (bytes_readed p) (buffer p))"

lemma ahead_length: "ws_inv e p \<Longrightarrow> length (ahead p) = bytes_readed p - parser_pos p"
  by (simp add: ahead_def ws_inv_def ws_core_def)

text \<open>How a frame ends: \<open>tail\<close> are the bytes behind it in the same read, \<open>i\<close> is the number of its
  payload bytes that came with earlier reads.\<close>

definition frame_done ::
    "ws_utf8_validator \<Rightarrow> nat \<Rightarrow> nat \<Rightarrow> char list \<Rightarrow> nat \<Rightarrow> char list \<Rightarrow> ws_status \<Rightarrow> 'z websocketsparser \<Rightarrow> bool" where
  "frame_done v fn op plain i tail st q \<longleftrightarrow> started fn op plain q \<and> fed op v plain = (True, utf8_validator q) \<and>
     (if tail \<noteq> [] then st = WSPARSER_HANDLE_AND_CONTINUE \<and> ahead q = tail
      else if fn = 1 then st = WSPARSER_COMPLETE
      else st = WSPARSER_HANDLE_AND_CONTINUE \<and> ahead q = drop i plain)"

lemma payload_progress:
  assumes env: "ws_env_good e" and good: "good_frame e v fn op key plain"
    and pr: "progress e v fn op key plain p (At_Payload i)" and pos: "parser_pos p < bytes_readed p"
  shows "length (ahead p) < length plain - i \<Longrightarrow> ahead p = take (length (ahead p)) (drop i (unmask key 0 plain)) \<Longrightarrow>
      \<exists>q. websocketsparser_parse_payload e p = Some (WSPARSER_CONTINUE, q) \<and>
          progress e v fn op key plain q (At_Payload (i + length (ahead p))) \<and> length (buffer q) = length (buffer p)"
    and "ahead p = drop i (unmask key 0 plain) @ tail \<Longrightarrow>
      \<exists>st q. websocketsparser_parse_payload e p = Some (st, q) \<and> frame_done v fn op plain i tail st q"
proof -
  define n where "n = length plain"
  have ok: "ws_env_ok e"
    using env by (simp add: ws_env_good_def)
  have st: "i < n" "stage p = WSPARSER_STAGE_PAYLOAD" "payload_length (frame p) = n" "mask (frame p) = key"
    "payload_saved_length p = i" and inv: "ws_inv e p" and sp: "started fn op (take i plain) p"
    using pr by (simp_all add: progress_def Let_def n_def)
  have n: "n < 2 ^ 63" "n \<le> client_max_body_size e"
    using good_frame_length [OF ok good] good by (simp_all add: n_def good_frame_def)
  have rd: "bytes_readed p \<le> length (buffer p)" "bytes_readed p < 2 ^ 63"
    using inv by (simp_all add: ws_inv_def ws_core_def)
  have fnq: "fn = 0 \<or> fn = 1"
    using good by (simp add: good_frame_def)
  define avail where "avail = bytes_readed p - parser_pos p"
  have al: "length (ahead p) = avail"
    using ahead_length [OF inv] by (simp add: avail_def)
  have ah: "take k (drop (parser_pos p) (buffer p)) = take k (ahead p)" if "k \<le> avail" for k
    using that rd(1) pos by (simp add: ahead_def take_drop avail_def min_def add.commute)
  have unf: "websocketsparser_parse_payload e p =
      (if behind then if fin (frame q) \<noteq> 0 \<and> \<not> websocketsparser_text_finish_ok (q\<lparr>parser_pos := parser_pos q + k\<rparr>)
            then clear_and_return (q\<lparr>parser_pos := parser_pos q + k\<rparr>) WSPARSER_ERROR
            else Some (WSPARSER_HANDLE_AND_CONTINUE, q\<lparr>parser_pos := parser_pos q + k\<rparr>)
       else if i + k \<noteq> n then Some (WSPARSER_CONTINUE, q)
       else if fin (frame q) \<noteq> 0
       then if \<not> websocketsparser_text_finish_ok q then clear_and_return q WSPARSER_ERROR
            else Some (WSPARSER_COMPLETE, q)
       else Some (WSPARSER_HANDLE_AND_CONTINUE, q))"
    if "deliver_payload e (p\<lparr>payload_saved_length := i + k\<rparr>) k (i + k = n) = Some (True, q)"
      "k = (if behind then n - i else avail)" "behind \<longleftrightarrow> n < avail + i" for k q behind
  proof -
    have "i + k \<le> n"
      using that(2,3) st(1) by (auto split: if_splits)
    then have "\<not> client_max_body_size e < i + k"
      using n(2) by simp
    moreover have "parser_pos p \<le> bytes_readed p" "payload_saved_length p < payload_length (frame p)"
      "payload_length (frame p) < 2 ^ 64" "payload_saved_length p < 2 ^ 63"
      "behind \<longleftrightarrow> payload_length (frame p) < avail + payload_saved_length p"
      "k = (if behind then payload_length (frame p) - payload_saved_length p else avail)"
      "(i + k = n) \<longleftrightarrow> payload_saved_length p + k = payload_length (frame p)"
      "deliver_payload e (p\<lparr>payload_saved_length := payload_saved_length p + k\<rparr>) k (i + k = n) = Some (True, q)"
      using that pos st n(1) by simp_all
    note u = parse_payload_unfold [OF this(1) rd(2) this(2,3,4) avail_def this(5,6,7,8)]
    ultimately show ?thesis
      unfolding u st(5) by simp
  qed
  {
    assume less: "length (ahead p) < length plain - i"
      and bytes: "ahead p = take (length (ahead p)) (drop i (unmask key 0 plain))"
    have pre: "0 < avail" "i + avail \<le> length plain" "parser_pos p + avail \<le> length (buffer p)"
      using less al pos rd(1) by (simp_all add: avail_def)
    have "take avail (drop (parser_pos p) (buffer p)) = take avail (drop i (unmask key 0 plain))"
      using ah [of avail] bytes al by simp
    from deliver_progress [OF env good pr pre this, of "i + avail = n"] obtain q where
      d: "deliver_payload e (p\<lparr>payload_saved_length := i + avail\<rparr>) avail (i + avail = n) = Some (True, q)"
      and q: "started fn op (take (i + avail) plain) q" "frame q = frame p" "stage q = stage p"
        "payload_index q = i + avail" "payload_saved_length q = i + avail" "length (buffer q) = length (buffer p)"
        "fed op v (take (i + avail) plain) = (True, utf8_validator q)"
      by blast
    have r: "websocketsparser_parse_payload e p = Some (WSPARSER_CONTINUE, q)"
    proof -
      have "i + avail \<noteq> n" "\<not> n < avail + i"
        using less al by (auto simp: n_def)
      then show ?thesis
        using unf [OF d, of False] by simp
    qed
    have "ws_inv e q"
      using parse_payload_spec [OF ok inv st(2)] pos r by (simp add: result_ok_def)
    then have "progress e v fn op key plain q (At_Payload (i + avail))"
      using q st less al by (simp add: progress_def Let_def n_def)
    then show "\<exists>q. websocketsparser_parse_payload e p = Some (WSPARSER_CONTINUE, q) \<and>
          progress e v fn op key plain q (At_Payload (i + length (ahead p))) \<and> length (buffer q) = length (buffer p)"
      using r q(6) al by auto
  next
    assume bytes: "ahead p = drop i (unmask key 0 plain) @ tail"
    define k where "k = n - i"
    have len: "avail = k + length tail" "0 < k"
      using bytes al st(1) by (auto simp: k_def n_def dest: arg_cong [of _ _ length])
    have pre: "0 < k" "i + k \<le> length plain" "parser_pos p + k \<le> length (buffer p)"
      using len pos rd(1) st(1) by (simp_all add: avail_def k_def n_def)
    have "take k (drop (parser_pos p) (buffer p)) = take k (drop i (unmask key 0 plain))"
      using ah [of k] len bytes by (simp add: k_def n_def)
    from deliver_progress [OF env good pr pre this, of "i + k = n"] obtain q where
      d: "deliver_payload e (p\<lparr>payload_saved_length := i + k\<rparr>) k (i + k = n) = Some (True, q)"
      and q: "started fn op (take (i + k) plain) q" "frame q = frame p" "parser_pos q = parser_pos p"
        "bytes_readed q = bytes_readed p" "length (buffer q) = length (buffer p)"
        "fed op v (take (i + k) plain) = (True, utf8_validator q)"
        "take k (drop (parser_pos p) (buffer q)) = take k (drop i plain)"
        "drop (parser_pos p + k) (buffer q) = drop (parser_pos p + k) (buffer p)"
      by blast
    have ik: "i + k = n" "take (i + k) plain = plain"
      using st(1) by (simp_all add: k_def n_def)
    have fq: "fin (frame q) = fn"
      using q(1) by (simp add: started_def)
    have fin_ok: "websocketsparser_text_finish_ok (q\<lparr>parser_pos := j\<rparr>)" "websocketsparser_text_finish_ok q"
      if "fn \<noteq> 0" for j
      using q(1,6) good that fnq ik(2)
      by (auto simp: websocketsparser_text_finish_ok_def started_def WEBSOCKETS_TEXT_def good_frame_def
          ws_utf8_validator_finish_def fed_def)
    show "\<exists>st q. websocketsparser_parse_payload e p = Some (st, q) \<and> frame_done v fn op plain i tail st q"
    proof (cases "tail = []")
      case False
      have "ahead (q\<lparr>parser_pos := parser_pos q + k\<rparr>) = drop k (ahead p)"
        using q(3,4,8) by (simp add: ahead_def drop_take add.commute)
      then have "ahead (q\<lparr>parser_pos := parser_pos q + k\<rparr>) = tail"
        using bytes st(1) by (simp add: k_def n_def)
      moreover have "websocketsparser_parse_payload e p =
          Some (WSPARSER_HANDLE_AND_CONTINUE, q\<lparr>parser_pos := parser_pos q + k\<rparr>)"
      proof -
        have "n < avail + i" "k = n - i"
          using False len by (simp_all add: k_def)
        then show ?thesis
          using unf [OF d, of True] fq fin_ok(1) [of "parser_pos q + k"] by auto
      qed
      moreover have "started fn op plain (q\<lparr>parser_pos := parser_pos q + k\<rparr>)"
        using q(1) ik(2) by (simp add: started_def)
      ultimately show ?thesis
        using False q(6) ik(2) by (auto simp: frame_done_def)
    next
      case True
      then have "websocketsparser_parse_payload e p =
          Some (if fn = 1 then WSPARSER_COMPLETE else WSPARSER_HANDLE_AND_CONTINUE, q)"
        using unf [OF d, of False] len ik(1) fq fin_ok fnq by auto
      moreover have "ahead q = drop i plain"
        using q(3,4,7) len True pos by (simp add: ahead_def drop_take avail_def k_def n_def)
      ultimately show ?thesis
        using True q(1,6) ik(2) by (auto simp: frame_done_def)
    qed
  }
qed

section \<open>A whole frame\<close>

lemma frame_length:
  "length key = 4 \<Longrightarrow> length (client_frame fn op key plain) = 6 + length (ws_more_length (length plain)) + length plain"
  by (simp add: client_frame_def)

lemma frame_payload:
  assumes "length key = 4"
  shows "drop (6 + length (ws_more_length (length plain)) + i) (client_frame fn op key plain) = drop i (unmask key 0 plain)"
proof -
  define pre where "pre = [char_of (128 * fn + op), ws_second_byte (length plain)] @ ws_more_length (length plain) @ key"
  have "client_frame fn op key plain = pre @ unmask key 0 plain" "length pre = 6 + length (ws_more_length (length plain))"
    using assms by (simp_all add: client_frame_def pre_def)
  then show ?thesis
    by (metis drop_drop add.commute append_eq_conv_conj)
qed

lemma offset_payload: "offset n (At_Payload i) = 6 + length (ws_more_length n) + i"
  by (simp add: offset_def Let_def)

lemma progress_cursor [simp]: "progress e v fn op key plain (p\<lparr>parser_pos := j\<rparr>) l = progress e v fn op key plain p l"
  by (cases l) (simp_all add: progress_def started_def Let_def)

lemma progress_offset:
  assumes "good_frame e v fn op key plain" and "progress e v fn op key plain p l"
  shows "offset (length plain) l < length (client_frame fn op key plain)"
  using assms frame_length [of key fn op plain]
  by (cases l) (auto simp: offset_def Let_def progress_def good_frame_def)

lemma ahead_step:
  assumes "ahead p = x # xs" and "same_cursor p q" and "ws_inv e p"
  shows "peek (buffer p) (parser_pos p) 1 = Some [x]" and "ahead (q\<lparr>parser_pos := parser_pos q + 1\<rparr>) = xs"
    and "parser_pos p < bytes_readed p"
proof -
  have len: "bytes_readed p - parser_pos p = Suc (length xs)" "bytes_readed p \<le> length (buffer p)"
    using ahead_length [OF assms(3)] assms(1,3) by (simp_all add: ws_inv_def ws_core_def)
  then show lt: "parser_pos p < bytes_readed p"
    by simp
  have "drop (parser_pos p) (buffer p) = x # xs @ drop (bytes_readed p) (buffer p)"
    using assms(1) len lt
    by (metis (no_types, lifting) ahead_def append_Cons append_take_drop_id drop_append length_take min.absorb2
        less_imp_le_nat diff_is_0_eq drop_0 drop_drop)
  then show "peek (buffer p) (parser_pos p) 1 = Some [x]"
    using len lt by (simp add: peek_def)
  show "ahead (q\<lparr>parser_pos := parser_pos q + 1\<rparr>) = xs"
    using assms(1,2) by (simp add: ahead_def same_cursor_def) (metis drop_Suc list.sel(3) tl_drop)
qed

definition payload_start :: "place \<Rightarrow> nat" where
  "payload_start l = (case l of At_Payload i \<Rightarrow> i | _ \<Rightarrow> 0)"

lemma payload_start_advance: "\<not> at_payload l \<Longrightarrow> payload_start (advance n l) = payload_start l"
  by (cases l) (simp_all add: payload_start_def advance_def at_payload_def Let_def)

definition read_result ::
    "'z ws_env \<Rightarrow> ws_utf8_validator \<Rightarrow> nat \<Rightarrow> nat \<Rightarrow> char list \<Rightarrow> char list \<Rightarrow> place \<Rightarrow> char list \<Rightarrow> nat \<Rightarrow>
     (ws_status \<times> 'z websocketsparser) option \<Rightarrow> bool" where
  "read_result e v fn op key plain l xs blen r \<longleftrightarrow>
     (let rest = drop (offset (length plain) l) (client_frame fn op key plain) in
      (length xs < length rest \<longrightarrow> xs = take (length xs) rest \<longrightarrow>
         (\<exists>q l'. r = Some (WSPARSER_CONTINUE, q) \<and> progress e v fn op key plain q l' \<and>
            offset (length plain) l' = offset (length plain) l + length xs \<and> length (buffer q) = blen)) \<and>
      (\<forall>tail. xs = rest @ tail \<longrightarrow> (\<exists>st q. r = Some (st, q) \<and> frame_done v fn op plain (payload_start l) tail st q)))"

lemma payload_read:
  assumes env: "ws_env_good e" and good: "good_frame e v fn op key plain"
    and pr: "progress e v fn op key plain p (At_Payload i)" and ne: "ahead p \<noteq> []"
  shows "read_result e v fn op key plain (At_Payload i) (ahead p) (length (buffer p)) (websocketsparser_parse_payload e p)"
proof -
  have key: "length key = 4"
    using good by (simp add: good_frame_def)
  have inv: "ws_inv e p"
    using pr by (simp add: progress_def)
  have pos: "parser_pos p < bytes_readed p"
    using ahead_length [OF inv] ne by (cases "ahead p") auto
  have rest: "drop (offset (length plain) (At_Payload i)) (client_frame fn op key plain) = drop i (unmask key 0 plain)"
    unfolding offset_payload by (rule frame_payload [OF key])
  show ?thesis
    using payload_progress(1) [OF env good pr pos] payload_progress(2) [OF env good pr pos]
    unfolding read_result_def Let_def rest by (auto simp: offset_payload payload_start_def) (metis add.assoc offset_payload)
qed

lemma loop_read:
  assumes env: "ws_env_good e" and good: "good_frame e v fn op key plain"
  shows "progress e v fn op key plain p l \<Longrightarrow>
    read_result e v fn op key plain l (ahead p) (length (buffer p)) (ws_loop e p)"
proof (induction "ahead p" arbitrary: p l)
  case Nil
  have inv: "ws_inv e p"
    using Nil.prems by (simp add: progress_def)
  have "\<not> parser_pos p < bytes_readed p"
    using ahead_length [OF inv] Nil.hyps by (simp flip: Nil.hyps)
  then have "ws_loop e p = Some (WSPARSER_CONTINUE, p)"
    by (simp add: ws_loop.simps)
  moreover have "drop (offset (length plain) l) (client_frame fn op key plain) \<noteq> []"
    using progress_offset [OF good Nil.prems] by simp
  ultimately show ?case
    using Nil by (auto simp: read_result_def Let_def Nil.hyps [symmetric])
next
  case (Cons x xs)
  have inv: "ws_inv e p"
    using Cons.prems by (simp add: progress_def)
  have pk: "peek (buffer p) (parser_pos p) 1 = Some [x]" and pos: "parser_pos p < bytes_readed p"
    using ahead_step [OF Cons.hyps(2) [symmetric] _ inv, of p] by (simp_all add: same_cursor_def)
  show ?case
  proof (cases "at_payload l")
    case True
    then obtain i where l: "l = At_Payload i"
      by (auto simp: at_payload_def)
    have "ws_loop e p = websocketsparser_parse_payload e p"
      using Cons.prems pk pos l
      by (subst ws_loop.simps) (auto simp: ws_step_def progress_def Let_def split: option.splits Option.bind_splits)
    moreover have "ahead p \<noteq> []"
      by (simp flip: Cons.hyps(2))
    ultimately show ?thesis
      using payload_read [OF env good, of p i] Cons.prems l by auto
  next
    case False
    define rest where "rest = drop (offset (length plain) l) (client_frame fn op key plain)"
    obtain q where q: "ws_step e p (client_frame fn op key plain ! offset (length plain) l) = Some (None, q)"
      "progress e v fn op key plain q (advance (length plain) l)" "same_cursor p q"
      "offset (length plain) (advance (length plain) l) = offset (length plain) l + 1"
      using header_step_progress [OF env good False Cons.prems pos] by blast
    define q1 where "q1 = q\<lparr>parser_pos := parser_pos q + 1\<rparr>"
    have q1: "progress e v fn op key plain q1 (advance (length plain) l)" "ahead q1 = xs" "length (buffer q1) = length (buffer p)"
      using q(2,3) ahead_step(2) [OF Cons.hyps(2) [symmetric] q(3) inv]
      by (simp_all add: q1_def same_cursor_def)
    have IH: "read_result e v fn op key plain (advance (length plain) l) xs (length (buffer p)) (ws_loop e q1)"
      using Cons.hyps(1) [OF q1(2) [symmetric] q1(1)] q1(2,3) by simp
    have off: "offset (length plain) l < length (client_frame fn op key plain)"
      by (rule progress_offset [OF good Cons.prems])
    then have rest': "rest = client_frame fn op key plain ! offset (length plain) l #
        drop (offset (length plain) (advance (length plain) l)) (client_frame fn op key plain)"
      unfolding rest_def q(4) by (simp add: Cons_nth_drop_Suc)
    have loop: "ws_loop e p = ws_loop e q1" if "x = client_frame fn op key plain ! offset (length plain) l"
      using that pk pos q(1) by (subst ws_loop.simps) (simp add: q1_def)
    show ?thesis
      using IH loop rest' unfolding read_result_def Let_def rest_def [symmetric] Cons.hyps(2) [symmetric] q(4)
        payload_start_advance [OF False]
      by auto
  qed
qed

end
