(* ===== verification/Ws_Stream.thy ===== *)
theory Ws_Stream
  imports Ws_Decode
begin

text \<open>
  WebSocket messages end to end: the bytes of a sequence of client messages, divided into reads in
  any way, become requests with the payloads of the messages. The invariant \<open>pending\<close> relates the
  state of the parser between two reads to the bytes that are still to come. The theory also
  shows where the parser resumes behind a fragment that ends with the read.
\<close>

section \<open>A stream of messages\<close>

record ws_message =
  msg_op :: nat
  msg_key :: "char list"
  msg_text :: "char list"

definition client_message :: "ws_message \<Rightarrow> char list" where
  "client_message m = client_frame 1 (msg_op m) (msg_key m) (msg_text m)"

definition message_ok :: "'z ws_env \<Rightarrow> ws_message \<Rightarrow> bool" where
  "message_ok e m \<longleftrightarrow> (msg_op m = 1 \<or> msg_op m = 2) \<and> length (msg_key m) = 4 \<and> msg_text m \<noteq> [] \<and>
     length (msg_text m) \<le> client_max_body_size e \<and> (msg_op m = 1 \<longrightarrow> utf8_valid (msg_text m))"

definition carries_message :: "ws_message \<Rightarrow> websocketsrequest \<Rightarrow> bool" where
  "carries_message m r \<longleftrightarrow> req_type r = 0x80 + msg_op m \<and> stored r = msg_text m"

definition message_good :: "'z ws_env \<Rightarrow> ws_utf8_validator \<Rightarrow> ws_message \<Rightarrow> bool" where
  "message_good e v m \<longleftrightarrow> needed v = 0 \<and> good_frame e v 1 (msg_op m) (msg_key m) (msg_text m)"

definition message_progress :: "'z ws_env \<Rightarrow> ws_utf8_validator \<Rightarrow> ws_message \<Rightarrow> 'z websocketsparser \<Rightarrow> place \<Rightarrow> bool" where
  "message_progress e v m p l \<longleftrightarrow> progress e v 1 (msg_op m) (msg_key m) (msg_text m) p l"

definition message_rest :: "ws_message \<Rightarrow> place \<Rightarrow> char list" where
  "message_rest m l = drop (offset (length (msg_text m)) l) (client_message m)"

definition idle :: "'z ws_env \<Rightarrow> 'z websocketsparser \<Rightarrow> bool" where
  "idle e p \<longleftrightarrow> ws_inv e p \<and> stage p = WSPARSER_STAGE_FIRST_BYTE \<and> request p = None \<and> \<not> message_fragmented p \<and>
     payload_index p = 0 \<and> needed (utf8_validator p) = 0"

text \<open>\<open>pending e p bytes msgs\<close>: when the parser is given \<open>bytes\<close>, it will have seen the messages.\<close>

fun pending :: "'z ws_env \<Rightarrow> 'z websocketsparser \<Rightarrow> char list \<Rightarrow> ws_message list \<Rightarrow> bool" where
  "pending e p bytes [] \<longleftrightarrow> idle e p \<and> bytes = []"
| "pending e p bytes (m # ms) \<longleftrightarrow>
     (\<exists>v l. message_good e v m \<and> message_progress e v m p l \<and>
            bytes = message_rest m l @ concat (map client_message ms))"

lemma feed_valid:
  assumes "needed v = 0" and "utf8_valid xs"
  shows "fst (ws_utf8_validator_feed v xs)" and "needed (snd (ws_utf8_validator_feed v xs)) = 0"
  using assms feed_accepts [of v xs "[]"] accepts_language [OF assms(1)]
  by (simp_all add: language_valid utf8_valid_def)

lemma idle_pending:
  assumes "idle e p" and "list_all (message_ok e) msgs"
  shows "pending e p (concat (map client_message msgs)) msgs"
proof (cases msgs)
  case Nil
  then show ?thesis
    using assms(1) by simp
next
  case (Cons m ms)
  have "message_good e (utf8_validator p) m"
    using assms feed_valid [of "utf8_validator p" "msg_text m"]
    by (auto simp: Cons message_good_def good_frame_def message_ok_def idle_def)
  moreover have "message_progress e (utf8_validator p) m p At_First"
    using assms(1) by (simp add: message_progress_def progress_def idle_def)
  moreover have "message_rest m At_First = client_message m"
    by (simp add: message_rest_def offset_def)
  ultimately show ?thesis
    by (auto simp: Cons intro!: exI [of _ "utf8_validator p"] exI [of _ At_First])
qed

lemma fed_needed:
  assumes "message_good e v m" and "fed (msg_op m) v (msg_text m) = (True, w)"
  shows "needed w = 0"
  using assms by (auto simp: message_good_def good_frame_def fed_def split: if_splits)

lemma run_read:
  assumes "ws_env_good e" and "message_good e v m" and "message_progress e v m p l" and "at_start p" and "ahead p \<noteq> []"
  shows "read_result e v 1 (msg_op m) (msg_key m) (msg_text m) l (ahead p) (length (buffer p)) (websocketsparser_run e p)"
proof -
  have good: "good_frame e v 1 (msg_op m) (msg_key m) (msg_text m)"
    and pr: "progress e v 1 (msg_op m) (msg_key m) (msg_text m) p l"
    using assms by (simp_all add: message_good_def message_progress_def)
  show ?thesis
  proof (cases "at_payload l")
    case True
    then obtain i where "l = At_Payload i"
      by (auto simp: at_payload_def)
    moreover from this have "stage p = WSPARSER_STAGE_PAYLOAD"
      using pr by (simp add: progress_def Let_def)
    ultimately show ?thesis
      using payload_read [OF assms(1) good, of p i] pr assms(5) by (simp add: websocketsparser_run_def)
  next
    case False
    have "p\<lparr>parser_pos := pos_start p\<rparr> = p"
      using assms(4) by (simp add: at_start_def)
    moreover have "stage p \<noteq> WSPARSER_STAGE_PAYLOAD"
      using pr False by (cases l) (auto simp: progress_def Let_def at_payload_def)
    ultimately show ?thesis
      using loop_read [OF assms(1) good pr] by (simp add: websocketsparser_run_def)
  qed
qed

lemma reset_idle:
  assumes "handled e p" and "needed (utf8_validator p) = 0"
  shows "\<exists>q. websocketsparser_reset p = Some q \<and> idle e q \<and> length (buffer q) = length (buffer p)"
proof -
  obtain xs where "holds_static (buf p) xs" "bufo_ok (compressed_buf p)" "length (buffer p) < 2 ^ 63"
    using assms(1) by (auto simp: handled_def ws_core_def window_ok_def)
  from websocketsparser_flush_spec [OF this, of e] obtain q where
    q: "websocketsparser_flush p = Some q" "ws_inv e q" "request q = None" "length (buffer q) = length (buffer p)"
    by blast
  then show ?thesis
    using assms(2)
    by (auto simp: websocketsparser_reset_def idle_def websocketsparser_flush_def split: Option.bind_splits)
qed

lemma remains_idle:
  assumes "handled e p" and "started 1 op got p" and "op = 1 \<or> op = 2" and "parser_pos p \<le> bytes_readed p"
  shows "\<exists>q. websocketsparser_prepare_remains p = Some q \<and> idle e q \<and> at_start q \<and> ahead q = ahead p \<and>
           length (buffer q) = length (buffer p)"
proof -
  obtain xs where core: "ws_core e p" "holds_static (buf p) xs"
    using assms(1) by (auto simp: handled_def)
  obtain q where q: "websocketsparser_prepare_remains p = Some q" "ws_inv e q" "at_start q"
    "stage q = WSPARSER_STAGE_FIRST_BYTE" "request q = (if message_fragmented p then request p else None)"
    using prepare_remains_spec [OF core assms(4)] by blast
  have data: "\<not> websocketsparser_is_control_frame (frame p)" "fin (frame p) = 1"
    using started_not_control [OF assms(3,2)] assms(2) by (simp_all add: started_def)
  then have frag: "\<not> message_fragmented p"
    using assms(1) by (simp add: handled_def header_ok_def)
  have "message_fragmented q = message_fragmented p" "payload_index q = 0" "needed (utf8_validator q) = 0"
    "ahead q = ahead p" "buffer q = buffer p"
    using q(1) data by (auto simp: websocketsparser_prepare_remains_def Let_def ws_utf8_validator_reset_def ahead_def)
  then show ?thesis
    using q frag by (simp add: idle_def)
qed

lemma handle_dispatch:
  assumes "\<forall>r. get_resource h r" and "started 1 op got (parser c)" and "op = 1 \<or> op = 2"
  obtains r where "\<And>d. ws_handle e h d c = Some (True, c\<lparr>dispatched := dispatched c @ [r]\<rparr>)"
    and "req_type r = 0x80 + op" and "stored r = got"
proof -
  obtain r where r: "request (parser c) = Some r" "req_type r = 0x80 + op" "stored r = got"
    using assms(2) by (auto simp: started_def)
  have "ws_handle e h d c = Some (True, c\<lparr>dispatched := dispatched c @ [r]\<rparr>)" for d
    using assms r(1)
    by (auto simp: ws_handle_def started_def Let_def WSOPCODE_CLOSE_def WSOPCODE_PING_def WSOPCODE_PONG_def)
  then show ?thesis
    using r(2,3) by (rule that)
qed

definition streamed ::
    "'z ws_env \<Rightarrow> ('z, 'y) ws_connection \<Rightarrow> char list \<Rightarrow> ws_message list \<Rightarrow> ('z, 'y) ws_connection \<Rightarrow> bool" where
  "streamed e c later msgs c' \<longleftrightarrow>
     (\<exists>seen rest rs. msgs = seen @ rest \<and> pending e (parser c') later rest \<and>
        dispatched c' = dispatched c @ rs \<and> list_all2 carries_message seen rs \<and>
        length (buffer (parser c')) = length (buffer (parser c)))"

lemma streamed_Cons:
  assumes "streamed e c1 later ms c'" and "dispatched c1 = dispatched c @ [r]" and "carries_message m r"
    and "length (buffer (parser c1)) = length (buffer (parser c))"
  shows "streamed e c later (m # ms) c'"
proof -
  obtain seen rest rs where "ms = seen @ rest" "pending e (parser c') later rest"
    "dispatched c' = dispatched c1 @ rs" "list_all2 carries_message seen rs"
    "length (buffer (parser c')) = length (buffer (parser c1))"
    using assms(1) unfolding streamed_def by blast
  then show ?thesis
    unfolding streamed_def using assms(2-4)
    by (intro exI [of _ "m # seen"] exI [of _ rest] exI [of _ "r # rs"]) simp
qed

lemma prefix_cases:
  assumes "xs @ later = rest @ behind"
  obtains "length xs < length rest" "xs = take (length xs) rest" "later = drop (length xs) rest @ behind"
  | tail where "xs = rest @ tail" "behind = tail @ later"
proof (cases "length xs < length rest")
  case True
  then have "xs = take (length xs) rest" "later = drop (length xs) rest @ behind"
    using arg_cong [OF assms, of "take (length xs)"] arg_cong [OF assms, of "drop (length xs)"] by simp_all
  with True show ?thesis
    by (rule that(1))
next
  case False
  then show ?thesis
    using assms that(2) [of "drop (length rest) xs"] by (auto simp: append_eq_append_conv2)
qed

lemma frames_stream:
  assumes env: "ws_env_good e" and res: "\<forall>r. get_resource h r"
  shows "list_all (message_ok e) msgs \<Longrightarrow> pending e (parser c) (ahead (parser c) @ later) msgs \<Longrightarrow>
    at_start (parser c) \<Longrightarrow> ahead (parser c) \<noteq> [] \<Longrightarrow>
    \<exists>oc c'. ws_frames e h c = Some (oc, c') \<and> (oc = Read_More \<or> oc = Read_Return True) \<and> streamed e c later msgs c'"
proof (induction msgs arbitrary: c)
  case Nil
  then show ?case
    by simp
next
  case (Cons m ms)
  define p where "p = parser c"
  obtain v l where good: "message_good e v m" and pr: "message_progress e v m p l"
    and eq: "ahead p @ later = message_rest m l @ concat (map client_message ms)"
    using Cons.prems(2) by (auto simp: p_def)
  have op: "msg_op m = 1 \<or> msg_op m = 2"
    using Cons.prems(1) by (simp add: message_ok_def)
  have ok: "ws_env_ok e" and inv: "ws_inv e p"
    using env pr by (simp_all add: ws_env_good_def message_progress_def progress_def)
  note rr = run_read [OF env good pr Cons.prems(3,4) [folded p_def]]
  have spec: "returns (websocketsparser_run e p) (\<lambda>(st, q). result_ok e p st q)"
    by (rule websocketsparser_run_spec [OF ok inv Cons.prems(3) [folded p_def]])
  from eq show ?case
  proof (cases rule: prefix_cases)
    case 1
    then obtain q l' where q: "websocketsparser_run e p = Some (WSPARSER_CONTINUE, q)" "message_progress e v m q l'"
      "offset (length (msg_text m)) l' = offset (length (msg_text m)) l + length (ahead p)"
      "length (buffer q) = length (buffer p)"
      using rr unfolding read_result_def message_rest_def client_message_def message_progress_def Let_def by blast
    have "ws_frames e h c = Some (Read_More, c\<lparr>parser := q\<rparr>)"
      using q(1) by (subst ws_frames.simps) (simp add: p_def)
    moreover have "later = message_rest m l' @ concat (map client_message ms)"
      using 1(3) q(3) by (simp add: message_rest_def add.commute)
    then have "pending e q later (m # ms)"
      using good q(2) by auto
    then have "streamed e c later (m # ms) (c\<lparr>parser := q\<rparr>)"
      unfolding streamed_def using q(4)
      by (intro exI [of _ "[]"] exI [of _ "m # ms"]) (simp add: p_def)
    ultimately show ?thesis
      by blast
  next
    case (2 tail)
    then obtain st q where q: "websocketsparser_run e p = Some (st, q)"
      "frame_done v 1 (msg_op m) (msg_text m) (payload_start l) tail st q"
      using rr unfolding read_result_def message_rest_def client_message_def Let_def by blast
    then have sq: "started 1 (msg_op m) (msg_text m) q" and fd: "fed (msg_op m) v (msg_text m) = (True, utf8_validator q)"
      and ro: "result_ok e p st q"
      using spec by (simp_all add: frame_done_def)
    have nd: "needed (utf8_validator q) = 0"
      by (rule fed_needed [OF good fd])
    define c1 where "c1 = c\<lparr>parser := q\<rparr>"
    have "started 1 (msg_op m) (msg_text m) (parser c1)"
      using sq by (simp add: c1_def)
    from handle_dispatch [OF res this op, of e] obtain r where
      hd: "\<And>d. ws_handle e h d c1 = Some (True, c1\<lparr>dispatched := dispatched c1 @ [r]\<rparr>)" "carries_message m r"
      unfolding carries_message_def by blast
    define c2 where "c2 = c1\<lparr>dispatched := dispatched c1 @ [r]\<rparr>"
    have c2: "parser c2 = q" "dispatched c2 = dispatched c @ [r]"
      by (simp_all add: c2_def c1_def)
    show ?thesis
    proof (cases "tail = []")
      case True
      then have "st = WSPARSER_COMPLETE"
        using q(2) by (simp add: frame_done_def)
      moreover from this have h: "handled e q" "length (buffer q) = length (buffer p)"
        using ro by (simp_all add: result_ok_def)
      moreover obtain q' where q': "websocketsparser_reset q = Some q'" "idle e q'" "length (buffer q') = length (buffer q)"
        using reset_idle [OF h(1) nd] by blast
      ultimately have "ws_frames e h c = Some (Read_Return True, c2\<lparr>parser := q'\<rparr>)"
        using q(1) hd(1) [of False] c2(1)
        by (subst ws_frames.simps) (simp add: p_def Let_def c1_def [symmetric] c2_def [symmetric])
      moreover have "pending e q' later ms"
        using idle_pending [OF q'(2), of ms] Cons.prems(1) 2(2) True by simp
      then have "streamed e (c2\<lparr>parser := q'\<rparr>) later ms (c2\<lparr>parser := q'\<rparr>)"
        unfolding streamed_def by (intro exI [of _ "[]"] exI [of _ ms]) simp
      then have "streamed e c later (m # ms) (c2\<lparr>parser := q'\<rparr>)"
        by (rule streamed_Cons) (use c2 hd(2) q'(3) h(2) in \<open>simp_all add: p_def\<close>)
      ultimately show ?thesis
        by blast
    next
      case False
      then have st: "st = WSPARSER_HANDLE_AND_CONTINUE" and ah: "ahead q = tail"
        using q(2) by (simp_all add: frame_done_def)
      then have h: "handled e q" "length (buffer q) = length (buffer p)" "parser_pos q \<le> bytes_readed q"
        using ro by (simp_all add: result_ok_def)
      obtain q' where q': "websocketsparser_prepare_remains q = Some q'" "idle e q'" "at_start q'" "ahead q' = tail"
        "length (buffer q') = length (buffer q)"
        using remains_idle [OF h(1) sq op h(3)] ah by blast
      define c3 where "c3 = c2\<lparr>parser := q'\<rparr>"
      have "pending e (parser c3) (ahead (parser c3) @ later) ms"
        using idle_pending [OF q'(2), of ms] Cons.prems(1) 2(2) q'(4) by (simp add: c3_def)
      then obtain oc c' where c': "ws_frames e h c3 = Some (oc, c')" "oc = Read_More \<or> oc = Read_Return True"
        "streamed e c3 later ms c'"
        using Cons.IH [of c3] Cons.prems(1) q'(3,4) False by (auto simp: c3_def)
      have "ws_frames e h c = ws_frames e h c3"
        using q(1) st hd(1) [of True] c2(1) q'(1)
        by (subst ws_frames.simps) (simp add: p_def Let_def c1_def [symmetric] c2_def [symmetric] c3_def [symmetric])
      moreover have "streamed e c later (m # ms) c'"
        using c'(3) by (rule streamed_Cons) (use c2 hd(2) q'(5) h(2) in \<open>simp_all add: p_def c3_def\<close>)
      ultimately show ?thesis
        using c'(1,2) by auto
    qed
  qed
qed

lemma receive_progress:
  assumes "length bytes \<le> length (buffer p)" and "ws_inv e p"
  shows "\<exists>q. ws_receive bytes p = Some q \<and> at_start q \<and> ahead q = bytes \<and> length (buffer q) = length (buffer p) \<and>
           (\<forall>ms behind. pending e p behind ms \<longrightarrow> pending e q behind ms)"
proof -
  obtain b where b: "poke (buffer p) 0 bytes = Some b" "take (length bytes) b = bytes" "length b = length (buffer p)"
    using assms(1) by (simp add: poke_def)
  define q where "q = p\<lparr>buffer := b, bytes_readed := length bytes, pos_start := 0, parser_pos := 0\<rparr>"
  have r: "ws_receive bytes p = Some q"
    using b(1) by (simp add: ws_receive_def websocketsparser_set_bytes_readed_def q_def)
  then have inv: "ws_inv e q"
    using ws_receive_spec [of e p bytes] assms by auto
  have "message_progress e v m q l" if "message_progress e v m p l" for v m l
    using that inv by (cases l) (simp_all add: message_progress_def progress_def started_def Let_def q_def)
  moreover have "idle e q" if "idle e p"
    using that inv by (simp add: idle_def q_def)
  ultimately have "pending e q behind ms" if "pending e p behind ms" for behind ms
    using that by (cases ms; simp) blast
  then show ?thesis
    using r b(2,3) by (simp add: at_start_def ahead_def q_def)
qed

lemma pending_inv: "pending e p behind ms \<Longrightarrow> ws_inv e p"
  by (cases ms) (auto simp: idle_def message_progress_def progress_def)

lemma serve_stream:
  assumes env: "ws_env_good e" and res: "\<forall>r. get_resource h r"
  shows "list_all (message_ok e) msgs \<Longrightarrow> pending e (parser c) (concat chunks) msgs \<Longrightarrow>
    list_all (\<lambda>b. b \<noteq> [] \<and> length b \<le> length (buffer (parser c))) chunks \<Longrightarrow>
    \<exists>c' rs. ws_serve e h (map (\<lambda>b. [Data b]) chunks) c = Some c' \<and> dispatched c' = dispatched c @ rs \<and>
            list_all2 carries_message msgs rs"
proof (induction chunks arbitrary: c msgs)
  case Nil
  have "msgs = []"
  proof (cases msgs)
    case (Cons m ms)
    then obtain v l where "message_good e v m" "message_progress e v m (parser c) l" "message_rest m l = []"
      using Nil.prems(2) by auto
    then show ?thesis
      using progress_offset [of e v 1 "msg_op m" "msg_key m" "msg_text m" "parser c" l]
      by (simp add: message_good_def message_progress_def message_rest_def client_message_def)
  qed
  then show ?case
    by simp
next
  case (Cons b chunks)
  have b: "b \<noteq> []" "length b \<le> length (buffer (parser c))"
    using Cons.prems(3) by simp_all
  obtain p where p: "ws_receive b (parser c) = Some p" "at_start p" "ahead p = b"
    "length (buffer p) = length (buffer (parser c))" "pending e p (concat (b # chunks)) msgs"
    using receive_progress [OF b(2) pending_inv [OF Cons.prems(2)]] Cons.prems(2) by blast
  obtain oc c1 where c1: "ws_frames e h (c\<lparr>parser := p\<rparr>) = Some (oc, c1)" "oc = Read_More \<or> oc = Read_Return True"
    "streamed e (c\<lparr>parser := p\<rparr>) (concat chunks) msgs c1"
    using frames_stream [OF env res Cons.prems(1), of "c\<lparr>parser := p\<rparr>" "concat chunks"] p b(1) by auto
  obtain seen rest rs where s: "msgs = seen @ rest" "pending e (parser c1) (concat chunks) rest"
    "dispatched c1 = dispatched c @ rs" "list_all2 carries_message seen rs" "length (buffer (parser c1)) = length (buffer p)"
    using c1(3) by (auto simp: streamed_def)
  have "ws_read e h [Data b] c = Some (True, c1)"
    using p(1) c1(1,2) by auto
  moreover obtain c' rs' where "ws_serve e h (map (\<lambda>b. [Data b]) chunks) c1 = Some c'"
    "dispatched c' = dispatched c1 @ rs'" "list_all2 carries_message rest rs'"
    using Cons.IH [of rest c1] Cons.prems(1,3) s p(4) by auto
  ultimately show ?case
    using s by (auto intro: list_all2_appendI)
qed

lemma create_idle:
  assumes "length (static_buffer (buf p0)) = BUFFERDATA_SIZE" and "events p0 = []" and "length cbuf < 2 ^ 63"
  shows "\<exists>p. websocketsparser_create p0 cbuf = Some p \<and> buffer p = cbuf \<and>
           idle e (parser (open_connection p dfl ntk :: ('z, 'y) ws_connection)) \<and>
           buffer (parser (open_connection p dfl ntk :: ('z, 'y) ws_connection)) = cbuf"
proof -
  obtain p where p: "websocketsparser_create p0 cbuf = Some p" "ws_inv e p" "request p = None" "buffer p = cbuf"
    using websocketsparser_create_spec [OF assms, of e] by blast
  moreover from p(1) have "stage p = WSPARSER_STAGE_FIRST_BYTE" "\<not> message_fragmented p" "payload_index p = 0"
    "needed (utf8_validator p) = 0"
    by (auto simp: websocketsparser_create_def websocketsparser_init_def ws_utf8_validator_reset_def
        split: Option.bind_splits)
  ultimately show ?thesis
    by (simp add: idle_def open_connection_def ws_inv_configured)
qed

section \<open>Properties\<close>


lemma plain_env_good: "ws_env_good plain_env"
  using plain_env_ok by (simp add: ws_env_good_def plain_env_def)

definition two_messages :: "ws_message list" where
  "two_messages = [\<lparr>msg_op = 1, msg_key = ''abcd'', msg_text = ''Hi''\<rparr>, \<lparr>msg_op = 2, msg_key = ''wxyz'', msg_text = [nul]\<rparr>]"


text \<open>Property C21. What happens behind a frame that is not the last one of its message. When the read
  ends with the frame, the parser does not step over the payload: after the frame has been handled
  and \<open>websocketsparser_prepare_remains\<close> has run, it expects the first byte of a frame and the bytes
  ahead of it are the unmasked payload of the frame, which it parses again as a frame header.\<close>

theorem fragment_read_again:
  assumes "ws_env_good e" and "idle e p" and "at_start p" and "good_frame e (utf8_validator p) 0 op key plain"
    and "ahead p = client_frame 0 op key plain"
  shows "returns (do { (st, q) \<leftarrow> websocketsparser_run e p;
                       q' \<leftarrow> websocketsparser_prepare_remains q;
                       Some (st, q') })
           (\<lambda>(st, q'). st = WSPARSER_HANDLE_AND_CONTINUE \<and> stage q' = WSPARSER_STAGE_FIRST_BYTE \<and>
                       at_start q' \<and> ahead q' = plain)"
proof -
  have ok: "ws_env_ok e" and inv: "ws_inv e p"
    using assms(1,2) by (simp_all add: ws_env_good_def idle_def)
  have "progress e (utf8_validator p) 0 op key plain p At_First"
    using assms(2) by (simp add: progress_def idle_def)
  moreover have "p\<lparr>parser_pos := pos_start p\<rparr> = p"
    using assms(3) by (simp add: at_start_def)
  then have run: "websocketsparser_run e p = ws_loop e p"
    using assms(2) by (simp add: websocketsparser_run_def idle_def)
  ultimately obtain st q where q: "websocketsparser_run e p = Some (st, q)"
    "frame_done (utf8_validator p) 0 op plain 0 [] st q"
    using loop_read [OF assms(1,4), of p At_First] assms(5)
    by (auto simp: read_result_def Let_def offset_def payload_start_def)
  then have st: "st = WSPARSER_HANDLE_AND_CONTINUE" "ahead q = plain"
    by (simp_all add: frame_done_def)
  have "result_ok e p st q"
    using websocketsparser_run_spec [OF ok inv assms(3)] q(1) by simp
  then obtain xs where "ws_core e q" "holds_static (buf q) xs" "parser_pos q \<le> bytes_readed q"
    using st(1) by (auto simp: result_ok_def handled_def)
  from prepare_remains_spec [OF this] obtain q' where
    q': "websocketsparser_prepare_remains q = Some q'" "at_start q'" "stage q' = WSPARSER_STAGE_FIRST_BYTE"
    by blast
  moreover have "ahead q' = ahead q"
    using q'(1) by (auto simp: websocketsparser_prepare_remains_def Let_def ahead_def split: if_splits)
  ultimately show ?thesis
    using q(1) st by simp
qed

definition hello_parser :: "unit websocketsparser" where
  "hello_parser = blank_parser\<lparr>buf := the (bufferdata_init blank_bufferdata),
     frame := websockets_frame_init (frame blank_parser),
     buffer := client_frame 0 1 ''abcd'' ''Hel'', bytes_readed := 9\<rparr>"

theorem fragment_read_again_witness:
  "ws_env_good plain_env \<and> idle plain_env hello_parser \<and> at_start hello_parser \<and>
   good_frame plain_env (utf8_validator hello_parser) 0 1 ''abcd'' ''Hel'' \<and>
   ahead hello_parser = client_frame 0 1 ''abcd'' ''Hel'' \<and>
   returns (do { (st, q) \<leftarrow> websocketsparser_run plain_env hello_parser;
                 q' \<leftarrow> websocketsparser_prepare_remains q;
                 Some (st, q') })
     (\<lambda>(st, q'). st = WSPARSER_HANDLE_AND_CONTINUE \<and> stage q' = WSPARSER_STAGE_FIRST_BYTE \<and>
                 at_start q' \<and> ahead q' = ''Hel'')"
proof -
  have len: "length (client_frame 0 1 ''abcd'' ''Hel'') = 9"
    by (simp add: frame_length more_length_cases)
  obtain b where b: "bufferdata_init blank_bufferdata = Some b" "bufferdata_inv b" "bufferdata_content b = []"
    using bufferdata_init_spec [of blank_bufferdata]
    by (auto simp: bufferdata_inv_def blank_bufferdata_def elim!: returnsE)
  then have "holds_static b []"
    by (auto simp: holds_static_def bufferdata_init_def split: Option.bind_splits)
  then have "idle plain_env hello_parser" "at_start hello_parser" "ahead hello_parser = client_frame 0 1 ''abcd'' ''Hel''"
    using b(1) len
    by (auto simp: idle_def hello_parser_def blank_parser_def ws_inv_def ws_core_def window_ok_def stage_inv_def
        bufo_ok_def blank_bufo_def at_start_def ahead_def)
  moreover have "good_frame plain_env (utf8_validator hello_parser) 0 1 ''abcd'' ''Hel''"
    by (simp add: good_frame_def hello_parser_def blank_parser_def plain_env_def ws_utf8_validator_byte_def)
  ultimately show ?thesis
    using plain_env_good fragment_read_again [OF plain_env_good, of hello_parser 1 "''abcd''" "''Hel''"] by blast
qed

end
