(* ===== verification/Gzip.thy ===== *)
theory Gzip
  imports Prelude
begin

text \<open>
  The wrapper of zlib (misc/gzip.c) that the gzip filter and the client's body parsers use. zlib
  itself is a parameter: a record of the functions the wrapper calls, over an abstract stream. The
  hypothesis \<open>zlib_ok\<close> states what its manual promises: a call consumes at most its input and fills at
  most its output area, and a stream cannot fill its output area for ever.
\<close>

datatype gz_status = Z_OK | Z_STREAM_END | Z_NEED_DICT | Z_DATA_ERROR | Z_MEM_ERROR | Z_STREAM_ERROR | Z_BUF_ERROR

text \<open>\<open>inflate\<close> and \<open>deflate\<close> take the stream, the bytes at \<open>next_in\<close> and \<open>avail_out\<close>, and return the status,
  the number of bytes consumed, the bytes produced and the stream.\<close>

record 'z zlib =
  inflateInit2 :: "'z \<Rightarrow> bool \<times> 'z"
  inflate :: "'z \<Rightarrow> char list \<Rightarrow> nat \<Rightarrow> gz_status \<times> nat \<times> char list \<times> 'z"
  inflateEnd :: "'z \<Rightarrow> bool \<times> 'z"
  deflateInit2 :: "'z \<Rightarrow> bool \<times> 'z"
  deflate :: "'z \<Rightarrow> char list \<Rightarrow> nat \<Rightarrow> bool \<Rightarrow> gz_status \<times> nat \<times> char list \<times> 'z"
  deflateEnd :: "'z \<Rightarrow> bool \<times> 'z"

record 'z gzip =
  is_deflate_init :: int
  status_code :: gz_status
  zstream :: 'z
  next_in :: "char list"
  avail_out :: nat

definition GZIP_BUFFER :: nat where
  "GZIP_BUFFER = 16384"

text \<open>\<open>memset\<close> of the stream: the argument is the stream of zero bytes.\<close>

definition gzip_init :: "'z \<Rightarrow> 'z gzip \<Rightarrow> 'z gzip" where
  "gzip_init zero g = g\<lparr>zstream := zero, next_in := [], avail_out := 0, is_deflate_init := -1, status_code := Z_OK\<rparr>"

definition gzip_deflate_free :: "'z zlib \<Rightarrow> 'z gzip \<Rightarrow> bool \<times> 'z gzip" where
  "gzip_deflate_free zl g =
     (let (ok, z) = deflateEnd zl (zstream g) in (ok, g\<lparr>is_deflate_init := -1, zstream := z\<rparr>))"

definition gzip_inflate_free :: "'z zlib \<Rightarrow> 'z gzip \<Rightarrow> bool \<times> 'z gzip" where
  "gzip_inflate_free zl g =
     (let (ok, z) = inflateEnd zl (zstream g) in (ok, g\<lparr>is_deflate_init := -1, zstream := z\<rparr>))"

definition gzip_free :: "'z zlib \<Rightarrow> 'z gzip \<Rightarrow> bool \<times> 'z gzip" where
  "gzip_free zl g =
     (if is_deflate_init g = 0 then gzip_deflate_free zl g
      else if is_deflate_init g = 1 then gzip_inflate_free zl g
      else (False, g))"

definition gzip_deflate_init :: "'z zlib \<Rightarrow> 'z gzip \<Rightarrow> bool \<times> 'z gzip" where
  "gzip_deflate_init zl g =
     (let (ok, z) = deflateInit2 zl (zstream g) in (ok, g\<lparr>is_deflate_init := 0, zstream := z\<rparr>))"

text \<open>The bytes written to the output area are the first component of the result.\<close>

definition gzip_deflate :: "'z zlib \<Rightarrow> 'z gzip \<Rightarrow> nat \<Rightarrow> bool \<Rightarrow> char list \<times> 'z gzip" where
  "gzip_deflate zl g compress_length final =
     (let (st, used, out, z) = deflate zl (zstream g) (next_in g) compress_length final
      in (out, g\<lparr>status_code := st, zstream := z, next_in := drop used (next_in g),
                 avail_out := compress_length - length out\<rparr>))"

definition gzip_set_in :: "'z gzip \<Rightarrow> char list \<Rightarrow> 'z gzip" where
  "gzip_set_in g data = g\<lparr>next_in := data\<rparr>"

definition gzip_deflate_has_error :: "'z gzip \<Rightarrow> bool" where
  "gzip_deflate_has_error g \<longleftrightarrow>
     status_code g \<in> {Z_DATA_ERROR, Z_MEM_ERROR, Z_STREAM_ERROR, Z_BUF_ERROR}"

definition gzip_inflate_init :: "'z zlib \<Rightarrow> 'z gzip \<Rightarrow> char list \<Rightarrow> bool \<times> 'z gzip" where
  "gzip_inflate_init zl g compress_data =
     (let (ok, g1) = (if is_deflate_init g = -1
                      then let (ok, z) = inflateInit2 zl (zstream g)
                           in (ok, g\<lparr>is_deflate_init := 1, next_in := [], zstream := z\<rparr>)
                      else (True, g))
      in if ok then (True, g1\<lparr>next_in := compress_data\<rparr>) else (False, g1))"

definition gzip_inflate :: "'z zlib \<Rightarrow> 'z gzip \<Rightarrow> nat \<Rightarrow> char list \<times> 'z gzip" where
  "gzip_inflate zl g length_out =
     (let (st, used, out, z) = inflate zl (zstream g) (next_in g) length_out
      in (out, g\<lparr>status_code := st, zstream := z, next_in := drop used (next_in g),
                 avail_out := length_out - length out\<rparr>))"

definition gzip_inflate_has_error :: "'z gzip \<Rightarrow> bool" where
  "gzip_inflate_has_error g \<longleftrightarrow> status_code g \<in> {Z_NEED_DICT, Z_DATA_ERROR, Z_MEM_ERROR, Z_STREAM_ERROR}"

definition gzip_is_end :: "'z gzip \<Rightarrow> bool" where
  "gzip_is_end g \<longleftrightarrow> status_code g = Z_STREAM_END"

definition gzip_want_continue :: "'z gzip \<Rightarrow> bool" where
  "gzip_want_continue g \<longleftrightarrow> avail_out g = 0"

text \<open>What the code relies on.\<close>

definition inflate_bounded :: "'z zlib \<Rightarrow> bool" where
  "inflate_bounded zl \<longleftrightarrow> (\<forall>z inp n st used out z'. inflate zl z inp n = (st, used, out, z') \<longrightarrow>
     length out \<le> n \<and> used \<le> length inp)"

definition deflate_bounded :: "'z zlib \<Rightarrow> bool" where
  "deflate_bounded zl \<longleftrightarrow> (\<forall>z inp n final st used out z'. deflate zl z inp n final = (st, used, out, z') \<longrightarrow>
     length out \<le> n \<and> used \<le> length inp)"

definition inflate_ends :: "'z zlib \<Rightarrow> ('z \<Rightarrow> char list \<Rightarrow> nat) \<Rightarrow> bool" where
  "inflate_ends zl rank \<longleftrightarrow> (\<forall>z inp n st used out z'. inflate zl z inp n = (st, used, out, z') \<longrightarrow>
     length out = n \<longrightarrow> 0 < n \<longrightarrow> rank z' (drop used inp) < rank z inp)"

definition zlib_ok :: "'z zlib \<Rightarrow> bool" where
  "zlib_ok zl \<longleftrightarrow> inflate_bounded zl \<and> deflate_bounded zl \<and> (\<exists>rank. inflate_ends zl rank)"

lemma inflate_bound: "zlib_ok zl \<Longrightarrow> inflate zl z inp n = (st, used, out, z') \<Longrightarrow> length out \<le> n"
  unfolding zlib_ok_def inflate_bounded_def by blast

lemma inflate_rank:
  assumes "zlib_ok zl"
  obtains rank where "\<And>z inp n st used out z'. inflate zl z inp n = (st, used, out, z') \<Longrightarrow> length out = n \<Longrightarrow>
    0 < n \<Longrightarrow> (rank z' (drop used inp) :: nat) < rank z inp"
proof -
  obtain rank where "inflate_ends zl rank"
    using assms by (auto simp: zlib_ok_def)
  then show ?thesis
    using that [of rank] unfolding inflate_ends_def by blast
qed

end
