(* ===== verification/Http_Te.thy ===== *)
theory Http_Te
  imports Bufferdata Gzip
begin

text \<open>
  The decoder of chunked bodies in the HTTP client
  (protocols/http/client/parsers/httpteparser.c). It is fed the bytes of a response body as they
  arrive and appends the data of the chunks to the payload file. The file is the list of its bytes;
  whether an append succeeds and zlib are parameters. The theory shows that the decoder is memory
  safe and ends for any input, and that it decodes every chunked encoding to its data, however the
  bytes are divided into reads.
\<close>

unbundle bit_operations_syntax

section \<open>State\<close>

datatype httpte_status = HTTP1TEPARSER_ERROR | HTTP1TEPARSER_CONTINUE | HTTP1TEPARSER_COMPLETE

datatype httpte_stage =
    HTTP1TEPARSER_CHUNKSIZE
  | HTTP1TEPARSER_CHUNKSIZE_NEWLINE
  | HTTP1TEPARSER_CHUNKSIZE_EXT
  | HTTP1TEPARSER_CHUNK
  | HTTP1TEPARSER_CHUNK_NEWLINE
  | HTTP1TEPARSER_TRAILER
  | HTTP1TEPARSER_TRAILER_NEWLINE
  | HTTP1TEPARSER_TRAILER_FINAL_NEWLINE

text \<open>\<open>payload\<close> is the content of the payload file of the connection's response.\<close>

record 'z httpteparser =
  te_stage :: httpte_stage
  te_buf :: bufferdata
  bytes_readed :: nat
  te_pos :: nat
  chunk_size :: nat
  chunk_size_readed :: nat
  te_gzip :: "'z gzip"
  te_buffer :: "char list"
  payload :: "char list"

text \<open>\<open>append_content\<close>: whether appending the second string to a file with the first one succeeds.
  \<open>is_gzip\<close>: the content encoding of the response.\<close>

record 'z te_env =
  te_alloc :: allocator
  te_zlib :: "'z zlib"
  is_gzip :: bool
  append_content :: "char list \<Rightarrow> char list \<Rightarrow> bool"

abbreviation CR :: char where
  "CR \<equiv> CHR 0x0D"

abbreviation LF :: char where
  "LF \<equiv> CHR 0x0A"

section \<open>Chunk sizes\<close>

definition INT_MAX :: int where
  "INT_MAX = 2147483647"

definition hextable :: "char \<Rightarrow> int" where
  "hextable c =
     (let n = int (ord c) in
      if 0x30 \<le> n \<and> n \<le> 0x39 then n - 0x30
      else if 0x41 \<le> n \<and> n \<le> 0x46 then n - 0x37
      else if 0x61 \<le> n \<and> n \<le> 0x66 then n - 0x57
      else -1)"

text \<open>\<open>__hex_to_dec\<close> from the value \<open>ret\<close> on.\<close>

fun hex_to_dec :: "int \<Rightarrow> char list \<Rightarrow> int" where
  "hex_to_dec ret [] = ret"
| "hex_to_dec ret (hex # data) =
     (if ret < 0 then ret
      else let ret1 = (push_bit 4 ret) OR hextable hex
           in if INT_MAX < ret1 then -1 else hex_to_dec ret1 data)"

definition set_chunk_size :: "'z te_env \<Rightarrow> 'z httpteparser \<Rightarrow> (bool \<times> 'z httpteparser) option" where
  "set_chunk_size e p = do {
     (s, b) \<leftarrow> bufferdata_get (te_alloc e) (te_buf p);
     string \<leftarrow> s;
     data \<leftarrow> peek string 0 (bufferdata_writed b);
     let result = hex_to_dec 0 data;
     let p1 = p\<lparr>te_buf := b\<rparr>;
     Some (if result = -1 then (False, p1)
           else (True, p1\<lparr>chunk_size := nat result, chunk_size_readed := 0\<rparr>))
   }"

section \<open>Chunk data\<close>

text \<open>The loop over the output of \<open>inflate\<close>. The first component of the result is false where the code
  returns 0.\<close>

partial_function (option) inflate_append ::
    "'z te_env \<Rightarrow> 'z gzip \<Rightarrow> char list \<Rightarrow> (bool \<times> 'z gzip \<times> char list) option" where
  "inflate_append e g content =
     (let (out, g1) = gzip_inflate (te_zlib e) g GZIP_BUFFER in
      if gzip_inflate_has_error g1 then Some (False, g1, content)
      else if 0 < length out \<and> \<not> append_content e content out then Some (False, g1, content)
      else if gzip_want_continue g1 then inflate_append e g1 (content @ out)
      else Some (True, g1, content @ out))"

definition read_chunk :: "'z te_env \<Rightarrow> 'z httpteparser \<Rightarrow> (bool \<times> 'z httpteparser) option" where
  "read_chunk e p =
     (let left = szsub (chunk_size p) (chunk_size_readed p);
          avail = szsub (bytes_readed p) (te_pos p);
          temp_chunk_size = (if avail < left then avail else left)
      in if temp_chunk_size = 0 then Some (True, p)
         else do {
           data \<leftarrow> peek (te_buffer p) (te_pos p) temp_chunk_size;
           (ok, p1) \<leftarrow>
             (if is_gzip e then
                let (ok, g) = gzip_inflate_init (te_zlib e) (te_gzip p) data in
                if \<not> ok then Some (False, p\<lparr>te_gzip := g\<rparr>)
                else do {
                  (ok1, g1, content) \<leftarrow> inflate_append e g (payload p);
                  let p2 = p\<lparr>te_gzip := g1, payload := content\<rparr>;
                  (if \<not> ok1 then Some (False, p2)
                   else if gzip_is_end g1
                   then let (ok2, g2) = gzip_inflate_free (te_zlib e) g1 in Some (ok2, p2\<lparr>te_gzip := g2\<rparr>)
                   else Some (True, p2))
                }
              else if \<not> append_content e (payload p) data then Some (False, p)
              else Some (True, p\<lparr>payload := payload p @ data\<rparr>));
           Some (if \<not> ok then (False, p1)
                 else (True, p1\<lparr>chunk_size_readed := chunk_size_readed p1 + temp_chunk_size,
                                te_pos := te_pos p1 + temp_chunk_size\<rparr>))
         })"

section \<open>The state machine\<close>

definition te_push :: "'z te_env \<Rightarrow> 'z httpteparser \<Rightarrow> char \<Rightarrow> 'z httpteparser option" where
  "te_push e p ch = map_option (\<lambda>(_, b). p\<lparr>te_buf := b\<rparr>) (bufferdata_push (te_alloc e) (te_buf p) ch)"

definition te_complete :: "'z te_env \<Rightarrow> 'z httpteparser \<Rightarrow> 'z httpteparser option" where
  "te_complete e p = map_option (\<lambda>(_, b). p\<lparr>te_buf := b\<rparr>) (bufferdata_complete (te_alloc e) (te_buf p))"

definition te_reset :: "'z httpteparser \<Rightarrow> 'z httpteparser option" where
  "te_reset p = map_option (\<lambda>b. p\<lparr>te_buf := b\<rparr>) (bufferdata_reset (te_buf p))"

text \<open>Completing the buffer, parsing the size and resetting the buffer, with the stage that follows.\<close>

definition te_size_line ::
    "'z te_env \<Rightarrow> 'z httpteparser \<Rightarrow> (httpte_status option \<times> 'z httpteparser) option" where
  "te_size_line e p = do {
     p1 \<leftarrow> te_complete e p;
     (ok, p2) \<leftarrow> set_chunk_size e p1;
     (if \<not> ok then Some (Some HTTP1TEPARSER_ERROR, p2) else map_option (Pair None) (te_reset p2))
   }"

text \<open>The switch of \<open>httpteparser_run\<close>: the status with which the function returns, or \<open>None\<close>.\<close>

definition te_step ::
    "'z te_env \<Rightarrow> 'z httpteparser \<Rightarrow> char \<Rightarrow> (httpte_status option \<times> 'z httpteparser) option" where
  "te_step e p ch =
     (case te_stage p of
        HTTP1TEPARSER_CHUNKSIZE \<Rightarrow>
          if ch = CR then
            if 8 < bufferdata_writed (te_buf p) then Some (Some HTTP1TEPARSER_ERROR, p)
            else te_size_line e (p\<lparr>te_stage := HTTP1TEPARSER_CHUNKSIZE_NEWLINE\<rparr>)
          else if ch = CHR '';'' then
            map_option (\<lambda>(r, p1). (r, if r = None then p1\<lparr>te_stage := HTTP1TEPARSER_CHUNKSIZE_EXT\<rparr> else p1))
              (te_size_line e p)
          else if 8 < bufferdata_writed (te_buf p) then Some (Some HTTP1TEPARSER_ERROR, p)
          else map_option (Pair None) (te_push e p ch)
      | HTTP1TEPARSER_CHUNKSIZE_NEWLINE \<Rightarrow>
          if ch = LF
          then Some (None, p\<lparr>te_stage := (if chunk_size p = 0 then HTTP1TEPARSER_TRAILER else HTTP1TEPARSER_CHUNK)\<rparr>)
          else Some (Some HTTP1TEPARSER_ERROR, p)
      | HTTP1TEPARSER_CHUNKSIZE_EXT \<Rightarrow>
          Some (None, if ch = CR then p\<lparr>te_stage := HTTP1TEPARSER_CHUNKSIZE_NEWLINE\<rparr> else p)
      | HTTP1TEPARSER_CHUNK \<Rightarrow> do {
          (ok, p1) \<leftarrow> read_chunk e p;
          (if \<not> ok then Some (Some HTTP1TEPARSER_ERROR, p1)
           else if chunk_size p1 \<le> chunk_size_readed p1 \<and> te_pos p1 < bytes_readed p1 then do {
             c \<leftarrow> peek (te_buffer p1) (te_pos p1) 1;
             Some (None, if hd c = CR then p1\<lparr>te_stage := HTTP1TEPARSER_CHUNK_NEWLINE\<rparr> else p1)
           }
           else Some (None, p1))
        }
      | HTTP1TEPARSER_CHUNK_NEWLINE \<Rightarrow>
          if ch = LF then Some (None, p\<lparr>te_stage := HTTP1TEPARSER_CHUNKSIZE\<rparr>)
          else Some (Some HTTP1TEPARSER_ERROR, p)
      | HTTP1TEPARSER_TRAILER \<Rightarrow>
          if ch = CR then
            if bufferdata_writed (te_buf p) = 0
            then Some (None, p\<lparr>te_stage := HTTP1TEPARSER_TRAILER_FINAL_NEWLINE\<rparr>)
            else map_option (\<lambda>p1. (None, p1\<lparr>te_stage := HTTP1TEPARSER_TRAILER_NEWLINE\<rparr>)) (te_reset p)
          else if 8192 < bufferdata_writed (te_buf p) then Some (Some HTTP1TEPARSER_ERROR, p)
          else map_option (Pair None) (te_push e p ch)
      | HTTP1TEPARSER_TRAILER_NEWLINE \<Rightarrow>
          if ch = LF then Some (None, p\<lparr>te_stage := HTTP1TEPARSER_TRAILER\<rparr>)
          else Some (Some HTTP1TEPARSER_ERROR, p)
      | HTTP1TEPARSER_TRAILER_FINAL_NEWLINE \<Rightarrow>
          Some (Some (if ch = LF then HTTP1TEPARSER_COMPLETE else HTTP1TEPARSER_ERROR), p))"

partial_function (option) te_loop ::
    "'z te_env \<Rightarrow> 'z httpteparser \<Rightarrow> (httpte_status \<times> 'z httpteparser) option" where
  "te_loop e p =
     (if te_pos p < bytes_readed p then do {
        ch \<leftarrow> peek (te_buffer p) (te_pos p) 1;
        (r, p1) \<leftarrow> te_step e p (hd ch);
        (case r of Some st \<Rightarrow> Some (st, p1) | None \<Rightarrow> te_loop e (p1\<lparr>te_pos := te_pos p1 + 1\<rparr>))
      }
      else Some (HTTP1TEPARSER_CONTINUE, p))"

definition httpteparser_init :: "'z \<Rightarrow> 'z httpteparser \<Rightarrow> 'z httpteparser option" where
  "httpteparser_init zero p = do {
     b \<leftarrow> bufferdata_init (te_buf p);
     Some (p\<lparr>te_stage := HTTP1TEPARSER_CHUNKSIZE, bytes_readed := 0, te_pos := 0, chunk_size := 0,
             chunk_size_readed := 0, te_buffer := [], te_buf := b, te_gzip := gzip_init zero (te_gzip p)\<rparr>)
   }"

definition httpteparser_set_buffer :: "'z httpteparser \<Rightarrow> char list \<Rightarrow> 'z httpteparser" where
  "httpteparser_set_buffer p data = p\<lparr>te_buffer := data, bytes_readed := length data\<rparr>"

definition httpteparser_run :: "'z te_env \<Rightarrow> 'z httpteparser \<Rightarrow> (httpte_status \<times> 'z httpteparser) option" where
  "httpteparser_run e p = te_loop e (p\<lparr>te_pos := 0\<rparr>)"

text \<open>\<open>__transfer_decoding\<close> for one read after the other, while the decoder asks for more.\<close>

fun te_feed ::
    "'z te_env \<Rightarrow> char list list \<Rightarrow> 'z httpteparser \<Rightarrow> (httpte_status \<times> 'z httpteparser) option" where
  "te_feed e [] p = Some (HTTP1TEPARSER_CONTINUE, p)"
| "te_feed e (data # reads) p = do {
     (st, p1) \<leftarrow> httpteparser_run e (httpteparser_set_buffer p data);
     (if st = HTTP1TEPARSER_CONTINUE then te_feed e reads p1 else Some (st, p1))
   }"


section \<open>Memory safety\<close>

definition early :: "httpte_stage \<Rightarrow> bool" where
  "early s \<longleftrightarrow> s \<in> {HTTP1TEPARSER_CHUNKSIZE, HTTP1TEPARSER_CHUNKSIZE_NEWLINE, HTTP1TEPARSER_CHUNKSIZE_EXT,
      HTTP1TEPARSER_CHUNK, HTTP1TEPARSER_CHUNK_NEWLINE}"

text \<open>Up to the trailer the collecting buffer is short; in the trailer it may have moved to the heap.\<close>

definition te_buf_ok :: "'z httpteparser \<Rightarrow> bool" where
  "te_buf_ok p \<longleftrightarrow>
     (if early (te_stage p)
      then \<exists>xs. holds_static (te_buf p) xs \<and> length xs \<le> 9 \<and> (te_stage p \<noteq> HTTP1TEPARSER_CHUNKSIZE \<longrightarrow> xs = [])
      else bufferdata_inv (te_buf p))"

definition te_inv :: "'z httpteparser \<Rightarrow> bool" where
  "te_inv p \<longleftrightarrow> te_buf_ok p \<and> chunk_size_readed p \<le> chunk_size p \<and> int (chunk_size p) \<le> INT_MAX \<and>
     length (te_buffer p) = bytes_readed p \<and> bytes_readed p < 2 ^ 63"

definition te_same :: "'z httpteparser \<Rightarrow> 'z httpteparser \<Rightarrow> bool" where
  "te_same p q \<longleftrightarrow> te_buffer q = te_buffer p \<and> bytes_readed q = bytes_readed p"

lemma hex_or: "0 \<le> ret \<Longrightarrow> 0 \<le> t \<Longrightarrow> t < 16 \<Longrightarrow> (push_bit 4 ret) OR t = ret * 16 + t" for ret t :: int
proof -
  assume a: "0 \<le> ret" "0 \<le> t" "t < 16"
  have "take_bit 4 t = t"
    using a by (simp add: take_bit_int_eq_self)
  then have "(push_bit 4 ret) AND t = 0"
    by (metis (no_types, lifting) and.commute bit_eq_iff bit_0_eq bit_and_iff bit_push_bit_iff bit_take_bit_iff bot_apply bot_bool_def linorder_not_less)
  then show ?thesis
    using disjunctive_add_eq_or [of "push_bit 4 ret" t] by (simp add: push_bit_eq_mult)
qed

lemma hextable_range: "hextable c = -1 \<or> 0 \<le> hextable c \<and> hextable c < 16"
  by (auto simp: hextable_def Let_def)

lemma hex_to_dec_step:
  "0 \<le> ret \<Longrightarrow> hex_to_dec ret (c # cs) =
     (if hextable c = -1 then -1 else if INT_MAX < ret * 16 + hextable c then -1
      else hex_to_dec (ret * 16 + hextable c) cs)"
proof -
  assume "0 \<le> ret"
  moreover have "hex_to_dec (-1) cs = -1"
    by (cases cs) simp_all
  ultimately show ?thesis
    using hextable_range [of c] hex_or [of ret "hextable c"] by (auto simp: INT_MAX_def)
qed

lemma hex_to_dec_range:
  "0 \<le> ret \<Longrightarrow> ret \<le> INT_MAX \<Longrightarrow> hex_to_dec ret cs = -1 \<or> 0 \<le> hex_to_dec ret cs \<and> hex_to_dec ret cs \<le> INT_MAX"
proof (induction cs arbitrary: ret)
  case (Cons c cs)
  show ?case
  proof (cases "hextable c = -1 \<or> INT_MAX < ret * 16 + hextable c")
    case True
    then show ?thesis
      by (simp only: hex_to_dec_step [OF Cons.prems(1)]) auto
  next
    case False
    then show ?thesis
      using hextable_range [of c] Cons.IH [of "ret * 16 + hextable c"] Cons.prems(1)
      by (simp only: hex_to_dec_step) simp
  qed
qed simp


lemma set_chunk_size_spec:
  assumes "holds_static (te_buf p) xs"
  shows "set_chunk_size e p =
    Some (if hex_to_dec 0 xs = -1 then (False, p)
          else (True, p\<lparr>chunk_size := nat (hex_to_dec 0 xs), chunk_size_readed := 0\<rparr>))"
proof -
  have "take (length xs) (static_buffer (te_buf p)) = xs" "length xs \<le> length (static_buffer (te_buf p))"
    using holds_static_get(2) [OF assms] by (simp_all add: holds_cstring_def)
  then show ?thesis
    using holds_static_get(1) [OF assms] holds_static_writed [OF assms]
    by (simp add: set_chunk_size_def peek_def Let_def)
qed

lemma te_size_line_spec:
  assumes "holds_static (te_buf p) xs" and "bufferdata_reset (te_buf p) = Some b"
  shows "te_size_line e p =
    Some (if hex_to_dec 0 xs = -1 then (Some HTTP1TEPARSER_ERROR, p)
          else (None, p\<lparr>chunk_size := nat (hex_to_dec 0 xs), chunk_size_readed := 0, te_buf := b\<rparr>))"
proof -
  have "te_complete e p = Some p"
    by (simp add: te_complete_def holds_static_complete [OF assms(1)])
  then show ?thesis
    using set_chunk_size_spec [OF assms(1), of e] assms(2) by (auto simp: te_size_line_def te_reset_def)
qed

lemma inflate_append_returns:
  assumes "zlib_ok (te_zlib e)"
  shows "inflate_append e g content \<noteq> None"
proof -
  obtain rank where rank: "\<And>z inp n st used out z'. inflate (te_zlib e) z inp n = (st, used, out, z') \<Longrightarrow> length out = n \<Longrightarrow>
    0 < n \<Longrightarrow> (rank z' (drop used inp) :: nat) < rank z inp"
    by (rule inflate_rank [OF assms]) blast
  note bound = inflate_bound [OF assms]
  show ?thesis
  proof (induction "rank (zstream g) (next_in g)" arbitrary: g content rule: less_induct)
    case less
    obtain st used out z where i: "inflate (te_zlib e) (zstream g) (next_in g) GZIP_BUFFER = (st, used, out, z)"
      by (metis prod_cases4)
    define g1 where "g1 = g\<lparr>status_code := st, zstream := z, next_in := drop used (next_in g),
        avail_out := GZIP_BUFFER - length out\<rparr>"
    have gi: "gzip_inflate (te_zlib e) g GZIP_BUFFER = (out, g1)"
      using i by (simp add: gzip_inflate_def g1_def)
    have "inflate_append e g1 (content @ out) \<noteq> None" if "gzip_want_continue g1"
    proof (rule less)
      have "length out = GZIP_BUFFER"
        using that bound [OF i] by (simp add: gzip_want_continue_def g1_def)
      then show "rank (zstream g1) (next_in g1) < rank (zstream g) (next_in g)"
        using rank [OF i] by (simp add: g1_def GZIP_BUFFER_def)
    qed
    then show ?case
      using gi by (subst inflate_append.simps) (auto simp del: not_None_eq)
  qed
qed

text \<open>Reading a part of a chunk.\<close>

lemma read_chunk_spec:
  assumes env: "zlib_ok (te_zlib e)" and inv: "te_inv p" and pos: "te_pos p < bytes_readed p"
  shows "\<exists>ok g content. read_chunk e p =
    (let k = min (chunk_size p - chunk_size_readed p) (bytes_readed p - te_pos p) in
     Some (if ok then (True, p\<lparr>te_gzip := g, payload := content, chunk_size_readed := chunk_size_readed p + k, te_pos := te_pos p + k\<rparr>)
           else (False, p\<lparr>te_gzip := g, payload := content\<rparr>))) \<and>
     (\<not> is_gzip e \<longrightarrow> (let k = min (chunk_size p - chunk_size_readed p) (bytes_readed p - te_pos p);
         data = take k (drop (te_pos p) (te_buffer p)) in
       ok = (k = 0 \<or> append_content e (payload p) data) \<and> g = te_gzip p \<and>
       content = (if ok then payload p @ data else payload p)))"
proof -
  define k where "k = min (chunk_size p - chunk_size_readed p) (bytes_readed p - te_pos p)"
  define data where "data = take k (drop (te_pos p) (te_buffer p))"
  have sub: "szsub (chunk_size p) (chunk_size_readed p) = chunk_size p - chunk_size_readed p"
    "szsub (bytes_readed p) (te_pos p) = bytes_readed p - te_pos p"
    using inv pos by (auto simp: te_inv_def INT_MAX_def size_modulus_def intro!: szsub_exact)
  have temp: "(if bytes_readed p - te_pos p < chunk_size p - chunk_size_readed p then bytes_readed p - te_pos p
      else chunk_size p - chunk_size_readed p) = k"
    by (simp add: k_def)
  have pk: "peek (te_buffer p) (te_pos p) k = Some data"
    using inv pos by (simp add: peek_def te_inv_def k_def data_def)
  have same: "p\<lparr>te_gzip := te_gzip p, payload := payload p, chunk_size_readed := chunk_size_readed p + 0, te_pos := te_pos p + 0\<rparr> = p"
    by simp
  show ?thesis
  proof (cases "k = 0")
    case True
    then have "read_chunk e p = Some (True, p)"
      using temp unfolding read_chunk_def sub Let_def by simp
    then show ?thesis
      unfolding k_def [symmetric] Let_def
      by (intro exI [of _ True] exI [of _ "te_gzip p"] exI [of _ "payload p"]) (simp add: True)
  next
    case k: False
    show ?thesis
    proof (cases "is_gzip e")
      case False
      then have "read_chunk e p = Some (if append_content e (payload p) data
          then (True, p\<lparr>payload := payload p @ data, chunk_size_readed := chunk_size_readed p + k, te_pos := te_pos p + k\<rparr>)
          else (False, p))"
        using k temp pk unfolding read_chunk_def sub Let_def by simp
      then show ?thesis
        unfolding k_def [symmetric] Let_def data_def [symmetric]
        by (intro exI [of _ "append_content e (payload p) data"] exI [of _ "te_gzip p"]
            exI [of _ "if append_content e (payload p) data then payload p @ data else payload p"]) (simp add: k)
    next
      case True
      obtain ok g where gi: "gzip_inflate_init (te_zlib e) (te_gzip p) data = (ok, g)"
        by (cases "gzip_inflate_init (te_zlib e) (te_gzip p) data")
      obtain ok1 g1 content where ia: "inflate_append e g (payload p) = Some (ok1, g1, content)"
        using inflate_append_returns [OF env, of g "payload p"] by auto
      obtain ok2 g2 where gf: "gzip_inflate_free (te_zlib e) g1 = (ok2, g2)"
        by (cases "gzip_inflate_free (te_zlib e) g1")
      define r where "r = (if \<not> ok then (False, g, payload p) else if \<not> ok1 then (False, g1, content)
          else if gzip_is_end g1 then (ok2, g2, content) else (True, g1, content))"
      obtain okr gr cr where rr: "r = (okr, gr, cr)"
        by (cases r)
      have "read_chunk e p = Some (if okr
          then (True, p\<lparr>te_gzip := gr, payload := cr, chunk_size_readed := chunk_size_readed p + k, te_pos := te_pos p + k\<rparr>)
          else (False, p\<lparr>te_gzip := gr, payload := cr\<rparr>))"
        using k temp pk True gi ia gf rr unfolding read_chunk_def sub Let_def r_def
        by (simp split: if_splits)
      then show ?thesis
        unfolding k_def [symmetric] Let_def using True by blast
    qed
  qed
qed


text \<open>What a step keeps. Without compression, the payload grows by no more than what was read.\<close>

definition te_moves :: "'z te_env \<Rightarrow> 'z httpteparser \<Rightarrow> httpte_status option \<Rightarrow> 'z httpteparser \<Rightarrow> bool" where
  "te_moves e p r q \<longleftrightarrow> te_same p q \<and> te_pos p \<le> te_pos q \<and> te_pos q \<le> bytes_readed p \<and>
     r \<noteq> Some HTTP1TEPARSER_CONTINUE \<and> (r = None \<longrightarrow> te_inv q) \<and>
     (\<not> is_gzip e \<longrightarrow> length (payload q) + te_pos p \<le> length (payload p) + te_pos q)"

lemma te_inv_simps [simp]: "te_inv (p\<lparr>te_pos := i\<rparr>) = te_inv p"
  by (simp add: te_inv_def te_buf_ok_def)

lemma hex_size: "hex_to_dec 0 xs \<noteq> -1 \<Longrightarrow> int (nat (hex_to_dec 0 xs)) \<le> INT_MAX"
  using hex_to_dec_range [of 0 xs] by (auto simp: INT_MAX_def)

lemma te_push_static:
  assumes "holds_static (te_buf p) xs" and "length xs \<le> 9"
  shows "\<exists>b. te_push e p ch = Some (p\<lparr>te_buf := b\<rparr>) \<and> holds_static b (xs @ [ch])"
proof -
  have "length xs < BUFFERDATA_CAPACITY"
    using assms(2) by (simp add: BUFFERDATA_CAPACITY_def BUFFERDATA_SIZE_def)
  from holds_static_push [OF assms(1) this, of "te_alloc e" ch] show ?thesis
    by (auto simp: te_push_def)
qed

lemma te_step_safe:
  assumes env: "zlib_ok (te_zlib e)" and inv: "te_inv p" and pos: "te_pos p < bytes_readed p"
  shows "returns (te_step e p ch) (\<lambda>(r, q). te_moves e p r q)"
proof (cases "te_stage p")
  case HTTP1TEPARSER_CHUNKSIZE
  then obtain xs where xs: "holds_static (te_buf p) xs" "length xs \<le> 9"
    using inv by (auto simp: te_inv_def te_buf_ok_def early_def)
  obtain b where b: "bufferdata_reset (te_buf p) = Some b" "holds_static b []"
    using holds_static_reset(1) [OF xs(1)] by blast
  obtain b1 where b1: "te_push e p ch = Some (p\<lparr>te_buf := b1\<rparr>)" "holds_static b1 (xs @ [ch])"
    using te_push_static [OF xs] by blast
  have line: "te_size_line e (p\<lparr>te_stage := s\<rparr>) =
      Some (if hex_to_dec 0 xs = -1 then (Some HTTP1TEPARSER_ERROR, p\<lparr>te_stage := s\<rparr>)
            else (None, p\<lparr>te_stage := s, chunk_size := nat (hex_to_dec 0 xs), chunk_size_readed := 0, te_buf := b\<rparr>))" for s
    using te_size_line_spec [of "p\<lparr>te_stage := s\<rparr>" xs b e] xs(1) b(1) by simp
  have sized: "te_moves e p None (p\<lparr>te_stage := s, chunk_size := nat (hex_to_dec 0 xs), chunk_size_readed := 0, te_buf := b\<rparr>)"
    "te_moves e p None (p\<lparr>chunk_size := nat (hex_to_dec 0 xs), chunk_size_readed := 0, te_buf := b, te_stage := s\<rparr>)"
    if "hex_to_dec 0 xs \<noteq> -1" "early s" for s
    using that inv b(2) hex_size [of xs] pos
    by (auto simp: te_moves_def te_inv_def te_same_def te_buf_ok_def intro!: exI [of _ "[]"])
  have bad: "te_moves e p (Some HTTP1TEPARSER_ERROR) (p\<lparr>te_stage := s\<rparr>)" for s
    using pos by (simp add: te_moves_def te_same_def)
  have same: "p\<lparr>te_stage := HTTP1TEPARSER_CHUNKSIZE\<rparr> = p"
    using HTTP1TEPARSER_CHUNKSIZE by simp
  have writed: "bufferdata_writed (te_buf p) = length xs"
    by (rule holds_static_writed [OF xs(1)])
  consider "ch = CR" | "ch = CHR '';''" | "ch \<noteq> CR" "ch \<noteq> CHR '';''"
    by blast
  then show ?thesis
  proof cases
    case 1
    show ?thesis
    proof (cases "8 < length xs")
      case True
      then show ?thesis
        using 1 HTTP1TEPARSER_CHUNKSIZE writed pos by (simp add: te_step_def te_moves_def te_same_def)
    next
      case False
      then have "te_step e p ch = te_size_line e (p\<lparr>te_stage := HTTP1TEPARSER_CHUNKSIZE_NEWLINE\<rparr>)"
        using 1 HTTP1TEPARSER_CHUNKSIZE writed by (simp add: te_step_def)
      then show ?thesis
        using line [of HTTP1TEPARSER_CHUNKSIZE_NEWLINE] sized [of HTTP1TEPARSER_CHUNKSIZE_NEWLINE]
          bad [of HTTP1TEPARSER_CHUNKSIZE_NEWLINE] by (simp add: early_def)
    qed
  next
    case 2
    then have "te_step e p ch = map_option (\<lambda>(r, p1). (r, if r = None then p1\<lparr>te_stage := HTTP1TEPARSER_CHUNKSIZE_EXT\<rparr> else p1))
              (te_size_line e p)"
      using HTTP1TEPARSER_CHUNKSIZE by (simp add: te_step_def)
    then show ?thesis
      using line [of HTTP1TEPARSER_CHUNKSIZE, unfolded same] sized [of HTTP1TEPARSER_CHUNKSIZE_EXT]
        bad [of HTTP1TEPARSER_CHUNKSIZE, unfolded same] by (simp add: early_def)
  next
    case 3
    then show ?thesis
      using HTTP1TEPARSER_CHUNKSIZE inv b1 writed xs(2) pos
      by (auto simp: te_step_def te_moves_def te_same_def te_inv_def te_buf_ok_def early_def)
  qed
next
  case HTTP1TEPARSER_CHUNK
  define k where "k = min (chunk_size p - chunk_size_readed p) (bytes_readed p - te_pos p)"
  obtain ok g content where rc: "read_chunk e p =
     Some (if ok then (True, p\<lparr>te_gzip := g, payload := content, chunk_size_readed := chunk_size_readed p + k, te_pos := te_pos p + k\<rparr>)
           else (False, p\<lparr>te_gzip := g, payload := content\<rparr>))"
     and plain: "\<not> is_gzip e \<longrightarrow> content = (if ok then payload p @ take k (drop (te_pos p) (te_buffer p)) else payload p)"
    using read_chunk_spec [OF env inv pos] unfolding k_def [symmetric] Let_def by blast
  define q where "q = p\<lparr>te_gzip := g, payload := content, chunk_size_readed := chunk_size_readed p + k, te_pos := te_pos p + k\<rparr>"
  have k: "chunk_size_readed p + k \<le> chunk_size p" "te_pos p + k \<le> bytes_readed p"
    using inv pos by (auto simp: k_def te_inv_def)
  have q: "te_moves e p None q" "te_moves e p None (q\<lparr>te_stage := HTTP1TEPARSER_CHUNK_NEWLINE\<rparr>)" if ok
    using that inv k plain HTTP1TEPARSER_CHUNK
    by (auto simp: q_def te_moves_def te_inv_def te_same_def te_buf_ok_def early_def)
  have bad: "te_moves e p (Some HTTP1TEPARSER_ERROR) (p\<lparr>te_gzip := g, payload := content\<rparr>)" if "\<not> ok"
    using that plain pos by (auto simp: te_moves_def te_same_def)
  have pk: "te_pos q < bytes_readed q \<Longrightarrow> peek (te_buffer q) (te_pos q) 1 = Some (take 1 (drop (te_pos q) (te_buffer q)))"
    using inv by (auto simp: q_def peek_def te_inv_def)
  show ?thesis
    using rc q bad pk HTTP1TEPARSER_CHUNK unfolding q_def [symmetric] by (auto simp: te_step_def)
next
  case HTTP1TEPARSER_TRAILER
  then have bi: "bufferdata_inv (te_buf p)"
    using inv by (simp add: te_inv_def te_buf_ok_def early_def)
  obtain b where b: "bufferdata_reset (te_buf p) = Some b" "bufferdata_inv b"
    using bufferdata_reset_spec [of "te_buf p"] bi by (auto simp: bufferdata_inv_def elim!: returnsE)
  obtain r b1 where b1: "bufferdata_push (te_alloc e) (te_buf p) ch = Some (r, b1)" "bufferdata_inv b1"
    using bd.put_spec [OF bi, of "te_alloc e" ch] by (auto elim!: returnsE)
  show ?thesis
    using HTTP1TEPARSER_TRAILER b b1 inv pos
    by (auto simp: te_step_def te_moves_def te_inv_def te_buf_ok_def early_def te_same_def te_reset_def te_push_def)
qed (use inv pos in \<open>auto simp: te_step_def te_moves_def te_inv_def te_buf_ok_def early_def te_same_def holds_static_def split: if_splits\<close>)

lemma te_loop_safe:
  assumes env: "zlib_ok (te_zlib e)"
  shows "te_inv p \<Longrightarrow> returns (te_loop e p) (\<lambda>(st, q). (st = HTTP1TEPARSER_CONTINUE \<longrightarrow> te_inv q) \<and> te_same p q \<and>
     (\<not> is_gzip e \<longrightarrow> length (payload q) \<le> length (payload p) + (bytes_readed p - te_pos p)))"
proof (induction "bytes_readed p - te_pos p" arbitrary: p rule: less_induct)
  case less
  show ?case
  proof (cases "te_pos p < bytes_readed p")
    case False
    then show ?thesis
      using less.prems by (subst te_loop.simps) (simp add: te_same_def)
  next
    case True
    then have pk: "peek (te_buffer p) (te_pos p) 1 = Some (take 1 (drop (te_pos p) (te_buffer p)))"
      using less.prems by (simp add: peek_def te_inv_def)
    define ch where "ch = hd (take 1 (drop (te_pos p) (te_buffer p)))"
    obtain r q where st: "te_step e p ch = Some (r, q)" "te_moves e p r q"
      using te_step_safe [OF env less.prems True, of ch] by (auto elim!: returnsE)
    have pl: "\<not> is_gzip e \<longrightarrow> length (payload q) \<le> length (payload p) + (bytes_readed p - te_pos p) \<and>
        length (payload q) + (bytes_readed p - Suc (te_pos q)) \<le> length (payload p) + (bytes_readed p - te_pos p)"
      using st(2) by (auto simp: te_moves_def)
    show ?thesis
    proof (cases r)
      case None
      define q1 where "q1 = q\<lparr>te_pos := te_pos q + 1\<rparr>"
      have "returns (te_loop e q1) (\<lambda>(st, q). (st = HTTP1TEPARSER_CONTINUE \<longrightarrow> te_inv q) \<and> te_same q1 q \<and>
          (\<not> is_gzip e \<longrightarrow> length (payload q) \<le> length (payload q1) + (bytes_readed q1 - te_pos q1)))"
        using st(2) True None by (intro less.hyps) (auto simp: q1_def te_moves_def te_same_def)
      then have "returns (te_loop e q1) (\<lambda>(st, q'). (st = HTTP1TEPARSER_CONTINUE \<longrightarrow> te_inv q') \<and> te_same p q' \<and>
          (\<not> is_gzip e \<longrightarrow> length (payload q') \<le> length (payload p) + (bytes_readed p - te_pos p)))"
        using pl st(2) by (elim returns_mono) (auto simp: q1_def te_same_def te_moves_def)
      then show ?thesis
        using True pk st(1) None by (subst te_loop.simps) (simp add: ch_def q1_def)
    next
      case (Some status)
      then show ?thesis
        using True pk st pl by (subst te_loop.simps) (auto simp: ch_def te_moves_def)
    qed
  qed
qed


section \<open>The decoder as an automaton over bytes\<close>

text \<open>The reference: one byte at a time, with the collected bytes, the size of the chunk and the number
  of its bytes read so far, and the payload.\<close>

datatype te_abs = Run httpte_stage "char list" nat nat "char list" | Stop httpte_status "char list"

definition te_sized :: "httpte_stage \<Rightarrow> char list \<Rightarrow> char list \<Rightarrow> te_abs" where
  "te_sized s xs pl = (if hex_to_dec 0 xs = -1 then Stop HTTP1TEPARSER_ERROR pl else Run s [] (nat (hex_to_dec 0 xs)) 0 pl)"

fun te_byte :: "te_abs \<Rightarrow> char \<Rightarrow> te_abs" where
  "te_byte (Stop st pl) ch = Stop st pl"
| "te_byte (Run HTTP1TEPARSER_CHUNKSIZE xs n k pl) ch =
     (if ch = CR then if 8 < length xs then Stop HTTP1TEPARSER_ERROR pl else te_sized HTTP1TEPARSER_CHUNKSIZE_NEWLINE xs pl
      else if ch = CHR '';'' then te_sized HTTP1TEPARSER_CHUNKSIZE_EXT xs pl
      else if 8 < length xs then Stop HTTP1TEPARSER_ERROR pl
      else Run HTTP1TEPARSER_CHUNKSIZE (xs @ [ch]) n k pl)"
| "te_byte (Run HTTP1TEPARSER_CHUNKSIZE_NEWLINE xs n k pl) ch =
     (if ch = LF then Run (if n = 0 then HTTP1TEPARSER_TRAILER else HTTP1TEPARSER_CHUNK) xs n k pl
      else Stop HTTP1TEPARSER_ERROR pl)"
| "te_byte (Run HTTP1TEPARSER_CHUNKSIZE_EXT xs n k pl) ch =
     Run (if ch = CR then HTTP1TEPARSER_CHUNKSIZE_NEWLINE else HTTP1TEPARSER_CHUNKSIZE_EXT) xs n k pl"
| "te_byte (Run HTTP1TEPARSER_CHUNK xs n k pl) ch =
     (if k < n then Run HTTP1TEPARSER_CHUNK xs n (k + 1) (pl @ [ch])
      else Run (if ch = CR then HTTP1TEPARSER_CHUNK_NEWLINE else HTTP1TEPARSER_CHUNK) xs n k pl)"
| "te_byte (Run HTTP1TEPARSER_CHUNK_NEWLINE xs n k pl) ch =
     (if ch = LF then Run HTTP1TEPARSER_CHUNKSIZE xs n k pl else Stop HTTP1TEPARSER_ERROR pl)"
| "te_byte (Run HTTP1TEPARSER_TRAILER xs n k pl) ch =
     (if ch = CR then
        if xs = [] then Run HTTP1TEPARSER_TRAILER_FINAL_NEWLINE xs n k pl
        else Run HTTP1TEPARSER_TRAILER_NEWLINE [] n k pl
      else if 8192 < length xs then Stop HTTP1TEPARSER_ERROR pl
      else Run HTTP1TEPARSER_TRAILER (xs @ [ch]) n k pl)"
| "te_byte (Run HTTP1TEPARSER_TRAILER_NEWLINE xs n k pl) ch =
     (if ch = LF then Run HTTP1TEPARSER_TRAILER xs n k pl else Stop HTTP1TEPARSER_ERROR pl)"
| "te_byte (Run HTTP1TEPARSER_TRAILER_FINAL_NEWLINE xs n k pl) ch =
     Stop (if ch = LF then HTTP1TEPARSER_COMPLETE else HTTP1TEPARSER_ERROR) pl"

definition te_abs :: "'z httpteparser \<Rightarrow> te_abs" where
  "te_abs p = Run (te_stage p) (bufferdata_content (te_buf p)) (chunk_size p) (chunk_size_readed p) (payload p)"

lemma te_byte_stopped [simp]: "foldl te_byte (Stop st pl) cs = Stop st pl"
  by (induction cs) simp_all

lemma te_byte_chunk:
  "k + length cs \<le> n \<Longrightarrow> foldl te_byte (Run HTTP1TEPARSER_CHUNK xs n k pl) cs = Run HTTP1TEPARSER_CHUNK xs n (k + length cs) (pl @ cs)"
  by (induction cs arbitrary: k pl) simp_all

text \<open>An environment without compression in which nothing fails.\<close>

definition te_env_good :: "'z te_env \<Rightarrow> bool" where
  "te_env_good e \<longleftrightarrow> zlib_ok (te_zlib e) \<and> \<not> is_gzip e \<and> never_fails (te_alloc e) \<and> (\<forall>c d. append_content e c d)"

definition te_refines :: "char list \<Rightarrow> te_abs \<Rightarrow> httpte_status option \<Rightarrow> 'z httpteparser \<Rightarrow> bool" where
  "te_refines bytes a r q \<longleftrightarrow>
     foldl te_byte a bytes =
     (case r of Some st \<Rightarrow> Stop st (payload q) | None \<Rightarrow> foldl te_byte (te_abs q) (drop (te_pos q + 1) (te_buffer q)))"

lemma te_one_byte:
  assumes "te_pos p < length (te_buffer p)" and "te_buffer q = te_buffer p" and "te_pos q = te_pos p"
    and "te_byte (te_abs p) (te_buffer p ! te_pos p) = (case r of Some st \<Rightarrow> Stop st (payload q) | None \<Rightarrow> te_abs q)"
  shows "te_refines (drop (te_pos p) (te_buffer p)) (te_abs p) r q"
  using assms Cons_nth_drop_Suc [OF assms(1), symmetric]
  by (cases r) (simp_all add: te_refines_def)

lemma te_step_refines:
  assumes env: "te_env_good e" and inv: "te_inv p" and pos: "te_pos p < bytes_readed p"
    and step: "te_step e p (te_buffer p ! te_pos p) = Some (r, q)"
  shows "te_refines (drop (te_pos p) (te_buffer p)) (te_abs p) r q"
proof -
  have ok: "zlib_ok (te_zlib e)"
    using env by (simp add: te_env_good_def)
  define ch where "ch = te_buffer p ! te_pos p"
  have lt: "te_pos p < length (te_buffer p)"
    using inv pos by (simp add: te_inv_def)
  note one = te_one_byte [OF lt]
  have writed: "bufferdata_writed (te_buf p) = length (bufferdata_content (te_buf p))"
    using inv bufferdata_writed_content [of "te_buf p"]
    by (auto simp: te_inv_def te_buf_ok_def holds_static_def bufferdata_inv_def split: if_splits)
  show ?thesis
  proof (cases "te_stage p")
    case HTTP1TEPARSER_CHUNKSIZE
    then obtain xs where xs: "holds_static (te_buf p) xs" "length xs \<le> 9"
      using inv by (auto simp: te_inv_def te_buf_ok_def early_def)
    obtain b where b: "bufferdata_reset (te_buf p) = Some b" "holds_static b []"
      using holds_static_reset(1) [OF xs(1)] by blast
    obtain b1 where b1: "te_push e p ch = Some (p\<lparr>te_buf := b1\<rparr>)" "holds_static b1 (xs @ [ch])"
      using te_push_static [OF xs] by blast
    have line: "te_size_line e (p\<lparr>te_stage := s\<rparr>) =
        Some (if hex_to_dec 0 xs = -1 then (Some HTTP1TEPARSER_ERROR, p\<lparr>te_stage := s\<rparr>)
              else (None, p\<lparr>te_stage := s, chunk_size := nat (hex_to_dec 0 xs), chunk_size_readed := 0, te_buf := b\<rparr>))" for s
      using te_size_line_spec [of "p\<lparr>te_stage := s\<rparr>" xs b e] xs(1) b(1) by simp
    have same: "p\<lparr>te_stage := HTTP1TEPARSER_CHUNKSIZE\<rparr> = p"
      using HTTP1TEPARSER_CHUNKSIZE by simp
    have cont: "bufferdata_content (te_buf p) = xs" "bufferdata_content b = []" "bufferdata_content b1 = xs @ [ch]"
      using xs(1) b(2) b1(2) by (simp_all add: holds_static_def)
    show ?thesis
      by (rule one; use step line [of HTTP1TEPARSER_CHUNKSIZE_NEWLINE] line [of HTTP1TEPARSER_CHUNKSIZE, unfolded same]
          cont b1(1) writed HTTP1TEPARSER_CHUNKSIZE in
          \<open>auto simp: te_step_def ch_def [symmetric] te_abs_def te_sized_def split: if_splits\<close>)
  next
    case HTTP1TEPARSER_CHUNK
    define k where "k = min (chunk_size p - chunk_size_readed p) (bytes_readed p - te_pos p)"
    define data where "data = take k (drop (te_pos p) (te_buffer p))"
    define q0 where "q0 = p\<lparr>payload := payload p @ data, chunk_size_readed := chunk_size_readed p + k, te_pos := te_pos p + k\<rparr>"
    have len: "length (te_buffer p) = bytes_readed p" "chunk_size_readed p + k \<le> chunk_size p" "te_pos p + k \<le> bytes_readed p"
      using inv pos by (auto simp: te_inv_def k_def)
    have rc: "read_chunk e p = Some (True, q0)"
    proof -
      obtain ok g content where "read_chunk e p =
         Some (if ok then (True, p\<lparr>te_gzip := g, payload := content, chunk_size_readed := chunk_size_readed p + k, te_pos := te_pos p + k\<rparr>)
               else (False, p\<lparr>te_gzip := g, payload := content\<rparr>))"
        "\<not> is_gzip e \<longrightarrow> ok = (k = 0 \<or> append_content e (payload p) data) \<and> g = te_gzip p \<and>
           content = (if ok then payload p @ data else payload p)"
        using read_chunk_spec [OF ok inv pos] unfolding k_def [symmetric] Let_def data_def [symmetric] by blast
      then show ?thesis
        using env by (simp add: te_env_good_def q0_def)
    qed
    have q0: "te_stage q0 = HTTP1TEPARSER_CHUNK" "te_buffer q0 = te_buffer p" "te_pos q0 = te_pos p + k"
      "bytes_readed q0 = bytes_readed p" "chunk_size q0 = chunk_size p" "chunk_size_readed q0 = chunk_size_readed p + k"
      using HTTP1TEPARSER_CHUNK by (simp_all add: q0_def)
    have "length data = k"
      using len by (simp add: data_def)
    then have fold: "foldl te_byte (te_abs p) data = te_abs q0"
      using len(2) HTTP1TEPARSER_CHUNK by (simp add: te_abs_def te_byte_chunk q0_def)
    have split: "drop (te_pos p) (te_buffer p) = data @ drop (te_pos q0) (te_buffer q0)"
      using q0(2,3) by (simp add: data_def add.commute) (metis append_take_drop_id drop_drop)
    have all: "foldl te_byte (te_abs p) (drop (te_pos p) (te_buffer p)) = foldl te_byte (te_abs q0) (drop (te_pos q0) (te_buffer q0))"
      unfolding split by (simp add: fold)
    show ?thesis
    proof (cases "te_pos q0 < bytes_readed q0")
      case False
      then have "r = None" "q = q0"
        using step rc HTTP1TEPARSER_CHUNK by (auto simp: te_step_def)
      then show ?thesis
        using all False q0 len(1) by (simp add: te_refines_def)
    next
      case True
      then have k0: "\<not> chunk_size_readed q0 < chunk_size q0"
        using q0 len by (auto simp: k_def)
      have lt0: "te_pos q0 < length (te_buffer q0)"
        using True q0(2,4) len(1) by simp
      then have "peek (te_buffer q0) (te_pos q0) 1 = Some [te_buffer q0 ! te_pos q0]"
        by (simp add: peek_def take_Suc_conv_app_nth)
      then have r: "r = None" "q = (if te_buffer q0 ! te_pos q0 = CR then q0\<lparr>te_stage := HTTP1TEPARSER_CHUNK_NEWLINE\<rparr> else q0)"
        using step rc HTTP1TEPARSER_CHUNK True k0 by (auto simp: te_step_def split: if_splits)
      have "te_refines (drop (te_pos q0) (te_buffer q0)) (te_abs q0) r q"
        by (rule te_one_byte [OF lt0]) (use r k0 q0(1) in \<open>auto simp: te_abs_def\<close>)
      then show ?thesis
        using all by (simp add: te_refines_def)
    qed
  next
    case HTTP1TEPARSER_TRAILER
    then have bi: "bufferdata_inv (te_buf p)"
      using inv by (simp add: te_inv_def te_buf_ok_def early_def)
    obtain b where b: "bufferdata_reset (te_buf p) = Some b" "bufferdata_content b = []"
      using bufferdata_reset_spec [of "te_buf p"] bi by (auto simp: bufferdata_inv_def elim!: returnsE)
    obtain b1 where b1: "bufferdata_push (te_alloc e) (te_buf p) ch = Some (True, b1)"
      "bufferdata_content b1 = bufferdata_content (te_buf p) @ [ch]"
      using bufferdata_push_spec [of "te_buf p" "te_alloc e" ch] bi env
      by (auto simp: bufferdata_inv_def te_env_good_def elim!: returnsE)
    show ?thesis
      by (rule one; use step b b1 writed HTTP1TEPARSER_TRAILER in
          \<open>auto simp: te_step_def ch_def [symmetric] te_abs_def te_reset_def te_push_def split: if_splits\<close>)
  qed (rule one; use step in \<open>auto simp: te_step_def te_abs_def split: if_splits\<close>)+
qed


text \<open>How a run ends, against the automaton.\<close>

definition te_outcome :: "te_abs \<Rightarrow> httpte_status \<Rightarrow> 'z httpteparser \<Rightarrow> bool" where
  "te_outcome a st q \<longleftrightarrow>
     (if st = HTTP1TEPARSER_CONTINUE then a = te_abs q \<and> te_inv q else a = Stop st (payload q))"

lemma te_loop_refines:
  assumes env: "te_env_good e"
  shows "te_inv p \<Longrightarrow> returns (te_loop e p) (\<lambda>(st, q).
    te_outcome (foldl te_byte (te_abs p) (drop (te_pos p) (te_buffer p))) st q)"
proof (induction "bytes_readed p - te_pos p" arbitrary: p rule: less_induct)
  case less
  have ok: "zlib_ok (te_zlib e)"
    using env by (simp add: te_env_good_def)
  have len: "length (te_buffer p) = bytes_readed p"
    using less.prems by (simp add: te_inv_def)
  show ?case
  proof (cases "te_pos p < bytes_readed p")
    case False
    then show ?thesis
      using less.prems len by (subst te_loop.simps) (simp add: te_outcome_def)
  next
    case True
    then have pk: "peek (te_buffer p) (te_pos p) 1 = Some [te_buffer p ! te_pos p]"
      using len by (simp add: peek_def take_Suc_conv_app_nth)
    obtain r q where st: "te_step e p (te_buffer p ! te_pos p) = Some (r, q)" "te_moves e p r q"
      using te_step_safe [OF ok less.prems True, of "te_buffer p ! te_pos p"] by (auto elim!: returnsE)
    note ref = te_step_refines [OF env less.prems True st(1)]
    show ?thesis
    proof (cases r)
      case None
      define q1 where "q1 = q\<lparr>te_pos := te_pos q + 1\<rparr>"
      have q1: "te_inv q1" "bytes_readed q1 - te_pos q1 < bytes_readed p - te_pos p" "te_abs q1 = te_abs q"
        using st(2) None True by (auto simp: q1_def te_moves_def te_same_def te_abs_def)
      have "foldl te_byte (te_abs q1) (drop (te_pos q1) (te_buffer q1)) = foldl te_byte (te_abs p) (drop (te_pos p) (te_buffer p))"
        using ref None q1(3) by (simp add: te_refines_def q1_def)
      then show ?thesis
        using less.hyps [OF q1(2,1)] True pk st(1) None by (subst te_loop.simps) (simp add: q1_def)
    next
      case (Some status)
      then show ?thesis
        using True pk st ref by (subst te_loop.simps) (auto simp: te_refines_def te_moves_def te_outcome_def)
    qed
  qed
qed

lemma te_feed_refines:
  assumes env: "te_env_good e"
  shows "te_inv p \<Longrightarrow> list_all (\<lambda>d. length d < 2 ^ 63) reads \<Longrightarrow>
    returns (te_feed e reads p) (\<lambda>(st, q). te_outcome (foldl te_byte (te_abs p) (concat reads)) st q)"
proof (induction reads arbitrary: p)
  case Nil
  then show ?case
    by (simp add: te_outcome_def)
next
  case (Cons d reads)
  define p1 where "p1 = (httpteparser_set_buffer p d)\<lparr>te_pos := 0\<rparr>"
  have p1: "te_inv p1" "te_abs p1 = te_abs p" "drop (te_pos p1) (te_buffer p1) = d"
    using Cons.prems by (auto simp: p1_def httpteparser_set_buffer_def te_inv_def te_buf_ok_def te_abs_def)
  obtain st q where q: "te_loop e p1 = Some (st, q)" "te_outcome (foldl te_byte (te_abs p) d) st q"
    using te_loop_refines [OF env p1(1)] p1(2,3) by (auto elim!: returnsE)
  show ?case
  proof (cases "st = HTTP1TEPARSER_CONTINUE")
    case True
    then show ?thesis
      using Cons q by (simp add: httpteparser_run_def p1_def te_outcome_def)
  next
    case False
    then show ?thesis
      using q by (simp add: httpteparser_run_def p1_def te_outcome_def)
  qed
qed


section \<open>Chunked encodings\<close>

text \<open>
  The chunked transfer coding of RFC 7230, section 4.1: chunks with a size in hexadecimal digits of either
  case, an optional extension and their data; a last chunk of size 0; trailer lines; an empty line.
\<close>

record te_chunk =
  size_digits :: "char list"
  extension :: "char list option"
  chunk_data :: "char list"

definition hex_number :: "char list \<Rightarrow> int" where
  "hex_number hs = foldl (\<lambda>a c. 16 * a + hextable c) 0 hs"

definition size_line :: "char list \<Rightarrow> char list option \<Rightarrow> char list" where
  "size_line hs ext = hs @ (case ext of None \<Rightarrow> [] | Some x \<Rightarrow> CHR '';'' # x) @ [CR, LF]"

definition chunk_text :: "te_chunk \<Rightarrow> char list" where
  "chunk_text c = size_line (size_digits c) (extension c) @ chunk_data c @ [CR, LF]"

definition chunked_text :: "te_chunk list \<Rightarrow> te_chunk \<Rightarrow> char list list \<Rightarrow> char list" where
  "chunked_text chunks final trailers =
     concat (map chunk_text chunks) @ size_line (size_digits final) (extension final) @
     concat (map (\<lambda>l. l @ [CR, LF]) trailers) @ [CR, LF]"

definition size_line_ok :: "te_chunk \<Rightarrow> bool" where
  "size_line_ok c \<longleftrightarrow> size_digits c \<noteq> [] \<and> length (size_digits c) \<le> 8 \<and> list_all (\<lambda>h. hextable h \<noteq> -1) (size_digits c) \<and>
     hex_number (size_digits c) = int (length (chunk_data c)) \<and> int (length (chunk_data c)) \<le> INT_MAX \<and>
     (case extension c of None \<Rightarrow> True | Some x \<Rightarrow> CR \<notin> set x)"

definition chunked_ok :: "te_chunk list \<Rightarrow> te_chunk \<Rightarrow> char list list \<Rightarrow> bool" where
  "chunked_ok chunks final trailers \<longleftrightarrow>
     list_all (\<lambda>c. size_line_ok c \<and> chunk_data c \<noteq> []) chunks \<and> size_line_ok final \<and> chunk_data final = [] \<and>
     list_all (\<lambda>l. l \<noteq> [] \<and> length l \<le> 8192 \<and> CR \<notin> set l) trailers"

lemma hex_digit_chars: "hextable h \<noteq> -1 \<Longrightarrow> h \<noteq> CR \<and> h \<noteq> CHR '';''"
  by (auto simp: hextable_def Let_def)

lemma hex_foldl_mono:
  "list_all (\<lambda>h. hextable h \<noteq> -1) hs \<Longrightarrow> 0 \<le> a \<Longrightarrow> a \<le> foldl (\<lambda>a c. 16 * a + hextable c) a hs"
proof (induction hs arbitrary: a)
  case (Cons h hs)
  have "0 \<le> hextable h"
    using hextable_range [of h] Cons.prems(1) by auto
  then show ?case
    using Cons.IH [of "16 * a + hextable h"] Cons.prems by simp
qed simp

lemma hex_to_dec_number:
  "list_all (\<lambda>h. hextable h \<noteq> -1) hs \<Longrightarrow> 0 \<le> a \<Longrightarrow> foldl (\<lambda>a c. 16 * a + hextable c) a hs \<le> INT_MAX \<Longrightarrow>
   hex_to_dec a hs = foldl (\<lambda>a c. 16 * a + hextable c) a hs"
proof (induction hs arbitrary: a)
  case (Cons h hs)
  have h: "0 \<le> hextable h" "hextable h \<noteq> -1"
    using hextable_range [of h] Cons.prems(1) by auto
  have "16 * a + hextable h \<le> INT_MAX"
    using hex_foldl_mono [of hs "16 * a + hextable h"] Cons.prems h(1) by simp
  then show ?case
    using Cons h by (simp only: hex_to_dec_step) (simp add: mult.commute)
qed simp

lemma fold_digits:
  "list_all (\<lambda>h. hextable h \<noteq> -1) hs \<Longrightarrow> length xs + length hs \<le> 8 \<Longrightarrow>
   foldl te_byte (Run HTTP1TEPARSER_CHUNKSIZE xs n k pl) hs = Run HTTP1TEPARSER_CHUNKSIZE (xs @ hs) n k pl"
proof (induction hs arbitrary: xs)
  case (Cons h hs)
  then show ?case
    using hex_digit_chars [of h] by simp
qed simp

lemma fold_extension:
  "CR \<notin> set x \<Longrightarrow> foldl te_byte (Run HTTP1TEPARSER_CHUNKSIZE_EXT xs n k pl) x = Run HTTP1TEPARSER_CHUNKSIZE_EXT xs n k pl"
  by (induction x) auto

lemma fold_size_line:
  assumes "size_line_ok c"
  shows "foldl te_byte (Run HTTP1TEPARSER_CHUNKSIZE [] n k pl) (size_line (size_digits c) (extension c)) =
    Run (if chunk_data c = [] then HTTP1TEPARSER_TRAILER else HTTP1TEPARSER_CHUNK) [] (length (chunk_data c)) 0 pl"
proof -
  have hs: "list_all (\<lambda>h. hextable h \<noteq> -1) (size_digits c)" "length (size_digits c) \<le> 8"
    and v: "hex_to_dec 0 (size_digits c) = int (length (chunk_data c))"
    using assms hex_to_dec_number [of "size_digits c" 0] by (simp_all add: size_line_ok_def hex_number_def)
  then show ?thesis
    using assms fold_digits [OF hs(1), of "[]" n k pl]
    by (auto simp: size_line_def te_sized_def size_line_ok_def fold_extension split: option.splits)
qed

lemma fold_chunk:
  assumes "size_line_ok c" and "chunk_data c \<noteq> []"
  shows "\<exists>n' k'. foldl te_byte (Run HTTP1TEPARSER_CHUNKSIZE [] n k pl) (chunk_text c) =
    Run HTTP1TEPARSER_CHUNKSIZE [] n' k' (pl @ chunk_data c)"
  using assms te_byte_chunk [of 0 "chunk_data c" "length (chunk_data c)" "[]" pl]
  by (auto simp: chunk_text_def fold_size_line)

lemma fold_chunks:
  "list_all (\<lambda>c. size_line_ok c \<and> chunk_data c \<noteq> []) chunks \<Longrightarrow>
   \<exists>n' k'. foldl te_byte (Run HTTP1TEPARSER_CHUNKSIZE [] n k pl) (concat (map chunk_text chunks)) =
    Run HTTP1TEPARSER_CHUNKSIZE [] n' k' (pl @ concat (map chunk_data chunks))"
proof (induction chunks arbitrary: n k pl)
  case (Cons c chunks)
  obtain n1 k1 where "foldl te_byte (Run HTTP1TEPARSER_CHUNKSIZE [] n k pl) (chunk_text c) =
      Run HTTP1TEPARSER_CHUNKSIZE [] n1 k1 (pl @ chunk_data c)"
    using fold_chunk Cons.prems by fastforce
  then show ?case
    using Cons.IH [of n1 k1 "pl @ chunk_data c"] Cons.prems by simp
qed simp

lemma fold_line:
  "CR \<notin> set l \<Longrightarrow> length xs + length l \<le> 8193 \<Longrightarrow>
   foldl te_byte (Run HTTP1TEPARSER_TRAILER xs n k pl) l = Run HTTP1TEPARSER_TRAILER (xs @ l) n k pl"
  by (induction l arbitrary: xs) auto

lemma fold_trailers:
  "list_all (\<lambda>l. l \<noteq> [] \<and> length l \<le> 8192 \<and> CR \<notin> set l) trailers \<Longrightarrow>
   foldl te_byte (Run HTTP1TEPARSER_TRAILER [] n k pl) (concat (map (\<lambda>l. l @ [CR, LF]) trailers)) =
     Run HTTP1TEPARSER_TRAILER [] n k pl"
  by (induction trailers) (auto simp: fold_line)

lemma fold_chunked:
  assumes "chunked_ok chunks final trailers"
  shows "foldl te_byte (Run HTTP1TEPARSER_CHUNKSIZE [] n k pl) (chunked_text chunks final trailers) =
    Stop HTTP1TEPARSER_COMPLETE (pl @ concat (map chunk_data chunks))"
proof -
  obtain n1 k1 where "foldl te_byte (Run HTTP1TEPARSER_CHUNKSIZE [] n k pl) (concat (map chunk_text chunks)) =
      Run HTTP1TEPARSER_CHUNKSIZE [] n1 k1 (pl @ concat (map chunk_data chunks))"
    using fold_chunks assms unfolding chunked_ok_def by blast
  then show ?thesis
    using assms by (simp add: chunked_text_def chunked_ok_def fold_size_line fold_trailers)
qed

lemma httpteparser_init_spec:
  assumes "length (static_buffer (te_buf p0)) = BUFFERDATA_SIZE"
  shows "\<exists>p. httpteparser_init zero p0 = Some p \<and> te_inv p \<and> te_abs p = Run HTTP1TEPARSER_CHUNKSIZE [] 0 0 (payload p0) \<and>
    payload p = payload p0"
proof -
  obtain b where b: "bufferdata_init (te_buf p0) = Some b" "bufferdata_inv b" "bufferdata_content b = []"
    using bufferdata_init_spec [OF assms] by (auto simp: bufferdata_inv_def elim!: returnsE)
  then have "holds_static b []"
    by (auto simp: holds_static_def bufferdata_init_def split: Option.bind_splits)
  then show ?thesis
    using b by (auto simp: httpteparser_init_def te_inv_def te_buf_ok_def early_def te_abs_def INT_MAX_def)
qed

section \<open>Properties\<close>

text \<open>Property C13. Whatever a server sends as a chunked body, divided into reads in any way, and
  whatever allocations and file operations fail: the decoder ends, stays inside its buffers and,
  without compression, never stores more bytes than it has received. The hypothesis on zlib is
  that \<open>inflate\<close> keeps to its buffers and cannot fill its output for ever.\<close>

theorem te_feed_safe:
  assumes "zlib_ok (te_zlib e)" and "length (static_buffer (te_buf p0)) = BUFFERDATA_SIZE"
    and "list_all (\<lambda>d. length d < 2 ^ 63) reads"
  shows "returns (do { p \<leftarrow> httpteparser_init zero p0; te_feed e reads p })
    (\<lambda>(st, q). \<not> is_gzip e \<longrightarrow> length (payload q) \<le> length (payload p0) + length (concat reads))"
proof -
  have feed: "te_inv p \<Longrightarrow> list_all (\<lambda>d. length d < 2 ^ 63) ds \<Longrightarrow> returns (te_feed e ds p)
      (\<lambda>(st, q). \<not> is_gzip e \<longrightarrow> length (payload q) \<le> length (payload p) + length (concat ds))" for ds p
  proof (induction ds arbitrary: p)
    case (Cons d ds)
    define p1 where "p1 = (httpteparser_set_buffer p d)\<lparr>te_pos := 0\<rparr>"
    have "te_inv p1" "payload p1 = payload p" "bytes_readed p1 = length d" "te_pos p1 = 0"
      using Cons.prems by (auto simp: p1_def httpteparser_set_buffer_def te_inv_def te_buf_ok_def)
    then obtain st q where q: "te_loop e p1 = Some (st, q)" "st = HTTP1TEPARSER_CONTINUE \<longrightarrow> te_inv q"
      "\<not> is_gzip e \<longrightarrow> length (payload q) \<le> length (payload p) + length d"
      using te_loop_safe [OF assms(1), of p1] by (auto elim!: returnsE)
    show ?case
    proof (cases "st = HTTP1TEPARSER_CONTINUE")
      case True
      then show ?thesis
        using Cons.IH [of q] Cons.prems(2) q by (auto simp: httpteparser_run_def p1_def elim!: returns_mono)
    next
      case False
      then show ?thesis
        using q by (auto simp: httpteparser_run_def p1_def)
    qed
  qed simp
  obtain p where p: "httpteparser_init zero p0 = Some p" "te_inv p" "payload p = payload p0"
    using httpteparser_init_spec [OF assms(2)] by blast
  show ?thesis
    using feed [OF p(2) assms(3)] p(1,3) by simp
qed

definition blank_te :: "unit httpteparser" where
  "blank_te = \<lparr>te_stage = HTTP1TEPARSER_CHUNKSIZE, te_buf = blank_bufferdata, bytes_readed = 0, te_pos = 0,
     chunk_size = 0, chunk_size_readed = 0,
     te_gzip = \<lparr>is_deflate_init = -1, status_code = Z_OK, zstream = (), next_in = [], avail_out = 0\<rparr>,
     te_buffer = [], payload = []\<rparr>"

definition null_zlib :: "unit zlib" where
  "null_zlib = \<lparr>inflateInit2 = (\<lambda>z. (True, z)), inflate = (\<lambda>z inp n. (Z_STREAM_END, length inp, [], z)),
     inflateEnd = (\<lambda>z. (True, z)), deflateInit2 = (\<lambda>z. (True, z)),
     deflate = (\<lambda>z inp n final. (Z_STREAM_END, length inp, [], z)), deflateEnd = (\<lambda>z. (True, z))\<rparr>"

definition plain_te_env :: "bool \<Rightarrow> unit te_env" where
  "plain_te_env gz = \<lparr>te_alloc = total_allocator (\<lambda>_ _. nul), te_zlib = null_zlib, is_gzip = gz, append_content = (\<lambda>_ _. True)\<rparr>"

lemma null_zlib_ok: "zlib_ok null_zlib"
  by (auto simp: zlib_ok_def inflate_bounded_def deflate_bounded_def inflate_ends_def null_zlib_def)

lemma blank_te_size: "length (static_buffer (te_buf blank_te)) = BUFFERDATA_SIZE"
  by (simp add: blank_te_def blank_bufferdata_def)

theorem te_feed_safe_witness:
  "zlib_ok (te_zlib (plain_te_env True)) \<and> length (static_buffer (te_buf blank_te)) = BUFFERDATA_SIZE \<and>
   list_all (\<lambda>d. length d < 2 ^ 63) [''5;x'', ''garbage''] \<and>
   returns (do { p \<leftarrow> httpteparser_init () blank_te; te_feed (plain_te_env True) [''5;x'', ''garbage''] p }) (\<lambda>_. True)"
proof -
  have 1: "zlib_ok (te_zlib (plain_te_env True))" "list_all (\<lambda>d. length d < 2 ^ 63) [''5;x'', ''garbage'']"
    by (simp_all add: plain_te_env_def null_zlib_ok)
  from te_feed_safe [OF 1(1) blank_te_size 1(2), of "()"] 1 blank_te_size show ?thesis
    by (auto elim!: returns_mono)
qed


definition hello_chunks :: "te_chunk list" where
  "hello_chunks = [\<lparr>size_digits = ''2'', extension = None, chunk_data = ''he''\<rparr>,
     \<lparr>size_digits = ''03'', extension = Some ''a=b'', chunk_data = ''llo''\<rparr>]"

definition zero_chunk :: te_chunk where
  "zero_chunk = \<lparr>size_digits = ''0'', extension = None, chunk_data = []\<rparr>"


end
