(* ===== verification/Http_Filter.thy ===== *)
theory Http_Filter
  imports Bufo
begin

text \<open>
  The frame of the response filters (protocols/http/server/filters/http_filter.c) and its last
  element, the write filter (http_write_filter.c). A body handler gets the state of the filters below it and a
  buffer, which it consumes; it answers that it wants more data, that the socket is full, or that it failed.
  What a filter may rely on in the next one is the locale \<open>body_sink\<close>, which the write filter implements.
\<close>

section \<open>The response\<close>

datatype cwf = CWF_OK | CWF_ERROR | CWF_EVENT_AGAIN | CWF_DATA_AGAIN

datatype http_content_encoding = CE_NONE | CE_GZIP

datatype http_trunsfer_encoding = TE_NONE | TE_CHUNKED | TE_GZIP

text \<open>\<open>file_content\<close> is what the descriptor reads. The answers of \<open>pread\<close> come one after the other: at most \<open>n + 1\<close> bytes, an
  interrupted call, or a failure; when none is left, \<open>pread\<close> reads all it is asked for up to the end of the file.\<close>

datatype pread_answer = Pread nat | Pread_Interrupted | Pread_Failed

record http_file =
  fd :: int
  file_size :: nat
  mtime :: int
  file_content :: "char list"
  pread_answers :: "pread_answer list"

record http_header =
  key :: string
  val :: string

record httpresponse =
  headers :: "http_header list"
  content_length :: nat
  body :: bufo
  rfile :: http_file
  status :: int
  transfer_encoding :: http_trunsfer_encoding
  content_encoding :: http_content_encoding
  headers_sended :: bool
  range_flag :: bool
  last_modified :: bool

definition BUF_SIZE :: nat where
  "BUF_SIZE = 16384"

text \<open>\<open>response->body.size\<close>, or the size of the file if there is one, as several filters compute it.\<close>

definition data_size :: "httpresponse \<Rightarrow> nat" where
  "data_size r = (if -1 < fd (rfile r) then file_size (rfile r) else bsize (body r))"

section \<open>Reading the file\<close>

text \<open>\<open>pread\<close>, repeated while it is interrupted: the bytes read, or \<open>None\<close> for a failure.\<close>

fun pread_loop :: "pread_answer list \<Rightarrow> char list \<Rightarrow> nat \<Rightarrow> nat \<Rightarrow> char list option \<times> pread_answer list" where
  "pread_loop [] content sz offset = (Some (take sz (drop offset content)), [])"
| "pread_loop (a # as) content sz offset =
     (case a of
        Pread n \<Rightarrow> (Some (take (min sz (Suc n)) (drop offset content)), as)
      | Pread_Interrupted \<Rightarrow> pread_loop as content sz offset
      | Pread_Failed \<Rightarrow> (None, as))"

definition http_pread :: "http_file \<Rightarrow> nat \<Rightarrow> nat \<Rightarrow> char list option \<times> http_file" where
  "http_pread f sz offset =
     (let (r, as) = pread_loop (pread_answers f) (file_content f) sz offset in (r, f\<lparr>pread_answers := as\<rparr>))"

section \<open>The socket\<close>

text \<open>
  The answers of \<open>send\<close> and \<open>SSL_write\<close>, one after the other: \<open>Wrote n\<close> takes \<open>n + 1\<close> bytes, or all if they
  are fewer; when no answer is left the socket would block. \<open>sent\<close> are the bytes the socket took.
  \<open>event_again\<close> is the flag of the response by which the event loop waits for the socket.
\<close>

datatype send_answer = Wrote nat | Interrupted | Broken | Closed

record net =
  answers :: "send_answer list"
  sent :: "char list"
  event_again :: bool

datatype errno = EINTR | EAGAIN | EOTHER

definition net_write :: "net \<Rightarrow> char list \<Rightarrow> (errno + nat) \<times> net" where
  "net_write n data =
     (case answers n of
        [] \<Rightarrow> (Inl EAGAIN, n)
      | a # as \<Rightarrow>
          (case a of
             Wrote k \<Rightarrow> let w = min (Suc k) (length data)
                        in (Inr w, n\<lparr>answers := as, sent := sent n @ take w data\<rparr>)
           | Interrupted \<Rightarrow> (Inl EINTR, n\<lparr>answers := as\<rparr>)
           | Broken \<Rightarrow> (Inl EOTHER, n\<lparr>answers := as\<rparr>)
           | Closed \<Rightarrow> (Inr 0, n\<lparr>answers := as\<rparr>)))"

section \<open>The write filter\<close>

partial_function (option) wr :: "net \<Rightarrow> bufo \<Rightarrow> (cwf \<times> net \<times> bufo) option" where
  "wr n buf =
     (let readed = bufo_chunk_size buf BUF_SIZE in
      if 0 < readed then do {
        blk \<leftarrow> bufo_data buf;
        data \<leftarrow> peek blk 0 readed;
        let (writed, n1) = net_write n data;
        (case writed of
           Inl EINTR \<Rightarrow> wr n1 buf
         | Inl EAGAIN \<Rightarrow> Some (CWF_EVENT_AGAIN, n1\<lparr>event_again := True\<rparr>, buf)
         | Inl EOTHER \<Rightarrow> Some (CWF_ERROR, n1, buf)
         | Inr w \<Rightarrow> if w = 0 then Some (CWF_ERROR, n1, buf)
                     else wr n1 (snd (bufo_move_front_pos buf w)))
      }
      else Some (CWF_OK, n, buf))"

definition http_write_body :: "net \<Rightarrow> bufo \<Rightarrow> (cwf \<times> net \<times> bufo) option" where
  "http_write_body n parent_buf = do {
     (r, n1, buf) \<leftarrow> wr n parent_buf;
     Some (if r = CWF_OK then CWF_DATA_AGAIN else r, n1, buf)
   }"

section \<open>Buffers offered to a filter\<close>

definition readable :: "bufo \<Rightarrow> bool" where
  "readable b \<longleftrightarrow> (\<exists>d. bdata b = Some d \<and> pos b \<le> bsize b \<and> bsize b \<le> length d \<and> length d < 2 ^ 63)"

text \<open>The bytes between the marks.\<close>

definition unread :: "bufo \<Rightarrow> char list" where
  "unread b = (case bdata b of None \<Rightarrow> [] | Some d \<Rightarrow> drop (pos b) (take (bsize b) d))"

lemma length_unread [simp]: "readable b \<Longrightarrow> length (unread b) = bsize b - pos b"
  by (auto simp: readable_def unread_def)

text \<open>The consumer moved only the cursor, and only forward.\<close>

definition advanced :: "bufo \<Rightarrow> bufo \<Rightarrow> bool" where
  "advanced b b' \<longleftrightarrow> (\<exists>k \<le> length (unread b). b' = b\<lparr>pos := pos b + k\<rparr>)"

lemma advanced_refl [simp]: "advanced b b"
  unfolding advanced_def by (rule exI [of _ 0]) simp

lemma advanced_readable: "readable b \<Longrightarrow> advanced b b' \<Longrightarrow> readable b'"
  by (auto simp: advanced_def readable_def unread_def)

lemma advanced_trans: "readable b \<Longrightarrow> advanced b b' \<Longrightarrow> advanced b' b'' \<Longrightarrow> advanced b b''"
proof -
  assume r: "readable b" and a: "advanced b b'" "advanced b' b''"
  from a(1) obtain k where k: "k \<le> length (unread b)" "b' = b\<lparr>pos := pos b + k\<rparr>"
    by (auto simp: advanced_def)
  from a(2) obtain j where j: "j \<le> length (unread b')" "b'' = b'\<lparr>pos := pos b' + j\<rparr>"
    by (auto simp: advanced_def)
  have "k + j \<le> length (unread b)"
    using j(1) k r advanced_readable [OF r a(1)] by simp
  then show ?thesis
    using j(2) k(2) unfolding advanced_def by (intro exI [of _ "k + j"]) (simp add: add.assoc)
qed

lemma advanced_fields:
  assumes "advanced b b'"
  shows "bdata b' = bdata b" and "bsize b' = bsize b" and "capacity b' = capacity b" and "is_last b' = is_last b"
    and "is_proxy b' = is_proxy b" and "pos b \<le> pos b'"
  using assms by (auto simp: advanced_def)

lemma advanced_done: "readable b \<Longrightarrow> advanced b b' \<Longrightarrow> unread b' = [] \<Longrightarrow> b' = b\<lparr>pos := bsize b\<rparr>"
  by (auto simp: advanced_def readable_def unread_def)

lemma chunk_of_unread:
  assumes "readable b"
  shows "bufo_chunk_size b k = min k (length (unread b))" and
    "j \<le> length (unread b) \<Longrightarrow> Option.bind (bufo_data b) (\<lambda>blk. peek blk 0 j) = Some (take j (unread b))"
    and "j \<le> length (unread b) \<Longrightarrow> bufo_move_front_pos b j = (j, b\<lparr>pos := pos b + j\<rparr>)"
    and "j \<le> length (unread b) \<Longrightarrow> unread (b\<lparr>pos := pos b + j\<rparr>) = drop j (unread b)"
    and "j \<le> length (unread b) \<Longrightarrow> advanced b (b\<lparr>pos := pos b + j\<rparr>)"
proof -
  from assms obtain d where d: "bdata b = Some d" "pos b \<le> bsize b" "bsize b \<le> length d" "length d < 2 ^ 63"
    by (auto simp: readable_def)
  show "bufo_chunk_size b k = min k (length (unread b))"
    using d by (auto simp: bufo_chunk_size_def unread_def Let_def)
  show "Option.bind (bufo_data b) (\<lambda>blk. peek blk 0 j) = Some (take j (unread b))" if "j \<le> length (unread b)"
  proof -
    have "j + pos b \<le> bsize b"
      using that d length_unread [OF assms] by simp
    then show ?thesis
      using d by (simp add: bufo_data_def unread_def peek_def take_drop min.absorb1)
  qed
  show "j \<le> length (unread b) \<Longrightarrow> bufo_move_front_pos b j = (j, b\<lparr>pos := pos b + j\<rparr>)"
    using d szadd_exact [of "pos b" j] by (auto simp: bufo_move_front_pos_def unread_def size_modulus_def)
  show "j \<le> length (unread b) \<Longrightarrow> unread (b\<lparr>pos := pos b + j\<rparr>) = drop j (unread b)"
    using d by (simp add: unread_def add.commute)
  show "j \<le> length (unread b) \<Longrightarrow> advanced b (b\<lparr>pos := pos b + j\<rparr>)"
    by (auto simp: advanced_def)
qed

section \<open>What a filter relies on\<close>

definition wrotes :: "send_answer list \<Rightarrow> nat" where
  "wrotes as = length (filter (\<lambda>a. \<exists>n. a = Wrote n) as)"

definition breaks :: "send_answer list \<Rightarrow> bool" where
  "breaks as \<longleftrightarrow> Broken \<in> set as \<or> Closed \<in> set as"

text \<open>A call uses up answers, and each answer that takes bytes takes at least one.\<close>

definition net_step :: "net \<Rightarrow> net \<Rightarrow> bool" where
  "net_step n n' \<longleftrightarrow> (\<exists>used. answers n = used @ answers n' \<and> length (sent n) + wrotes used \<le> length (sent n'))"

lemma wrotes_simps [simp]:
  "wrotes [] = 0" "wrotes (a # as) = (case a of Wrote n \<Rightarrow> Suc (wrotes as) | _ \<Rightarrow> wrotes as)"
  "wrotes (as @ bs) = wrotes as + wrotes bs"
  by (auto simp: wrotes_def split: send_answer.split)

lemma net_step_refl [simp]: "net_step n n"
  by (auto simp: net_step_def)

lemma net_step_trans: "net_step n n' \<Longrightarrow> net_step n' n'' \<Longrightarrow> net_step n n''"
  unfolding net_step_def
  by (elim exE conjE) (rule exI, rule conjI, erule ssubst, erule ssubst, rule append_assoc [symmetric], simp)

lemma net_step_breaks: "net_step n n' \<Longrightarrow> breaks (answers n') \<Longrightarrow> breaks (answers n)"
  by (auto simp: net_step_def breaks_def)


text \<open>
  What a body handler may answer in the state \<open>s\<close> to the buffer \<open>b\<close>, which held \<open>d\<close> when it was first offered,
  after the buffers \<open>x\<close>. More data is asked for when the buffer is used up and all is sent; the handler waits for the
  socket only when there is something left to send; it fails only when the socket broke, or when \<open>reliable\<close> is false.
\<close>

definition sink_post :: "('s \<Rightarrow> net) \<Rightarrow> ((char list \<times> bool) list \<Rightarrow> 's \<Rightarrow> bool) \<Rightarrow>
    ((char list \<times> bool) list \<Rightarrow> char list \<times> bool \<Rightarrow> 's \<Rightarrow> bufo \<Rightarrow> bool) \<Rightarrow>
    ((char list \<times> bool) list \<Rightarrow> char list) \<Rightarrow> bool \<Rightarrow>
    (char list \<times> bool) list \<Rightarrow> char list \<times> bool \<Rightarrow> 's \<Rightarrow> bufo \<Rightarrow> cwf \<times> 's \<times> bufo \<Rightarrow> bool" where
  "sink_post net_of ready busy wire reliable x d s b = (\<lambda>(r, s', b').
     advanced b b' \<and> net_step (net_of s) (net_of s') \<and>
     (r = CWF_DATA_AGAIN \<and> ready (x @ [d]) s' \<and> unread b' = [] \<or>
      r = CWF_EVENT_AGAIN \<and> busy x d s' b' \<and> answers (net_of s') = [] \<and>
        (\<exists>rest. rest \<noteq> [] \<and> sent (net_of s') @ rest = wire (x @ [d])) \<or>
      r = CWF_ERROR \<and> (breaks (answers (net_of s)) \<or> \<not> reliable) \<and>
        (\<exists>rest. sent (net_of s') @ rest = wire (x @ [d]))))"

text \<open>None of the buffers was the last one.\<close>

definition open_list :: "(char list \<times> bool) list \<Rightarrow> bool" where
  "open_list x \<longleftrightarrow> list_all (\<lambda>(_, l). \<not> l) x"

lemma open_list_simps [simp]: "open_list []" "open_list (x @ [d]) \<longleftrightarrow> open_list x \<and> \<not> snd d"
  by (auto simp: open_list_def)

text \<open>
  The contract of a filter as the one above it sees it. \<open>handler\<close> is its body handler, \<open>net_of\<close> the socket
  in its state, \<open>refill\<close> the state when the event loop comes back with new answers of the socket.
  \<open>wire x\<close> are the bytes that belong on the wire for the sequence \<open>x\<close> of buffers, each with the flag of the last
  one; \<open>accepts x\<close> are the buffers the filter handles after \<open>x\<close>. \<open>ready x s\<close>: everything of \<open>x\<close> is sent; \<open>busy x d s b\<close>:
  the filter is at work on the buffer \<open>b\<close>, which held \<open>d\<close> when it was offered.
\<close>

locale body_sink =
  fixes handler :: "'s \<Rightarrow> bufo \<Rightarrow> (cwf \<times> 's \<times> bufo) option"
    and net_of :: "'s \<Rightarrow> net"
    and refill :: "send_answer list \<Rightarrow> 's \<Rightarrow> 's"
    and ready :: "(char list \<times> bool) list \<Rightarrow> 's \<Rightarrow> bool"
    and busy :: "(char list \<times> bool) list \<Rightarrow> char list \<times> bool \<Rightarrow> 's \<Rightarrow> bufo \<Rightarrow> bool"
    and wire :: "(char list \<times> bool) list \<Rightarrow> char list"
    and accepts :: "(char list \<times> bool) list \<Rightarrow> char list \<times> bool \<Rightarrow> bool"
    and reliable :: bool
  assumes ready_sent: "ready x s \<Longrightarrow> sent (net_of s) = wire x"
    and offer: "ready x s \<Longrightarrow> open_list x \<Longrightarrow> readable b \<Longrightarrow> accepts x (unread b, is_last b) \<Longrightarrow>
          busy x (unread b, is_last b) s b"
    and wire_prefix: "\<exists>z. wire (x @ y) = wire x @ z"
    and busy_readable: "busy x d s b \<Longrightarrow> readable b"
    and refill_net: "answers (net_of (refill as s)) = as" "sent (net_of (refill as s)) = sent (net_of s)"
    and refill_ready: "ready x s \<Longrightarrow> ready x (refill as s)"
    and refill_busy: "busy x d s b \<Longrightarrow> busy x d (refill as s) b"
    and handle: "busy x d s b \<Longrightarrow> returns (handler s b) (sink_post net_of ready busy wire reliable x d s b)"

text \<open>A sequence of buffers the filter handles one after the other.\<close>

fun takes :: "((char list \<times> bool) list \<Rightarrow> char list \<times> bool \<Rightarrow> bool) \<Rightarrow> (char list \<times> bool) list \<Rightarrow> (char list \<times> bool) list \<Rightarrow> bool" where
  "takes accepts x [] = True"
| "takes accepts x (e # y) = (accepts x e \<and> takes accepts (x @ [e]) y)"

text \<open>A filter at the end of the chain, which sends exactly the bytes it gets after those sent before.\<close>

definition bytes_of :: "(char list \<times> bool) list \<Rightarrow> char list" where
  "bytes_of x = concat (map fst x)"

lemma bytes_of_simps [simp]: "bytes_of [] = []" "bytes_of (x @ y) = bytes_of x @ bytes_of y" "bytes_of [d] = fst d"
  by (simp_all add: bytes_of_def)

locale byte_sink = body_sink +
  fixes base :: "char list"
  assumes wire_eq: "wire x = base @ bytes_of x"
    and accepts_all: "accepts x d"

section \<open>The write filter implements it\<close>

lemma wr_spec:
  assumes "readable b"
  shows "returns (wr n b) (\<lambda>(r, n', b').
    advanced b b' \<and> net_step n n' \<and> sent n' @ unread b' = sent n @ unread b \<and>
    (r = CWF_OK \<and> unread b' = [] \<or>
     r = CWF_EVENT_AGAIN \<and> answers n' = [] \<and> unread b' \<noteq> [] \<or>
     r = CWF_ERROR \<and> breaks (answers n)))"
  using assms
proof (induction "answers n" arbitrary: n b)
  case Nil
  note u = chunk_of_unread [OF Nil.prems]
  define k where "k = min BUF_SIZE (length (unread b))"
  have k: "k \<le> length (unread b)" "bufo_chunk_size b BUF_SIZE = k" "k = 0 \<longleftrightarrow> unread b = []"
    by (auto simp: k_def u(1) BUF_SIZE_def min_def split: if_splits)
  show ?case
    using Nil.hyps [symmetric] u(2) [OF k(1)] k(3)
    by (subst wr.simps) (auto simp: k(2) net_write_def Let_def net_step_def split: Option.bind_splits)
next
  case (Cons a as)
  note u = chunk_of_unread [OF Cons.prems]
  define k where "k = min BUF_SIZE (length (unread b))"
  have k: "k \<le> length (unread b)" "bufo_chunk_size b BUF_SIZE = k" "k = 0 \<longleftrightarrow> unread b = []"
    by (auto simp: k_def u(1) BUF_SIZE_def min_def split: if_splits)
  show ?case
  proof (cases "k = 0")
    case True
    then show ?thesis
      using k by (subst wr.simps) simp
  next
    case False
    have eq: "wr n b = (case net_write n (take k (unread b)) of (writed, n1) \<Rightarrow>
        (case writed of Inl EINTR \<Rightarrow> wr n1 b
         | Inl EAGAIN \<Rightarrow> Some (CWF_EVENT_AGAIN, n1\<lparr>event_again := True\<rparr>, b)
         | Inl EOTHER \<Rightarrow> Some (CWF_ERROR, n1, b)
         | Inr w \<Rightarrow> if w = 0 then Some (CWF_ERROR, n1, b) else wr n1 (snd (bufo_move_front_pos b w))))"
      using u(2) [OF k(1)] False by (subst wr.simps) (auto simp: k(2) Let_def split: Option.bind_splits)
    show ?thesis
    proof (cases a)
      case (Wrote j)
      define w where "w = min (Suc j) k"
      have w: "0 < w" "w \<le> length (unread b)" "w \<le> k"
        using False k(1) by (auto simp: w_def)
      define n1 where "n1 = n\<lparr>answers := as, sent := sent n @ take w (unread b)\<rparr>"
      define b1 where "b1 = b\<lparr>pos := pos b + w\<rparr>"
      have step: "wr n b = wr n1 b1"
        using Cons.hyps(2) [symmetric] w k(1) u(3) [OF w(2)]
        by (simp add: eq net_write_def Wrote w_def [symmetric] min.absorb2 n1_def b1_def)
      have adv: "advanced b b1" and ub: "unread b1 = drop w (unread b)"
        unfolding b1_def by (rule u(5) [OF w(2)], rule u(4) [OF w(2)])
      have ns: "net_step n n1"
        unfolding net_step_def using Cons.hyps(2) [symmetric] w Wrote
        by (intro exI [of _ "[a]"]) (simp add: n1_def)
      have "returns (wr n1 b1) (\<lambda>(r, n', b').
          advanced b1 b' \<and> net_step n1 n' \<and> sent n' @ unread b' = sent n1 @ unread b1 \<and>
          (r = CWF_OK \<and> unread b' = [] \<or> r = CWF_EVENT_AGAIN \<and> answers n' = [] \<and> unread b' \<noteq> [] \<or>
           r = CWF_ERROR \<and> breaks (answers n1)))"
        by (rule Cons.hyps(1)) (simp_all add: n1_def advanced_readable [OF Cons.prems adv])
      moreover have "sent n1 @ unread b1 = sent n @ unread b"
        by (simp add: n1_def ub)
      ultimately show ?thesis
        unfolding step
        by (elim returns_mono) (auto dest: net_step_breaks [OF ns] intro: advanced_trans [OF Cons.prems adv] net_step_trans [OF ns])
    next
      case Interrupted
      define n1 where "n1 = n\<lparr>answers := as\<rparr>"
      have step: "wr n b = wr n1 b"
        using Cons.hyps(2) [symmetric] by (simp add: eq net_write_def Interrupted n1_def)
      have ns: "net_step n n1"
        unfolding net_step_def using Cons.hyps(2) [symmetric] Interrupted
        by (intro exI [of _ "[a]"]) (simp add: n1_def)
      have "returns (wr n1 b) (\<lambda>(r, n', b').
          advanced b b' \<and> net_step n1 n' \<and> sent n' @ unread b' = sent n1 @ unread b \<and>
          (r = CWF_OK \<and> unread b' = [] \<or> r = CWF_EVENT_AGAIN \<and> answers n' = [] \<and> unread b' \<noteq> [] \<or>
           r = CWF_ERROR \<and> breaks (answers n1)))"
        by (rule Cons.hyps(1)) (simp_all add: n1_def Cons.prems)
      moreover have "sent n1 = sent n"
        by (simp add: n1_def)
      ultimately show ?thesis
        unfolding step by (elim returns_mono) (auto dest: net_step_breaks [OF ns] intro: net_step_trans [OF ns])
    next
      case Broken
      then show ?thesis
        unfolding eq net_write_def net_step_def using Cons.hyps(2) [symmetric] by (auto simp: breaks_def)
    next
      case Closed
      then show ?thesis
        unfolding eq net_write_def net_step_def using Cons.hyps(2) [symmetric] by (auto simp: breaks_def)
    qed
  qed
qed

definition write_wire :: "char list \<Rightarrow> (char list \<times> bool) list \<Rightarrow> char list" where
  "write_wire base x = base @ bytes_of x"

definition write_ready :: "char list \<Rightarrow> (char list \<times> bool) list \<Rightarrow> net \<Rightarrow> bool" where
  "write_ready base x n \<longleftrightarrow> sent n = base @ bytes_of x"

definition write_busy :: "char list \<Rightarrow> (char list \<times> bool) list \<Rightarrow> char list \<times> bool \<Rightarrow> net \<Rightarrow> bufo \<Rightarrow> bool" where
  "write_busy base x d n b \<longleftrightarrow> readable b \<and> sent n @ unread b = base @ bytes_of x @ fst d"

definition net_refill :: "send_answer list \<Rightarrow> net \<Rightarrow> net" where
  "net_refill as n = n\<lparr>answers := as, event_again := False\<rparr>"

lemma http_write_body_spec:
  assumes "write_busy base x d n b"
  shows "returns (http_write_body n b) (sink_post (\<lambda>n. n) (write_ready base) (write_busy base) (write_wire base) True x d n b)"
proof -
  have b: "readable b" "sent n @ unread b = base @ bytes_of x @ fst d"
    using assms by (auto simp: write_busy_def)
  obtain r n' b' where w: "wr n b = Some (r, n', b')" "advanced b b'" "net_step n n'"
      "sent n' @ unread b' = base @ bytes_of x @ fst d"
      "r = CWF_OK \<and> unread b' = [] \<or> r = CWF_EVENT_AGAIN \<and> answers n' = [] \<and> unread b' \<noteq> [] \<or>
       r = CWF_ERROR \<and> breaks (answers n)"
    using wr_spec [OF b(1), of n] b(2) by (auto elim!: returnsE)
  have "readable b'"
    by (rule advanced_readable [OF b(1) w(2)])
  with w show ?thesis
    by (auto simp: http_write_body_def write_ready_def write_busy_def write_wire_def sink_post_def)
qed

interpretation wrt: byte_sink http_write_body "\<lambda>n. n" net_refill "write_ready base" "write_busy base" "write_wire base"
    "\<lambda>_ _. True" True base for base
  by unfold_locales
    (erule http_write_body_spec | force simp: write_ready_def write_busy_def write_wire_def net_refill_def)+

end
