(* ===== verification/Http_Chunked.thy ===== *)
theory Http_Chunked
  imports Http_Filter
begin

text \<open>
  The chunked filter (protocols/http/server/filters/http_chunked_filter.c): it frames every buffer it is offered
  as one chunk of the chunked transfer coding and passes the framed bytes on in buffers of its own. The
  theory shows that it implements the contract \<open>body_sink\<close> on top of any filter that sends bytes, except for
  buffers that are not the last one and whose chunk fills the filter's buffer up to the separator: after
  such a buffer the filter drops a last one.
\<close>

section \<open>State\<close>

datatype chunked_state =
    HTTP_MODULE_CHUNKED_SIZE
  | HTTP_MODULE_CHUNKED_DATA
  | HTTP_MODULE_CHUNKED_SEP
  | HTTP_MODULE_CHUNKED_END

record http_module_chunked =
  chunked_cont :: bool
  chunked_done :: bool
  chunked_buf :: bufo
  chunked_state :: chunked_state
  state_pos :: nat
  chunk_head :: "char list option"
  chunk_head_size :: nat
  current_chunk_size :: nat

definition CHUNK_HEAD_MAX_SIZE :: nat where
  "CHUNK_HEAD_MAX_SIZE = 24"

section \<open>Operations\<close>

definition http_chunked_reset :: "http_module_chunked \<Rightarrow> http_module_chunked" where
  "http_chunked_reset c = c\<lparr>chunked_cont := False, chunked_done := False, chunked_state := HTTP_MODULE_CHUNKED_SIZE,
     chunk_head_size := 0, state_pos := 0, current_chunk_size := 0, chunked_buf := bufo_flush (chunked_buf c)\<rparr>"

text \<open>\<open>%zx\<close>.\<close>

fun hex_string :: "nat \<Rightarrow> string" where
  "hex_string n = (if n < 16 then [''0123456789abcdef'' ! n] else hex_string (n div 16) @ [''0123456789abcdef'' ! (n mod 16)])"

declare hex_string.simps [simp del]

definition head_text :: "nat \<Rightarrow> string" where
  "head_text n = hex_string n @ [CHR 0x0D, CHR 0x0A]"

definition chunk_head_create :: "allocator \<Rightarrow> http_module_chunked \<Rightarrow> bool \<times> http_module_chunked" where
  "chunk_head_create m c =
     (case malloc m CHUNK_HEAD_MAX_SIZE of None \<Rightarrow> (False, c) | Some h \<Rightarrow> (True, c\<lparr>chunk_head := Some h\<rparr>))"

definition chunk_head_set :: "http_module_chunked \<Rightarrow> bufo \<Rightarrow> (bool \<times> http_module_chunked) option" where
  "chunk_head_set c parent_buf =
     (let buf_size = bufo_size parent_buf in
      if buf_size < pos parent_buf then Some (False, c)
      else let chunk_size = buf_size - pos parent_buf;
               text = head_text chunk_size
           in if CHUNK_HEAD_MAX_SIZE \<le> length text then Some (False, c)
              else do {
                h \<leftarrow> chunk_head c;
                h1 \<leftarrow> poke h 0 (text @ [nul]);
                Some (True, c\<lparr>chunk_head := Some h1, chunk_head_size := length text, current_chunk_size := chunk_size\<rparr>)
              })"

definition chunked_update_state :: "allocator \<Rightarrow> http_module_chunked \<Rightarrow> bufo \<Rightarrow> (bool \<times> http_module_chunked) option" where
  "chunked_update_state m c parent_buf =
     (let c1 = c\<lparr>chunked_state := HTTP_MODULE_CHUNKED_SIZE, state_pos := 0\<rparr>;
          (ok, c2) = (if chunk_head c1 = None then chunk_head_create m c1 else (True, c1))
      in if \<not> ok then Some (False, c2) else chunk_head_set c2 parent_buf)"

text \<open>\<open>bufo_append\<close> of a piece of text from \<open>state_pos\<close> on, and the step of \<open>state_pos\<close> by what was written. The first
  component is false when \<open>bufo_append\<close> failed.\<close>

definition chunked_append :: "http_module_chunked \<Rightarrow> char list \<Rightarrow> (bool \<times> http_module_chunked) option" where
  "chunked_append c data = do {
     (written, b) \<leftarrow> bufo_append (chunked_buf c) data;
     Some (if written < 0 then (False, c)
           else (True, c\<lparr>chunked_buf := b, state_pos := state_pos c + nat written\<rparr>))
   }"

text \<open>One pass of the switch: the result with which \<open>chunked_process\<close> returns, or \<open>None\<close> for a \<open>break\<close>.\<close>

definition chunked_size :: "http_module_chunked \<Rightarrow> bufo \<Rightarrow> (bool option \<times> http_module_chunked \<times> bufo) option" where
  "chunked_size c parent_buf = do {
     h \<leftarrow> chunk_head c;
     text \<leftarrow> peek h (state_pos c) (szsub (chunk_head_size c) (state_pos c));
     (ok, c1) \<leftarrow> chunked_append c text;
     Some (if \<not> ok then (Some False, c1, parent_buf)
           else if state_pos c1 < chunk_head_size c1 then (Some True, c1, parent_buf)
           else (None, c1\<lparr>chunked_state := HTTP_MODULE_CHUNKED_DATA, state_pos := 0\<rparr>, parent_buf))
   }"

definition chunked_data :: "http_module_chunked \<Rightarrow> bufo \<Rightarrow> (bool option \<times> http_module_chunked \<times> bufo) option" where
  "chunked_data c parent_buf =
     (let parent_size = bufo_size parent_buf;
          parent_remaining = (if pos parent_buf < parent_size then parent_size - pos parent_buf else 0);
          chunk_remaining = szsub (current_chunk_size c) (state_pos c);
          size = (if parent_remaining < chunk_remaining then parent_remaining else chunk_remaining)
      in if size = 0 then Some (Some (\<not> is_last parent_buf), c, parent_buf)
         else do {
           blk \<leftarrow> bufo_data parent_buf;
           data \<leftarrow> peek blk 0 size;
           (written, b) \<leftarrow> bufo_append (chunked_buf c) data;
           Some (if written < 0 then (Some False, c, parent_buf)
                 else let (moved, p1) = bufo_move_front_pos parent_buf (nat written);
                          c1 = c\<lparr>chunked_buf := b, state_pos := state_pos c + moved\<rparr>
                      in if state_pos c1 < current_chunk_size c1 then (Some True, c1, p1)
                         else (None, c1\<lparr>chunked_state := HTTP_MODULE_CHUNKED_SEP, state_pos := 0\<rparr>, p1))
         })"

definition chunked_sep :: "http_module_chunked \<Rightarrow> bufo \<Rightarrow> (bool option \<times> http_module_chunked \<times> bufo) option" where
  "chunked_sep c parent_buf = do {
     text \<leftarrow> peek [CHR 0x0D, CHR 0x0A] (state_pos c) (szsub 2 (state_pos c));
     (ok, c1) \<leftarrow> chunked_append c text;
     Some (if \<not> ok then (Some False, c1, parent_buf)
           else if state_pos c1 < 2 then (Some True, c1, parent_buf)
           else let c2 = c1\<lparr>state_pos := 0\<rparr>
                in if is_last parent_buf then (None, c2\<lparr>chunked_state := HTTP_MODULE_CHUNKED_END\<rparr>, parent_buf)
                   else (if pos parent_buf < bsize parent_buf then None else Some True,
                         c2\<lparr>chunked_state := HTTP_MODULE_CHUNKED_SIZE\<rparr>, parent_buf))
   }"

definition end_text :: string where
  "end_text = ''0'' @ [CHR 0x0D, CHR 0x0A, CHR 0x0D, CHR 0x0A]"

definition chunked_end :: "http_module_chunked \<Rightarrow> bufo \<Rightarrow> (bool option \<times> http_module_chunked \<times> bufo) option" where
  "chunked_end c parent_buf = do {
     text \<leftarrow> peek end_text (state_pos c) (szsub 5 (state_pos c));
     (ok, c1) \<leftarrow> chunked_append c text;
     Some (if \<not> ok then (Some False, c1, parent_buf)
           else if state_pos c1 < 5 then (Some True, c1, parent_buf)
           else (Some True, c1\<lparr>chunked_done := True, state_pos := 0\<rparr>, parent_buf))
   }"

definition chunked_step :: "allocator \<Rightarrow> http_module_chunked \<Rightarrow> bufo \<Rightarrow> (bool option \<times> http_module_chunked \<times> bufo) option" where
  "chunked_step m c parent_buf =
     (case chunked_state c of
        HTTP_MODULE_CHUNKED_SIZE \<Rightarrow>
          if state_pos c = 0 then
            if bufo_size parent_buf < pos parent_buf then Some (Some False, c, parent_buf)
            else if pos parent_buf = bufo_size parent_buf then
              if \<not> is_last parent_buf then Some (Some True, c, parent_buf)
              else Some (None, c\<lparr>chunked_state := HTTP_MODULE_CHUNKED_END\<rparr>, parent_buf)
            else do {
              (ok, c1) \<leftarrow> chunked_update_state m c parent_buf;
              (if \<not> ok then Some (Some False, c1, parent_buf) else chunked_size c1 parent_buf)
            }
          else chunked_size c parent_buf
      | HTTP_MODULE_CHUNKED_DATA \<Rightarrow> chunked_data c parent_buf
      | HTTP_MODULE_CHUNKED_SEP \<Rightarrow> chunked_sep c parent_buf
      | HTTP_MODULE_CHUNKED_END \<Rightarrow> chunked_end c parent_buf)"

partial_function (option) chunked_loop ::
    "allocator \<Rightarrow> http_module_chunked \<Rightarrow> bufo \<Rightarrow> (bool \<times> http_module_chunked \<times> bufo) option" where
  "chunked_loop m c parent_buf = do {
     (r, c1, p1) \<leftarrow> chunked_step m c parent_buf;
     (case r of Some ok \<Rightarrow> Some (ok, c1, p1) | None \<Rightarrow> chunked_loop m c1 p1)
   }"

definition chunked_process :: "allocator \<Rightarrow> http_module_chunked \<Rightarrow> bufo \<Rightarrow> (bool \<times> http_module_chunked \<times> bufo) option" where
  "chunked_process m c parent_buf =
     chunked_loop m (c\<lparr>chunked_buf := bufo_reset_size (bufo_reset_pos (chunked_buf c))\<rparr>) parent_buf"

text \<open>The loop of \<open>http_chunked_body\<close>, entered at the label \<open>cont\<close> when \<open>resume\<close> is set.\<close>

partial_function (option) chunked_body_loop ::
    "('s \<Rightarrow> bufo \<Rightarrow> (cwf \<times> 's \<times> bufo) option) \<Rightarrow> allocator \<Rightarrow> bool \<Rightarrow> http_module_chunked \<Rightarrow> 's \<Rightarrow> bufo \<Rightarrow>
     (cwf \<times> (http_module_chunked \<times> 's) \<times> bufo) option" where
  "chunked_body_loop next_handler_body m resume c s parent_buf = do {
     (ok, c1, p1) \<leftarrow>
       (if resume then Some (True, c, parent_buf)
        else do {
          (ok, c1, p1) \<leftarrow> chunked_process m c parent_buf;
          Some (ok, if ok then c1\<lparr>chunked_buf := bufo_reset_pos (chunked_buf c1)\<rparr> else c1, p1)
        });
     (if \<not> ok then Some (CWF_ERROR, (c1, s), p1)
      else do {
        (r, s1, b) \<leftarrow> next_handler_body s (chunked_buf c1);
        let c2 = c1\<lparr>chunked_buf := b, chunked_cont := False\<rparr>;
        (if r = CWF_DATA_AGAIN then
           if chunked_done c2 then Some (r, (c2, s1), p1)
           else if pos p1 < bsize p1 \<or> is_last p1 then chunked_body_loop next_handler_body m False c2 s1 p1
           else Some (r, (c2, s1), p1)
         else Some (r, (c2\<lparr>chunked_cont := (r = CWF_EVENT_AGAIN)\<rparr>, s1), p1))
      })
   }"

definition chunked_passes :: "httpresponse \<Rightarrow> bool" where
  "chunked_passes r \<longleftrightarrow> transfer_encoding r = TE_NONE \<or> last_modified r"

definition http_chunked_body ::
    "('s \<Rightarrow> bufo \<Rightarrow> (cwf \<times> 's \<times> bufo) option) \<Rightarrow> allocator \<Rightarrow> httpresponse \<Rightarrow> http_module_chunked \<times> 's \<Rightarrow> bufo \<Rightarrow>
     (cwf \<times> (http_module_chunked \<times> 's) \<times> bufo) option" where
  "http_chunked_body next_handler_body m response = (\<lambda>(c, s) parent_buf.
     if chunked_passes response then do {
       (r, s1, b) \<leftarrow> next_handler_body s parent_buf;
       Some (r, (c, s1), b)
     }
     else if chunked_cont c then chunked_body_loop next_handler_body m True c s parent_buf
     else chunked_body_loop next_handler_body m False (c\<lparr>chunked_buf := bufo_reset_pos (chunked_buf c)\<rparr>) s parent_buf)"


section \<open>The output buffer\<close>

text \<open>A buffer that is being filled and holds \<open>xs\<close>.\<close>

definition filled :: "bufo \<Rightarrow> char list \<Rightarrow> bool" where
  "filled b xs \<longleftrightarrow> (\<exists>blk. bdata b = Some blk \<and> length blk = capacity b \<and> 0 < capacity b \<and> capacity b \<le> max_capacity \<and>
     \<not> is_proxy b \<and> \<not> is_last b \<and> pos b = length xs \<and> bsize b = length xs \<and> take (length xs) blk = xs)"

lemma filled_length: "filled b xs \<Longrightarrow> length xs \<le> capacity b"
  unfolding filled_def by (elim exE conjE) (metis length_take min.absorb_iff2 nat_le_linear)

lemma bufo_append_filled:
  assumes "filled b xs"
  shows "\<exists>b'. bufo_append b data = Some (int (min (length data) (capacity b - length xs)), b') \<and>
    filled b' (xs @ take (capacity b - length xs) data) \<and> capacity b' = capacity b"
proof -
  obtain blk where b: "bdata b = Some blk" "length blk = capacity b" "0 < capacity b" "capacity b \<le> max_capacity"
      "\<not> is_proxy b" "\<not> is_last b" "pos b = length xs" "bsize b = length xs" "take (length xs) blk = xs"
    using assms by (auto simp: filled_def)
  define k where "k = min (length data) (capacity b - length xs)"
  have le: "length xs \<le> capacity b"
    by (rule filled_length [OF assms])
  show ?thesis
  proof (cases "k = 0")
    case True
    then have "data = [] \<or> capacity b = length xs"
      using le by (auto simp: k_def min_def split: if_splits)
    then show ?thesis
      using b assms by (auto simp: bufo_append_def)
  next
    case False
    have fits: "length xs + k \<le> length blk"
      using le b(2) by (simp add: k_def)
    have dne: "data \<noteq> []" "length xs < capacity b"
      using False by (auto simp: k_def)
    have t: "take (capacity b - length xs) data = take k data" "length (take k data) = k"
      by (simp_all add: k_def min_def)
    have "bufo_append b data = Some (int k, b\<lparr>bdata := Some (take (length xs) blk @ take k data @ drop (length xs + k) blk),
        pos := length xs + k, bsize := length xs + k\<rparr>)"
      using b fits t(2) dne by (simp add: bufo_append_def Let_def poke_in k_def min_def split: if_splits)
    moreover have "filled (b\<lparr>bdata := Some (take (length xs) blk @ take k data @ drop (length xs + k) blk),
        pos := length xs + k, bsize := length xs + k\<rparr>) (xs @ take k data)"
      using b fits t(2) unfolding filled_def by simp
    ultimately show ?thesis
      unfolding k_def [symmetric] t(1) by simp
  qed
qed

lemma filled_reset:
  "filled b xs \<Longrightarrow> filled (bufo_reset_size (bufo_reset_pos b)) []"
  "filled b xs \<Longrightarrow> readable (bufo_reset_pos b) \<and> unread (bufo_reset_pos b) = xs \<and> is_last (bufo_reset_pos b) = False"
  using filled_length [of b xs]
  by (auto simp: filled_def bufo_reset_size_def bufo_reset_pos_def readable_def unread_def max_capacity_def)

section \<open>What is left to frame\<close>

definition chunk_frame :: "char list \<Rightarrow> char list" where
  "chunk_frame d = (if d = [] then [] else head_text (length d) @ d @ [CHR 0x0D, CHR 0x0A])"

definition fin :: "bool \<Rightarrow> char list" where
  "fin l = (if l then end_text else [])"

definition chunked_todo :: "http_module_chunked \<Rightarrow> bufo \<Rightarrow> char list" where
  "chunked_todo c p =
     (case chunked_state c of
        HTTP_MODULE_CHUNKED_SIZE \<Rightarrow>
          (if state_pos c = 0 then chunk_frame (unread p)
           else drop (state_pos c) (head_text (length (unread p))) @ unread p @ [CHR 0x0D, CHR 0x0A]) @ fin (is_last p)
      | HTTP_MODULE_CHUNKED_DATA \<Rightarrow> unread p @ [CHR 0x0D, CHR 0x0A] @ fin (is_last p)
      | HTTP_MODULE_CHUNKED_SEP \<Rightarrow> drop (state_pos c) [CHR 0x0D, CHR 0x0A] @ fin (is_last p)
      | HTTP_MODULE_CHUNKED_END \<Rightarrow> if chunked_done c then [] else drop (state_pos c) end_text)"

definition head_ok :: "http_module_chunked \<Rightarrow> nat \<Rightarrow> bool" where
  "head_ok c n \<longleftrightarrow> (\<exists>h. chunk_head c = Some h \<and> length h = CHUNK_HEAD_MAX_SIZE \<and> chunk_head_size c = length (head_text n) \<and>
     length (head_text n) < CHUNK_HEAD_MAX_SIZE \<and> take (length (head_text n)) h = head_text n \<and> current_chunk_size c = n)"

definition chunked_inv :: "http_module_chunked \<Rightarrow> bufo \<Rightarrow> bool" where
  "chunked_inv c p \<longleftrightarrow> readable p \<and> (\<forall>h. chunk_head c = Some h \<longrightarrow> length h = CHUNK_HEAD_MAX_SIZE) \<and>
     (chunked_done c \<longrightarrow> chunked_state c = HTTP_MODULE_CHUNKED_END) \<and>
     (case chunked_state c of
        HTTP_MODULE_CHUNKED_SIZE \<Rightarrow>
          0 < state_pos c \<longrightarrow> unread p \<noteq> [] \<and> head_ok c (length (unread p)) \<and> state_pos c < chunk_head_size c
      | HTTP_MODULE_CHUNKED_DATA \<Rightarrow>
          state_pos c < current_chunk_size c \<and> current_chunk_size c - state_pos c = length (unread p) \<and> current_chunk_size c < 2 ^ 63
      | HTTP_MODULE_CHUNKED_SEP \<Rightarrow> state_pos c < 2 \<and> unread p = []
      | HTTP_MODULE_CHUNKED_END \<Rightarrow> state_pos c < 5 \<and> unread p = [] \<and> is_last p)"

text \<open>What a run of the state machine achieves that starts with \<open>xs\<close> in the output buffer.\<close>

definition chunked_out :: "http_module_chunked \<Rightarrow> bufo \<Rightarrow> char list \<Rightarrow> http_module_chunked \<Rightarrow> bufo \<Rightarrow> bool" where
  "chunked_out c p xs c' p' \<longleftrightarrow>
     (let room = capacity (chunked_buf c) - length xs in
      advanced p p' \<and> chunked_inv c' p' \<and> filled (chunked_buf c') (xs @ take room (chunked_todo c p)) \<and>
      chunked_todo c' p' = drop room (chunked_todo c p) \<and> capacity (chunked_buf c') = capacity (chunked_buf c) \<and>
      (chunked_done c' \<longleftrightarrow> is_last p \<and> chunked_todo c' p' = []) \<and> chunked_cont c' = chunked_cont c \<and>
      (chunked_todo c' p' = [] \<longrightarrow> unread p' = []) \<and>
      (chunked_todo c' p' = [] \<and> \<not> is_last p \<longrightarrow> chunked_state c' = HTTP_MODULE_CHUNKED_SIZE \<and> state_pos c' = 0))"

lemma chunked_out_step:
  assumes out: "chunked_out c1 p1 (xs @ piece) c' p'" and adv: "readable p" "advanced p p1"
    and todo: "chunked_todo c p = piece @ chunked_todo c1 p1" and cap: "capacity (chunked_buf c1) = capacity (chunked_buf c)"
    and fits: "length piece \<le> capacity (chunked_buf c) - length xs" and cont: "chunked_cont c1 = chunked_cont c"
  shows "chunked_out c p xs c' p'"
proof -
  define room where "room = capacity (chunked_buf c) - length xs"
  have room1: "capacity (chunked_buf c1) - length (xs @ piece) = room - length piece"
    by (simp add: cap room_def)
  have le: "length piece \<le> room" and lst: "is_last p1 = is_last p"
    using fits advanced_fields(4) [OF adv(2)] by (simp_all add: room_def)
  have "take room (chunked_todo c p) = piece @ take (room - length piece) (chunked_todo c1 p1)"
    and "drop room (chunked_todo c p) = drop (room - length piece) (chunked_todo c1 p1)"
    using le by (simp_all add: todo)
  then show ?thesis
    using out cont lst advanced_trans [OF adv] unfolding chunked_out_def Let_def room1 room_def [symmetric] cap
    by (simp add: room_def)
qed

lemma chunked_append_filled:
  assumes "filled (chunked_buf c) xs"
  shows "\<exists>b'. chunked_append c data = Some (True, c\<lparr>chunked_buf := b',
      state_pos := state_pos c + min (length data) (capacity (chunked_buf c) - length xs)\<rparr>) \<and>
    filled b' (xs @ take (capacity (chunked_buf c) - length xs) data) \<and> capacity b' = capacity (chunked_buf c)"
  using bufo_append_filled [OF assms, of data] by (auto simp: chunked_append_def)

lemma chunked_end_out:
  assumes inv: "chunked_inv c p" and st: "chunked_state c = HTTP_MODULE_CHUNKED_END" and fl: "filled (chunked_buf c) xs"
    and nd: "\<not> chunked_done c"
  shows "returns (chunked_loop m c p) (\<lambda>(ok, c', p'). ok \<and> chunked_out c p xs c' p')"
proof -
  define room where "room = capacity (chunked_buf c) - length xs"
  define piece where "piece = drop (state_pos c) end_text"
  have sp: "state_pos c < 5" and lst: "is_last p" "unread p = []" "readable p"
    using inv st by (auto simp: chunked_inv_def)
  have len: "length piece = 5 - state_pos c" "length end_text = 5"
    by (simp_all add: piece_def end_text_def)
  have pk: "peek end_text (state_pos c) (szsub 5 (state_pos c)) = Some piece"
    using sp szsub_exact [of "state_pos c" 5] len by (simp add: peek_def piece_def size_modulus_def)
  obtain b' where b': "chunked_append c piece = Some (True, c\<lparr>chunked_buf := b', state_pos := state_pos c + min (length piece) room\<rparr>)"
      "filled b' (xs @ take room piece)" "capacity b' = capacity (chunked_buf c)"
    using chunked_append_filled [OF fl, of piece] by (auto simp: room_def)
  have todo: "chunked_todo c p = piece"
    using st nd by (simp add: chunked_todo_def piece_def)
  show ?thesis
  proof (cases "room < length piece")
    case True
    then have "chunked_loop m c p = Some (True, c\<lparr>chunked_buf := b', state_pos := state_pos c + room\<rparr>, p)"
      using b'(1) pk len sp st by (subst chunked_loop.simps) (simp add: chunked_step_def chunked_end_def)
    then show ?thesis
      using True b' inv st sp nd len lst
      by (auto simp: chunked_out_def room_def [symmetric] todo Let_def chunked_inv_def chunked_todo_def piece_def add.commute)
  next
    case False
    then have "chunked_loop m c p = Some (True, c\<lparr>chunked_buf := b', chunked_done := True, state_pos := 0\<rparr>, p)"
      using b'(1) pk len sp st by (subst chunked_loop.simps) (simp add: chunked_step_def chunked_end_def)
    then show ?thesis
      using False b' inv st sp nd len lst
      by (auto simp: chunked_out_def room_def [symmetric] todo Let_def chunked_inv_def chunked_todo_def piece_def)
  qed
qed


lemma chunked_sep_out:
  assumes inv: "chunked_inv c p" and st: "chunked_state c = HTTP_MODULE_CHUNKED_SEP" and fl: "filled (chunked_buf c) xs"
  shows "returns (chunked_loop m c p) (\<lambda>(ok, c', p'). ok \<and> chunked_out c p xs c' p')"
proof -
  define room where "room = capacity (chunked_buf c) - length xs"
  define piece where "piece = drop (state_pos c) [CHR 0x0D, CHR 0x0A]"
  have sp: "state_pos c < 2" and em: "unread p = []" "readable p" and nd: "\<not> chunked_done c"
    using inv st by (auto simp: chunked_inv_def)
  have pb: "\<not> pos p < bsize p"
    using em length_unread [of p] by simp
  have len: "length piece = 2 - state_pos c"
    by (simp add: piece_def)
  have pk: "peek [CHR 0x0D, CHR 0x0A] (state_pos c) (szsub 2 (state_pos c)) = Some piece"
    using sp szsub_exact [of "state_pos c" 2] len by (simp add: peek_def piece_def size_modulus_def)
  obtain b' where b': "chunked_append c piece = Some (True, c\<lparr>chunked_buf := b', state_pos := state_pos c + min (length piece) room\<rparr>)"
      "filled b' (xs @ take room piece)" "capacity b' = capacity (chunked_buf c)"
    using chunked_append_filled [OF fl, of piece] by (auto simp: room_def)
  have todo: "chunked_todo c p = piece @ fin (is_last p)"
    using st nd by (simp add: chunked_todo_def piece_def)
  show ?thesis
  proof (cases "room < length piece")
    case True
    then have "state_pos c + room < 2"
      using len by simp
    with True have "chunked_loop m c p = Some (True, c\<lparr>chunked_buf := b', state_pos := state_pos c + room\<rparr>, p)"
      using b'(1) pk len sp st by (subst chunked_loop.simps) (simp add: chunked_step_def chunked_sep_def)
    then show ?thesis
      using True b' inv st sp nd len em
      by (auto simp: chunked_out_def room_def [symmetric] todo Let_def chunked_inv_def chunked_todo_def piece_def add.commute)
  next
    case False
    define c1 where "c1 = c\<lparr>chunked_buf := b', state_pos := 0, chunked_state :=
        (if is_last p then HTTP_MODULE_CHUNKED_END else HTTP_MODULE_CHUNKED_SIZE)\<rparr>"
    have step: "chunked_step m c p = Some (if is_last p then None else Some True, c1, p)"
      using False b'(1) pk len sp st pb by (simp add: chunked_step_def chunked_sep_def c1_def)
    have inv1: "chunked_inv c1 p"
      using inv em nd by (simp add: chunked_inv_def c1_def)
    have fl1: "filled (chunked_buf c1) (xs @ piece)" and cap: "capacity (chunked_buf c1) = capacity (chunked_buf c)"
      using b' False by (simp_all add: c1_def)
    show ?thesis
    proof (cases "is_last p")
      case True
      then have eq: "chunked_loop m c p = chunked_loop m c1 p"
        using step by (subst chunked_loop.simps) simp
      have "returns (chunked_loop m c1 p) (\<lambda>(ok, c', p'). ok \<and> chunked_out c1 p (xs @ piece) c' p')"
        by (rule chunked_end_out [OF inv1 _ fl1]) (simp_all add: c1_def True nd)
      moreover have "chunked_todo c1 p = fin (is_last p)" "chunked_cont c1 = chunked_cont c"
        using True nd by (simp_all add: chunked_todo_def c1_def fin_def)
      ultimately show ?thesis
        unfolding eq using False em(2) cap
        by (elim returns_mono) (auto simp: room_def todo intro!: chunked_out_step [where ?p1.0 = p and ?c1.0 = c1 and piece = piece])
    next
      case False2: False
      have "chunked_loop m c p = Some (True, c1, p)"
        using step False2 by (subst chunked_loop.simps) simp
      moreover have "chunked_todo c1 p = []" "chunked_cont c1 = chunked_cont c" "\<not> chunked_done c1"
          "chunked_state c1 = HTTP_MODULE_CHUNKED_SIZE" "state_pos c1 = 0"
        using False2 em nd by (simp_all add: chunked_todo_def c1_def fin_def chunk_frame_def)
      ultimately show ?thesis
        using False False2 inv1 fl1 cap em
        by (simp add: chunked_out_def Let_def room_def [symmetric] todo fin_def)
    qed
  qed
qed

lemma chunked_data_out:
  assumes inv: "chunked_inv c p" and st: "chunked_state c = HTTP_MODULE_CHUNKED_DATA" and fl: "filled (chunked_buf c) xs"
  shows "returns (chunked_loop m c p) (\<lambda>(ok, c', p'). ok \<and> chunked_out c p xs c' p')"
proof -
  define room where "room = capacity (chunked_buf c) - length xs"
  define u where "u = unread p"
  have sp: "state_pos c < current_chunk_size c" and cs: "current_chunk_size c - state_pos c = length u" "current_chunk_size c < 2 ^ 63"
    and rd: "readable p" and nd: "\<not> chunked_done c"
    using inv st by (auto simp: chunked_inv_def u_def)
  have "0 < length u"
    unfolding cs(1) [symmetric] using sp by simp
  then have u: "u \<noteq> []" "length u = bsize p - pos p" "pos p < bsize p"
    using length_unread [OF rd] by (auto simp: u_def)
  have sz: "szsub (current_chunk_size c) (state_pos c) = length u"
    using sp cs szsub_exact [of "state_pos c" "current_chunk_size c"] by (simp add: size_modulus_def)
  note ch = chunk_of_unread [OF rd, folded u_def]
  have pk: "Option.bind (bufo_data p) (\<lambda>blk. peek blk 0 (length u)) = Some u"
    using ch(2) [of "length u"] by simp
  define k where "k = min (length u) room"
  have k: "k \<le> length u"
    by (simp add: k_def)
  obtain b' where b': "bufo_append (chunked_buf c) u = Some (int k, b')" "filled b' (xs @ take room u)"
      "capacity b' = capacity (chunked_buf c)"
    using bufo_append_filled [OF fl, of u] by (auto simp: room_def k_def)
  define p1 where "p1 = p\<lparr>pos := pos p + k\<rparr>"
  have p1: "advanced p p1" "unread p1 = drop k u" "bufo_move_front_pos p k = (k, p1)" "is_last p1 = is_last p"
    unfolding p1_def by (rule ch(5) [OF k], rule ch(4) [OF k], rule ch(3) [OF k], simp)
  have rd1: "readable p1"
    by (rule advanced_readable [OF rd p1(1)])
  have todo: "chunked_todo c p = u @ [CHR 0x0D, CHR 0x0A] @ fin (is_last p)"
    using st by (simp add: chunked_todo_def u_def)
  define c0 where "c0 = c\<lparr>chunked_buf := b', state_pos := state_pos c + k\<rparr>"
  have step: "chunked_step m c p = Some (if state_pos c + k < current_chunk_size c then (Some True, c0, p1)
      else (None, c0\<lparr>chunked_state := HTTP_MODULE_CHUNKED_SEP, state_pos := 0\<rparr>, p1))"
    using st u sz pk b'(1) p1(3)
    by (simp add: chunked_step_def chunked_data_def bufo_size_def Let_def c0_def split: Option.bind_splits) auto
  show ?thesis
  proof (cases "room < length u")
    case True
    then have kr: "k = room" "state_pos c + k < current_chunk_size c"
      using cs by (auto simp: k_def)
    then have "chunked_loop m c p = Some (True, c0, p1)"
      using step by (subst chunked_loop.simps) simp
    then show ?thesis
      using True b' inv st sp nd cs kr p1 rd1
      by (auto simp: chunked_out_def room_def [symmetric] todo Let_def chunked_inv_def chunked_todo_def c0_def u_def)
  next
    case False
    then have kr: "k = length u" "\<not> state_pos c + k < current_chunk_size c"
      using cs by (auto simp: k_def)
    define c1 where "c1 = c0\<lparr>chunked_state := HTTP_MODULE_CHUNKED_SEP, state_pos := 0\<rparr>"
    have eq: "chunked_loop m c p = chunked_loop m c1 p1"
      using step kr(2) by (subst chunked_loop.simps) (simp add: c1_def)
    have inv1: "chunked_inv c1 p1"
      using inv nd rd1 p1 kr(1) by (simp add: chunked_inv_def c1_def c0_def)
    have fl1: "filled (chunked_buf c1) (xs @ u)" and cap: "capacity (chunked_buf c1) = capacity (chunked_buf c)"
      using b' False by (simp_all add: c1_def c0_def)
    have "returns (chunked_loop m c1 p1) (\<lambda>(ok, c', p'). ok \<and> chunked_out c1 p1 (xs @ u) c' p')"
      by (rule chunked_sep_out [OF inv1 _ fl1]) (simp add: c1_def)
    moreover have "chunked_todo c1 p1 = [CHR 0x0D, CHR 0x0A] @ fin (is_last p)" "chunked_cont c1 = chunked_cont c"
      using p1(4) by (simp_all add: chunked_todo_def c1_def c0_def)
    ultimately show ?thesis
      unfolding eq using False
      using rd p1(1) cap
      by (elim returns_mono) (auto simp: room_def todo intro!: chunked_out_step [where ?p1.0 = p1 and ?c1.0 = c1 and piece = u])
  qed
qed


lemma hex_string_length: "n < 16 ^ Suc k \<Longrightarrow> length (hex_string n) \<le> Suc k"
proof (induction k arbitrary: n)
  case 0
  then show ?case by (subst hex_string.simps) simp
next
  case (Suc k)
  then show ?case
    using Suc.IH [of "n div 16"] by (subst hex_string.simps) (simp add: less_mult_imp_div_less)
qed

lemma head_text_length: "n < 2 ^ 63 \<Longrightarrow> length (head_text n) < CHUNK_HEAD_MAX_SIZE \<and> 0 < length (head_text n)"
  using hex_string_length [of n 15] by (simp add: head_text_def CHUNK_HEAD_MAX_SIZE_def)

lemma chunked_size_out:
  assumes inv: "chunked_inv c p" and st: "chunked_state c = HTTP_MODULE_CHUNKED_SIZE" and fl: "filled (chunked_buf c) xs"
    and hd: "head_ok c (length (unread p))" and sp: "state_pos c < chunk_head_size c" and ne: "unread p \<noteq> []"
    and todo: "chunked_todo c p = drop (state_pos c) (head_text (length (unread p))) @ unread p @ [CHR 0x0D, CHR 0x0A] @ fin (is_last p)"
    and eq: "chunked_step m c0 p = chunked_size c p"
  shows "returns (chunked_loop m c0 p) (\<lambda>(ok, c', p'). ok \<and> chunked_out c p xs c' p')"
proof -
  define room where "room = capacity (chunked_buf c) - length xs"
  define n where "n = length (unread p)"
  define piece where "piece = drop (state_pos c) (head_text n)"
  have rd: "readable p" and nd: "\<not> chunked_done c"
    using inv st by (auto simp: chunked_inv_def)
  obtain h where h: "chunk_head c = Some h" "length h = CHUNK_HEAD_MAX_SIZE" "chunk_head_size c = length (head_text n)"
      "length (head_text n) < CHUNK_HEAD_MAX_SIZE" "take (length (head_text n)) h = head_text n" "current_chunk_size c = n"
    using hd by (auto simp: head_ok_def n_def)
  have len: "length piece = chunk_head_size c - state_pos c" "0 < length piece"
    using h(3) sp by (simp_all add: piece_def)
  have pk: "peek h (state_pos c) (szsub (chunk_head_size c) (state_pos c)) = Some piece"
  proof -
    have "szsub (chunk_head_size c) (state_pos c) = chunk_head_size c - state_pos c"
      using sp h(3,4) by (intro szsub_exact) (auto simp: size_modulus_def CHUNK_HEAD_MAX_SIZE_def)
    moreover have "take (chunk_head_size c - state_pos c) (drop (state_pos c) h) = piece"
      using arg_cong [OF h(5), of "drop (state_pos c)"] by (simp add: piece_def h(3) drop_take)
    ultimately show ?thesis
      using sp h(2-4) by (simp add: peek_def)
  qed
  obtain b' where b': "chunked_append c piece = Some (True, c\<lparr>chunked_buf := b', state_pos := state_pos c + min (length piece) room\<rparr>)"
      "filled b' (xs @ take room piece)" "capacity b' = capacity (chunked_buf c)"
    using chunked_append_filled [OF fl, of piece] by (auto simp: room_def)
  show ?thesis
  proof (cases "room < length piece")
    case True
    then have lt: "state_pos c + room < chunk_head_size c"
      using len by simp
    then have run: "chunked_loop m c0 p = Some (True, c\<lparr>chunked_buf := b', state_pos := state_pos c + room\<rparr>, p)"
      using True b'(1) pk len h(1) by (subst chunked_loop.simps) (simp add: eq chunked_size_def)
    define c1 where "c1 = c\<lparr>chunked_buf := b', state_pos := state_pos c + room\<rparr>"
    have "head_ok c1 n"
      using hd by (auto simp: head_ok_def c1_def n_def)
    then have "chunked_inv c1 p"
      using inv st lt ne nd by (auto simp: chunked_inv_def c1_def n_def)
    moreover have "chunked_todo c1 p = drop room (chunked_todo c p)"
    proof (cases "room = 0 \<and> state_pos c = 0")
      case True
      then show ?thesis
        using st ne unfolding todo by (subst chunked_todo_def) (simp add: c1_def chunk_frame_def)
    next
      case False
      then show ?thesis
        using st True len unfolding todo
        by (subst chunked_todo_def) (auto simp: c1_def piece_def n_def add.commute)
    qed
    ultimately show ?thesis
      using True b' nd ne run st
      by (auto simp: chunked_out_def room_def [symmetric] Let_def c1_def [symmetric] todo piece_def [symmetric] n_def [symmetric])
        (simp_all add: c1_def)
  next
    case False
    define c1 where "c1 = c\<lparr>chunked_buf := b', chunked_state := HTTP_MODULE_CHUNKED_DATA, state_pos := 0\<rparr>"
    have run: "chunked_loop m c0 p = chunked_loop m c1 p"
      using False b'(1) pk len h(1) sp by (subst chunked_loop.simps) (simp add: eq chunked_size_def c1_def)
    have "0 < n"
      using ne by (simp add: n_def)
    moreover have "n < 2 ^ 63"
      using rd length_unread [OF rd] by (auto simp: n_def readable_def)
    ultimately have n: "0 < n" "n < 2 ^ 63" .
    have inv1: "chunked_inv c1 p"
      using inv nd h(6) n by (simp add: chunked_inv_def c1_def n_def)
    have fl1: "filled (chunked_buf c1) (xs @ piece)" and cap: "capacity (chunked_buf c1) = capacity (chunked_buf c)"
      using b' False by (simp_all add: c1_def)
    have "returns (chunked_loop m c1 p) (\<lambda>(ok, c', p'). ok \<and> chunked_out c1 p (xs @ piece) c' p')"
      by (rule chunked_data_out [OF inv1 _ fl1]) (simp add: c1_def)
    moreover have "chunked_todo c1 p = unread p @ [CHR 0x0D, CHR 0x0A] @ fin (is_last p)" "chunked_cont c1 = chunked_cont c"
      by (simp_all add: chunked_todo_def c1_def)
    moreover from this have "chunked_todo c p = piece @ chunked_todo c1 p"
      by (simp add: todo piece_def n_def)
    ultimately show ?thesis
      unfolding run using False rd cap
      by (elim returns_mono) (auto simp: room_def intro!: chunked_out_step [where ?p1.0 = p and ?c1.0 = c1 and piece = piece])
  qed
qed


lemma chunk_head_set_ok:
  assumes rd: "readable p" and hd: "chunk_head c = Some h" "length h = CHUNK_HEAD_MAX_SIZE"
  shows "\<exists>c'. chunk_head_set c p = Some (True, c') \<and> head_ok c' (length (unread p)) \<and>
    c' = c\<lparr>chunk_head := chunk_head c', chunk_head_size := chunk_head_size c', current_chunk_size := current_chunk_size c'\<rparr>"
proof -
  define n where "n = length (unread p)"
  have n: "n = bsize p - pos p" "pos p \<le> bsize p" "n < 2 ^ 63"
    using rd length_unread [OF rd] by (auto simp: n_def readable_def)
  note len = head_text_length [OF n(3)]
  have "poke h 0 (head_text n @ [nul]) = Some (head_text n @ nul # drop (Suc (length (head_text n))) h)"
    using hd(2) len by (simp add: poke_in)
  then have "chunk_head_set c p = Some (True, c\<lparr>chunk_head := Some (head_text n @ nul # drop (Suc (length (head_text n))) h),
      chunk_head_size := length (head_text n), current_chunk_size := n\<rparr>)"
    using n len hd by (simp add: chunk_head_set_def bufo_size_def Let_def)
  then show ?thesis
    using len hd by (auto simp: head_ok_def n_def [symmetric])
qed

lemma chunked_loop_out:
  assumes inv: "chunked_inv c p" and fl: "filled (chunked_buf c) xs" and nd: "\<not> chunked_done c"
  shows "returns (chunked_loop m c p) (\<lambda>(ok, c', p'). advanced p p' \<and>
    (if ok then chunked_out c p xs c' p' else \<not> never_fails m))"
proof (cases "chunked_state c")
  case HTTP_MODULE_CHUNKED_SIZE
  note st = this
  have rd: "readable p"
    using inv by (simp add: chunked_inv_def)
  have len: "length (unread p) = bsize p - pos p" "pos p \<le> bsize p"
    using rd length_unread [OF rd] by (auto simp: readable_def)
  consider (mid) "0 < state_pos c" | (empty) "state_pos c = 0" "unread p = []" "\<not> is_last p"
    | (last) "state_pos c = 0" "unread p = []" "is_last p" | (start) "state_pos c = 0" "unread p \<noteq> []"
    by auto
  then show ?thesis
  proof cases
    case mid
    then have "returns (chunked_loop m c p) (\<lambda>(ok, c', p'). ok \<and> chunked_out c p xs c' p')"
      using inv st fl by (intro chunked_size_out) (auto simp: chunked_inv_def chunked_todo_def chunked_step_def)
    then show ?thesis
      by (elim returns_mono) (auto simp: chunked_out_def Let_def)
  next
    case empty
    then have "chunked_loop m c p = Some (True, c, p)"
      using st len by (subst chunked_loop.simps) (simp add: chunked_step_def bufo_size_def)
    then show ?thesis
      using empty inv st nd fl by (simp add: chunked_out_def Let_def chunked_todo_def chunk_frame_def fin_def)
  next
    case last
    define c1 where "c1 = c\<lparr>chunked_state := HTTP_MODULE_CHUNKED_END\<rparr>"
    have run: "chunked_loop m c p = chunked_loop m c1 p"
      using st len last by (subst chunked_loop.simps) (simp add: chunked_step_def bufo_size_def c1_def)
    have "returns (chunked_loop m c1 p) (\<lambda>(ok, c', p'). ok \<and> chunked_out c1 p xs c' p')"
      using inv last fl nd st by (intro chunked_end_out) (auto simp: c1_def chunked_inv_def)
    moreover have "chunked_todo c p = chunked_todo c1 p"
      using last st nd by (simp add: chunked_todo_def chunk_frame_def fin_def c1_def)
    ultimately show ?thesis
      unfolding run by (elim returns_mono) (auto simp: chunked_out_def Let_def c1_def)
  next
    case start
    have step: "chunked_step m c p = do {
        (ok, c1) \<leftarrow> chunked_update_state m c p;
        (if \<not> ok then Some (Some False, c1, p) else chunked_size c1 p) }"
      using st len start by (auto simp: chunked_step_def bufo_size_def)
    define c0 where "c0 = c\<lparr>chunked_state := HTTP_MODULE_CHUNKED_SIZE, state_pos := 0\<rparr>"
    show ?thesis
    proof (cases "chunk_head c = None \<and> malloc m CHUNK_HEAD_MAX_SIZE = None")
      case True
      then have "chunked_loop m c p = Some (False, c0, p)" "\<not> never_fails m"
        using step malloc_never_fails [of m CHUNK_HEAD_MAX_SIZE]
        by (subst chunked_loop.simps, simp add: chunked_update_state_def chunk_head_create_def c0_def Let_def, auto)
      then show ?thesis
        by simp
    next
      case False
      have "\<exists>h. chunked_update_state m c p = chunk_head_set (c0\<lparr>chunk_head := Some h\<rparr>) p \<and> length h = CHUNK_HEAD_MAX_SIZE"
      proof (cases "chunk_head c")
        case None
        with False obtain h where "malloc m CHUNK_HEAD_MAX_SIZE = Some h"
          by auto
        with None malloc_length [OF this] show ?thesis
          by (intro exI [of _ h]) (simp add: chunked_update_state_def chunk_head_create_def c0_def Let_def)
      next
        case (Some h)
        then have "c0\<lparr>chunk_head := Some h\<rparr> = c0"
          by (simp add: c0_def)
        moreover have "chunked_update_state m c p = chunk_head_set c0 p"
          using Some by (simp add: chunked_update_state_def c0_def Let_def)
        ultimately show ?thesis
          using Some inv by (intro exI [of _ h]) (simp add: chunked_inv_def)
      qed
      then obtain h where h: "chunked_update_state m c p = chunk_head_set (c0\<lparr>chunk_head := Some h\<rparr>) p" "length h = CHUNK_HEAD_MAX_SIZE"
        by blast
      obtain c1 where c1: "chunk_head_set (c0\<lparr>chunk_head := Some h\<rparr>) p = Some (True, c1)" "head_ok c1 (length (unread p))"
          "c1 = c0\<lparr>chunk_head := chunk_head c1, chunk_head_size := chunk_head_size c1, current_chunk_size := current_chunk_size c1\<rparr>"
        using chunk_head_set_ok [OF rd, of "c0\<lparr>chunk_head := Some h\<rparr>" h] h(2) by auto
      have fs: "chunked_state c1 = HTTP_MODULE_CHUNKED_SIZE" "state_pos c1 = 0" "chunked_buf c1 = chunked_buf c"
          "chunked_done c1 = chunked_done c" "chunked_cont c1 = chunked_cont c"
        by (subst c1(3), simp add: c0_def)+
      have inv1: "chunked_inv c1 p" and sz: "0 < chunk_head_size c1"
        using c1(2) nd fs rd unfolding chunked_inv_def head_ok_def by (auto simp: head_text_def)
      have "returns (chunked_loop m c p) (\<lambda>(ok, c', p'). ok \<and> chunked_out c1 p xs c' p')"
        by (rule chunked_size_out [OF inv1])
          (use fs fl c1 start sz h(1) step in \<open>simp_all add: chunked_todo_def chunk_frame_def\<close>)
      moreover have "chunked_todo c p = chunked_todo c1 p"
        using st fs start by (simp add: chunked_todo_def)
      ultimately show ?thesis
        by (elim returns_mono) (auto simp: chunked_out_def Let_def fs)
    qed
  qed
next
  case HTTP_MODULE_CHUNKED_DATA
  from chunked_data_out [OF inv this fl, of m] show ?thesis
    by (elim returns_mono) (auto simp: chunked_out_def Let_def)
next
  case HTTP_MODULE_CHUNKED_SEP
  from chunked_sep_out [OF inv this fl, of m] show ?thesis
    by (elim returns_mono) (auto simp: chunked_out_def Let_def)
next
  case HTTP_MODULE_CHUNKED_END
  from chunked_end_out [OF inv this fl nd, of m] show ?thesis
    by (elim returns_mono) (auto simp: chunked_out_def Let_def)
qed


section \<open>The chunked filter as a sink\<close>

definition frames :: "(char list \<times> bool) list \<Rightarrow> char list" where
  "frames x = concat (map (\<lambda>(d, l). chunk_frame d @ fin l) x)"

definition chunked_wire :: "char list \<Rightarrow> httpresponse \<Rightarrow> (char list \<times> bool) list \<Rightarrow> char list" where
  "chunked_wire base response x = base @ (if chunked_passes response then bytes_of x else frames x)"

text \<open>The filter handles every last buffer, and any other one whose chunk does not fill the output buffer up to or
  into the separator.\<close>

definition chunked_accepts :: "httpresponse \<Rightarrow> char list \<times> bool \<Rightarrow> bool" where
  "chunked_accepts response = (\<lambda>(d, l). chunked_passes response \<or> l \<or> d = [] \<or>
     (let n = length (head_text (length d)) + length d in n mod BUF_SIZE \<noteq> 0 \<and> Suc n mod BUF_SIZE \<noteq> 0))"

definition allocated :: "bufo \<Rightarrow> bool" where
  "allocated b \<longleftrightarrow> (\<exists>blk. bdata b = Some blk \<and> length blk = BUF_SIZE) \<and> capacity b = BUF_SIZE \<and> \<not> is_proxy b \<and> \<not> is_last b"

definition chunked_idle :: "http_module_chunked \<Rightarrow> bool" where
  "chunked_idle c \<longleftrightarrow> \<not> chunked_cont c \<and> \<not> chunked_done c \<and> chunked_state c = HTTP_MODULE_CHUNKED_SIZE \<and> state_pos c = 0 \<and>
     allocated (chunked_buf c) \<and> (\<forall>h. chunk_head c = Some h \<longrightarrow> length h = CHUNK_HEAD_MAX_SIZE)"

text \<open>The filter works on a buffer that held \<open>d\<close>: the rest of the framing is a rest of the chunk that starts at
  a multiple of the buffer size.\<close>

definition chunked_at :: "char list \<times> bool \<Rightarrow> http_module_chunked \<Rightarrow> bufo \<Rightarrow> bool" where
  "chunked_at d c p \<longleftrightarrow> chunked_inv c p \<and> allocated (chunked_buf c) \<and> snd d = is_last p \<and>
     (\<exists>j. chunked_todo c p = drop (j * BUF_SIZE) (chunk_frame (fst d) @ fin (snd d))) \<and>
     (chunked_done c \<longleftrightarrow> is_last p \<and> chunked_todo c p = []) \<and>
     (chunked_todo c p = [] \<longrightarrow> unread p = [] \<and> (\<not> is_last p \<longrightarrow> chunked_state c = HTTP_MODULE_CHUNKED_SIZE \<and> state_pos c = 0))"

definition chunked_ready :: "httpresponse \<Rightarrow> ((char list \<times> bool) list \<Rightarrow> 's \<Rightarrow> bool) \<Rightarrow>
    (char list \<times> bool) list \<Rightarrow> http_module_chunked \<times> 's \<Rightarrow> bool" where
  "chunked_ready response ready x = (\<lambda>(c, s).
     if chunked_passes response then ready x s
     else (\<exists>x'. ready x' s \<and> open_list x' \<and> bytes_of x' = frames x) \<and> (open_list x \<longrightarrow> chunked_idle c))"

definition chunked_sending :: "((char list \<times> bool) list \<Rightarrow> char list \<times> bool \<Rightarrow> 's \<Rightarrow> bufo \<Rightarrow> bool) \<Rightarrow>
    (char list \<times> bool) list \<Rightarrow> char list \<times> bool \<Rightarrow> http_module_chunked \<times> 's \<Rightarrow> bufo \<Rightarrow> bool" where
  "chunked_sending busy x d = (\<lambda>(c, s) p. chunked_at d c p \<and>
     (\<exists>x' y. busy x' (y, False) s (chunked_buf c) \<and> open_list x' \<and>
        bytes_of x' @ y @ chunked_todo c p = frames (x @ [d])))"

definition chunked_busy :: "httpresponse \<Rightarrow> ((char list \<times> bool) list \<Rightarrow> 's \<Rightarrow> bool) \<Rightarrow>
    ((char list \<times> bool) list \<Rightarrow> char list \<times> bool \<Rightarrow> 's \<Rightarrow> bufo \<Rightarrow> bool) \<Rightarrow>
    (char list \<times> bool) list \<Rightarrow> char list \<times> bool \<Rightarrow> http_module_chunked \<times> 's \<Rightarrow> bufo \<Rightarrow> bool" where
  "chunked_busy response ready busy x d = (\<lambda>(c, s) p.
     if chunked_passes response then busy x d s p
     else chunked_accepts response d \<and> readable p \<and> open_list x \<and>
       (if chunked_cont c then chunked_sending busy x d (c, s) p
        else chunked_idle c \<and> chunked_ready response ready x (c, s) \<and> d = (unread p, is_last p)))"

definition chunked_net :: "('s \<Rightarrow> net) \<Rightarrow> http_module_chunked \<times> 's \<Rightarrow> net" where
  "chunked_net net_of = (\<lambda>(c, s). net_of s)"

definition chunked_refill :: "(send_answer list \<Rightarrow> 's \<Rightarrow> 's) \<Rightarrow> send_answer list \<Rightarrow> http_module_chunked \<times> 's \<Rightarrow> http_module_chunked \<times> 's" where
  "chunked_refill refill as = (\<lambda>(c, s). (c, refill as s))"

lemma frames_simps [simp]: "frames [] = []" "frames (x @ y) = frames x @ frames y" "frames [(d, l)] = chunk_frame d @ fin l"
  by (simp_all add: frames_def)

lemma allocated_filled: "allocated b \<Longrightarrow> filled (bufo_reset_size (bufo_reset_pos b)) []"
  by (auto simp: allocated_def filled_def bufo_reset_size_def bufo_reset_pos_def BUF_SIZE_def max_capacity_def)

lemma filled_allocated: "filled b xs \<Longrightarrow> capacity b = BUF_SIZE \<Longrightarrow> allocated (bufo_reset_pos b)"
  by (auto simp: allocated_def filled_def bufo_reset_pos_def)

lemma advanced_allocated: "advanced b b' \<Longrightarrow> allocated b \<Longrightarrow> allocated b'"
  by (auto simp: advanced_def allocated_def)

lemma chunked_fields [simp]:
  "chunked_inv (c\<lparr>chunked_buf := b\<rparr>) p = chunked_inv c p" "chunked_todo (c\<lparr>chunked_buf := b\<rparr>) p = chunked_todo c p"
  "chunked_inv (c\<lparr>chunked_cont := k\<rparr>) p = chunked_inv c p" "chunked_todo (c\<lparr>chunked_cont := k\<rparr>) p = chunked_todo c p"
  by (simp_all add: chunked_inv_def chunked_todo_def head_ok_def split: chunked_state.split)

lemma chunked_at_fields:
  "chunked_at d (c\<lparr>chunked_cont := k\<rparr>) p = chunked_at d c p"
  "chunked_at d c p \<Longrightarrow> allocated b \<Longrightarrow> chunked_at d (c\<lparr>chunked_buf := b\<rparr>) p"
  by (auto simp: chunked_at_def)

text \<open>At the end of a buffer that is not the last nothing is left to frame.\<close>

lemma chunked_at_end:
  assumes "chunked_at d c p" and "unread p = []" and "\<not> is_last p" and acc: "chunked_accepts response d" "\<not> chunked_passes response"
  shows "chunked_todo c p = []"
proof (rule ccontr)
  assume ne: "chunked_todo c p \<noteq> []"
  obtain j where j: "chunked_todo c p = drop (j * BUF_SIZE) (chunk_frame (fst d))" "\<not> snd d"
    using assms(1,3) by (auto simp: chunked_at_def fin_def)
  have "length (chunked_todo c p) = 1 \<or> length (chunked_todo c p) = 2"
    using assms(1-3) ne unfolding chunked_at_def chunked_inv_def
    by (auto simp: chunked_todo_def fin_def chunk_frame_def split: chunked_state.splits)
  moreover have dne: "fst d \<noteq> []"
    using j ne by (auto simp: chunk_frame_def)
  moreover define n where "n = length (head_text (length (fst d))) + length (fst d)"
  moreover have "length (chunk_frame (fst d)) = n + 2"
    using dne by (simp add: chunk_frame_def n_def)
  ultimately have "n + 2 - j * BUF_SIZE = 1 \<or> n + 2 - j * BUF_SIZE = 2"
    unfolding j(1) by simp
  then have "Suc n = j * BUF_SIZE \<or> n = j * BUF_SIZE"
    by auto
  moreover have "n mod BUF_SIZE \<noteq> 0" "Suc n mod BUF_SIZE \<noteq> 0"
    using acc j(2) dne by (auto simp: chunked_accepts_def n_def Let_def split_beta)
  ultimately show False
    by auto
qed


locale chunked_over = byte_sink +
  fixes m :: allocator and response :: httpresponse
begin

abbreviation post :: "(char list \<times> bool) list \<Rightarrow> char list \<times> bool \<Rightarrow> http_module_chunked \<times> 'a \<Rightarrow> bufo \<Rightarrow>
    cwf \<times> (http_module_chunked \<times> 'a) \<times> bufo \<Rightarrow> bool" where
  "post \<equiv> sink_post (chunked_net net_of) (chunked_ready response ready) (chunked_busy response ready busy)
     (chunked_wire base response) (reliable \<and> never_fails m)"

lemma post_step:
  assumes "post x d (c1, s1) p1 t" and "advanced p p1" and "readable p" and "net_step (net_of s) (net_of s1)"
  shows "post x d (c, s) p t"
  using assms advanced_trans [OF assms(3,2)] net_step_trans [OF assms(4)] net_step_breaks [OF assms(4)]
  unfolding sink_post_def by (auto simp: chunked_net_def)

text \<open>The second half of a round: what is in the output buffer is passed on.\<close>

lemma chunked_send:
  assumes np: "\<not> chunked_passes response" and acc: "chunked_accepts response d"
    and at: "chunked_sending busy x d (c, s) p" and ol: "open_list x"
    and again: "\<And>c2 s2 x'. chunked_at d c2 p \<Longrightarrow> \<not> chunked_done c2 \<Longrightarrow> chunked_todo c2 p = chunked_todo c p \<Longrightarrow>
      chunked_todo c p \<noteq> [] \<Longrightarrow> ready x' s2 \<Longrightarrow> open_list x' \<Longrightarrow> bytes_of x' @ chunked_todo c2 p = frames (x @ [d]) \<Longrightarrow>
      returns (chunked_body_loop handler m False c2 s2 p) (post x d (c2, s2) p)"
  shows "returns (chunked_body_loop handler m True c s p) (post x d (c, s) p)"
proof -
  have cat: "chunked_at d c p"
    using at by (simp add: chunked_sending_def)
  then have rp: "readable p"
    by (simp add: chunked_at_def chunked_inv_def)
  obtain x' y where b: "busy x' (y, False) s (chunked_buf c)" "open_list x'" "bytes_of x' @ y @ chunked_todo c p = frames (x @ [d])"
    using at by (auto simp: chunked_sending_def)
  from handle [OF b(1)] obtain r s1 b1 where h: "handler s (chunked_buf c) = Some (r, s1, b1)"
      "sink_post net_of ready busy wire reliable x' (y, False) s (chunked_buf c) (r, s1, b1)"
    by (auto elim!: returnsE)
  have adv: "advanced (chunked_buf c) b1" and ns: "net_step (net_of s) (net_of s1)"
    using h(2) by (simp_all add: sink_post_def)
  have al: "allocated b1"
    using cat by (auto simp: chunked_at_def intro: advanced_allocated [OF adv])
  define c2 where "c2 = c\<lparr>chunked_buf := b1, chunked_cont := False\<rparr>"
  have c2: "chunked_todo c2 p = chunked_todo c p" "chunked_at d c2 p" "chunked_done c2 = chunked_done c"
    using chunked_at_fields(2) [OF cat al] by (simp_all add: c2_def chunked_at_fields(1))
  have wire1: "wire (x' @ [(y, False)]) @ chunked_todo c p = base @ frames (x @ [d])" "open_list (x' @ [(y, False)])"
    using b(2,3) by (simp_all add: wire_eq open_list_def)
  have run: "chunked_body_loop handler m True c s p =
      (if r = CWF_DATA_AGAIN then
         if chunked_done c then Some (r, (c2, s1), p)
         else if pos p < bsize p \<or> is_last p then chunked_body_loop handler m False c2 s1 p
         else Some (r, (c2, s1), p)
       else Some (r, (c2\<lparr>chunked_cont := (r = CWF_EVENT_AGAIN)\<rparr>, s1), p))"
    using h(1) by (subst chunked_body_loop.simps) (simp add: c2_def Let_def)
  have fw: "chunked_wire base response (x @ [d]) = base @ frames (x @ [d])"
    using np by (simp add: chunked_wire_def)
  consider (data) "r = CWF_DATA_AGAIN" "ready (x' @ [(y, False)]) s1"
    | (event) rest where "r = CWF_EVENT_AGAIN" "busy x' (y, False) s1 b1" "answers (net_of s1) = []" "rest \<noteq> []"
        "sent (net_of s1) @ rest = wire (x' @ [(y, False)])"
    | (error) rest where "r = CWF_ERROR" "breaks (answers (net_of s)) \<or> \<not> reliable" "sent (net_of s1) @ rest = wire (x' @ [(y, False)])"
    using h(2) unfolding sink_post_def by auto
  then show ?thesis
  proof cases
    case data
    show ?thesis
    proof (cases "chunked_todo c p = []")
      case True
      then have un: "unread p = []" and pb: "\<not> pos p < bsize p"
        using cat length_unread [OF rp] by (auto simp: chunked_at_def)
      have dn: "chunked_done c = is_last p" and sn: "snd d = is_last p"
        using cat True by (auto simp: chunked_at_def)
      have "chunked_idle c2" if "\<not> is_last p"
        using that cat al True dn by (auto simp: chunked_idle_def chunked_at_def c2_def chunked_inv_def)
      then have "chunked_ready response ready (x @ [d]) (c2, s1)"
        using np data wire1 True sn by (auto simp: chunked_ready_def wire_eq open_list_def split_beta)
      then show ?thesis
        using run data dn pb un ns by (auto simp: sink_post_def chunked_net_def)
    next
      case False
      then have nd: "\<not> chunked_done c"
        using cat by (auto simp: chunked_at_def)
      have "pos p < bsize p \<or> is_last p"
        using chunked_at_end [OF cat _ _ acc np] False length_unread [OF rp] by (metis diff_is_0_eq length_0_conv not_le)
      then have "chunked_body_loop handler m True c s p = chunked_body_loop handler m False c2 s1 p"
        using run data nd by simp
      moreover have "returns (chunked_body_loop handler m False c2 s1 p) (post x d (c2, s1) p)"
        by (rule again [OF c2(2) _ c2(1) False data(2) wire1(2)]) (use nd c2 wire1 in \<open>simp_all add: wire_eq\<close>)
      ultimately show ?thesis
        by (auto elim!: returns_mono intro: post_step [OF _ advanced_refl rp ns])
    qed
  next
    case event
    define c3 where "c3 = c2\<lparr>chunked_cont := True\<rparr>"
    have "chunked_at d c3 p"
      using c2(2) by (simp add: c3_def chunked_at_fields(1))
    then have "chunked_sending busy x d (c3, s1) p"
      using event(2) b(2,3) c2(1) unfolding chunked_sending_def
      by (auto simp: c3_def c2_def intro!: exI [of _ x'] exI [of _ y])
    then have "chunked_busy response ready busy x d (c3, s1) p"
      using np acc rp ol by (simp add: chunked_busy_def c3_def)
    moreover have "chunked_body_loop handler m True c s p = Some (r, (c3, s1), p)"
      using run event(1) by (simp add: c3_def)
    moreover have "\<exists>rest. rest \<noteq> [] \<and> sent (net_of s1) @ rest = base @ frames (x @ [d])"
      using event(4,5) wire1(1) by (intro exI [of _ "rest @ chunked_todo c p"]) (simp flip: append_assoc)
    ultimately show ?thesis
      using ns event(1,3) fw by (auto simp: sink_post_def chunked_net_def)
  next
    case error
    have "\<exists>rest. sent (net_of s1) @ rest = base @ frames (x @ [d])"
      using error(3) wire1(1) by (intro exI [of _ "rest @ chunked_todo c p"]) (simp flip: append_assoc)
    then show ?thesis
      using run error(1,2) ns fw by (auto simp: sink_post_def chunked_net_def)
  qed
qed


text \<open>The first half: the output buffer is filled, for as long as there is something to frame.\<close>

lemma chunked_round:
  assumes np: "\<not> chunked_passes response" and acc: "chunked_accepts response d" and ol: "open_list x"
    and "chunked_at d c p" and "\<not> chunked_done c" and "ready x' s" and "open_list x'"
    and "bytes_of x' @ chunked_todo c p = frames (x @ [d])"
  shows "returns (chunked_body_loop handler m False c s p) (post x d (c, s) p)"
  using assms(4-)
proof (induction "length (chunked_todo c p)" arbitrary: c s p x' rule: less_induct)
  case less
  note cat = less.prems(1)
  have inv: "chunked_inv c p" and rp: "readable p" and al: "allocated (chunked_buf c)" and cap: "capacity (chunked_buf c) = BUF_SIZE"
    using cat by (auto simp: chunked_at_def chunked_inv_def allocated_def)
  define c0 where "c0 = c\<lparr>chunked_buf := bufo_reset_size (bufo_reset_pos (chunked_buf c))\<rparr>"
  have c0: "chunked_inv c0 p" "filled (chunked_buf c0) []" "\<not> chunked_done c0" "chunked_todo c0 p = chunked_todo c p"
      "capacity (chunked_buf c0) = BUF_SIZE"
    using inv allocated_filled [OF al] less.prems(2) cap by (simp_all add: c0_def bufo_reset_size_def bufo_reset_pos_def)
  obtain ok c1 p1 where pr: "chunked_process m c p = Some (ok, c1, p1)" and adv: "advanced p p1"
      and out: "if ok then chunked_out c0 p [] c1 p1 else \<not> never_fails m"
    using chunked_loop_out [OF c0(1-3), of m] by (auto simp: chunked_process_def c0_def elim!: returnsE)
  have sent: "sent (net_of s) @ chunked_todo c p = base @ frames (x @ [d])"
    using ready_sent [OF less.prems(3)] less.prems(5) by (simp add: wire_eq)
  show ?case
  proof (cases ok)
    case False
    then have "chunked_body_loop handler m False c s p = Some (CWF_ERROR, (c1, s), p1)"
      using pr by (subst chunked_body_loop.simps) simp
    then show ?thesis
      using False out adv sent np by (auto simp: sink_post_def chunked_net_def chunked_wire_def)
  next
    case True
    define c2 where "c2 = c1\<lparr>chunked_buf := bufo_reset_pos (chunked_buf c1)\<rparr>"
    have run: "chunked_body_loop handler m False c s p = chunked_body_loop handler m True c2 s p1"
      using pr True by (subst chunked_body_loop.simps, subst (2) chunked_body_loop.simps) (simp add: c2_def)
    define T where "T = chunked_todo c p"
    have o: "chunked_inv c1 p1" "filled (chunked_buf c1) (take BUF_SIZE T)" "chunked_todo c1 p1 = drop BUF_SIZE T"
        "capacity (chunked_buf c1) = BUF_SIZE" "chunked_done c1 \<longleftrightarrow> is_last p \<and> chunked_todo c1 p1 = []"
        "chunked_todo c1 p1 = [] \<longrightarrow> unread p1 = []"
        "chunked_todo c1 p1 = [] \<and> \<not> is_last p \<longrightarrow> chunked_state c1 = HTTP_MODULE_CHUNKED_SIZE \<and> state_pos c1 = 0"
      using out True c0(4,5) by (auto simp: chunked_out_def Let_def T_def)
    have lst: "is_last p1 = is_last p"
      by (rule advanced_fields(4) [OF adv])
    obtain j where j: "T = drop (j * BUF_SIZE) (chunk_frame (fst d) @ fin (snd d))" "snd d = is_last p"
      using cat unfolding chunked_at_def T_def by blast
    have "drop BUF_SIZE T = drop (Suc j * BUF_SIZE) (chunk_frame (fst d) @ fin (snd d))"
      unfolding j(1) drop_drop by (simp add: add.commute)
    then have ex: "\<exists>j. chunked_todo c1 p1 = drop (j * BUF_SIZE) (chunk_frame (fst d) @ fin (snd d))"
      unfolding o(3) by blast
    have at2: "chunked_at d c2 p1"
      unfolding chunked_at_def
    proof (intro conjI)
      show "\<exists>j. chunked_todo c2 p1 = drop (j * BUF_SIZE) (chunk_frame (fst d) @ fin (snd d))"
        using ex unfolding c2_def chunked_fields .
    qed (use o j(2) lst filled_allocated [OF o(2,4)] in \<open>simp_all add: c2_def\<close>)
    have rb: "readable (chunked_buf c2)" "unread (chunked_buf c2) = take BUF_SIZE T" "is_last (chunked_buf c2) = False"
      using filled_reset(2) [OF o(2)] by (simp_all add: c2_def)
    have "busy x' (take BUF_SIZE T, False) s (chunked_buf c2)"
      using offer [OF less.prems(3) _ rb(1) accepts_all] less.prems(4) rb(2,3) by (simp add: open_list_def)
    then have snd: "chunked_sending busy x d (c2, s) p1"
      unfolding chunked_sending_def using at2 less.prems(4,5) o(3)
      by (auto simp: c2_def T_def [symmetric] intro!: exI [of _ x'] exI [of _ "take BUF_SIZE T"])
    have "returns (chunked_body_loop handler m True c2 s p1) (post x d (c2, s) p1)"
    proof (rule chunked_send [OF np acc snd ol])
      fix c3 s3 x3
      assume a: "chunked_at d c3 p1" "\<not> chunked_done c3" "chunked_todo c3 p1 = chunked_todo c2 p1" "chunked_todo c2 p1 \<noteq> []"
        "ready x3 s3" "open_list x3" "bytes_of x3 @ chunked_todo c3 p1 = frames (x @ [d])"
      have "length (chunked_todo c3 p1) < length (chunked_todo c p)"
        using a(3,4) o(3) by (simp add: c2_def T_def [symmetric] BUF_SIZE_def)
      then show "returns (chunked_body_loop handler m False c3 s3 p1) (post x d (c3, s3) p1)"
        by (rule less.hyps [OF _ a(1,2,5-7)])
    qed
    then show ?thesis
      unfolding run by (elim returns_mono post_step [OF _ adv rp]) simp
  qed
qed

lemma http_chunked_body_spec:
  assumes "chunked_busy response ready busy x d (c, s) p"
  shows "returns (http_chunked_body handler m response (c, s) p) (post x d (c, s) p)"
proof (cases "chunked_passes response")
  case True
  then have "busy x d s p"
    using assms(1) by (simp add: chunked_busy_def)
  from handle [OF this] obtain r s1 p1 where h: "handler s p = Some (r, s1, p1)"
      "sink_post net_of ready busy wire reliable x d s p (r, s1, p1)"
    by (auto elim!: returnsE)
  then show ?thesis
    using True unfolding sink_post_def
    by (auto simp: http_chunked_body_def chunked_net_def chunked_ready_def chunked_busy_def chunked_wire_def wire_eq)
next
  case False
  note np = this
  then have acc: "chunked_accepts response d" and rp: "readable p" and ol: "open_list x"
    using assms(1) by (simp_all add: chunked_busy_def)
  show ?thesis
  proof (cases "chunked_cont c")
    case True
    then have snd: "chunked_sending busy x d (c, s) p"
      using assms(1) False by (simp add: chunked_busy_def)
    have "returns (chunked_body_loop handler m True c s p) (post x d (c, s) p)"
      by (rule chunked_send [OF np acc snd ol]) (rule chunked_round [OF np acc ol])
    then show ?thesis
      using True False by (simp add: http_chunked_body_def)
  next
    case False
    then have i: "chunked_idle c" "chunked_ready response ready x (c, s)" "d = (unread p, is_last p)"
      using assms(1) np by (simp_all add: chunked_busy_def)
    then obtain x' where x': "ready x' s" "open_list x'" "bytes_of x' = frames x"
      using np by (auto simp: chunked_ready_def)
    define c1 where "c1 = c\<lparr>chunked_buf := bufo_reset_pos (chunked_buf c)\<rparr>"
    have td: "chunked_todo c1 p = chunk_frame (unread p) @ fin (is_last p)"
      using i(1) by (simp add: chunked_todo_def c1_def chunked_idle_def)
    have al: "allocated (chunked_buf c1)"
      using i(1) by (simp add: chunked_idle_def c1_def allocated_def bufo_reset_pos_def)
    have "end_text \<noteq> []"
      by (simp add: end_text_def)
    then have "chunked_at d c1 p"
      using i(1) rp al td unfolding chunked_at_def i(3)
      by (auto simp: chunked_idle_def c1_def chunked_inv_def fin_def chunk_frame_def intro!: exI [of _ 0])
    then have "returns (chunked_body_loop handler m False c1 s p) (post x d (c1, s) p)"
      by (rule chunked_round [OF np acc ol _ _ x'(1,2)])
        (use i(1,3) x'(3) td in \<open>simp_all add: c1_def chunked_idle_def\<close>)
    moreover have "post x d (c1, s) p = post x d (c, s) p"
      by (simp add: sink_post_def chunked_net_def)
    ultimately show ?thesis
      using False np by (simp add: http_chunked_body_def c1_def)
  qed
qed

sublocale chunked: body_sink "http_chunked_body handler m response" "chunked_net net_of" "chunked_refill refill"
  "chunked_ready response ready" "chunked_busy response ready busy" "chunked_wire base response" "\<lambda>_. chunked_accepts response"
  "reliable \<and> never_fails m"
proof unfold_locales
  fix x s
  show "chunked_ready response ready x s \<Longrightarrow> sent (chunked_net net_of s) = chunked_wire base response x"
    using ready_sent by (cases s) (auto simp: chunked_ready_def chunked_net_def chunked_wire_def wire_eq split: if_splits)
  fix b
  show "chunked_ready response ready x s \<Longrightarrow> open_list x \<Longrightarrow> readable b \<Longrightarrow>
      chunked_accepts response (unread b, is_last b) \<Longrightarrow> chunked_busy response ready busy x (unread b, is_last b) s b"
    using offer [OF _ _ _ accepts_all]
    by (cases s) (auto simp: chunked_busy_def chunked_ready_def chunked_idle_def split: if_splits)
  fix d
  show "chunked_busy response ready busy x d s b \<Longrightarrow> readable b"
    using busy_readable by (cases s) (auto simp: chunked_busy_def split: if_splits)
  show "\<exists>z. chunked_wire base response (x @ y) = chunked_wire base response x @ z" for y
    by (simp add: chunked_wire_def)
  fix as
  show "chunked_busy response ready busy x d s b \<Longrightarrow> chunked_busy response ready busy x d (chunked_refill refill as s) b"
    using refill_busy refill_ready
    by (cases s) (auto simp: chunked_busy_def chunked_refill_def chunked_ready_def chunked_sending_def, metis+)
  show "chunked_ready response ready x s \<Longrightarrow> chunked_ready response ready x (chunked_refill refill as s)"
    using refill_ready by (cases s) (auto simp: chunked_refill_def chunked_ready_def, metis+)
  show "chunked_busy response ready busy x d s b \<Longrightarrow> returns (http_chunked_body handler m response s b)
      (sink_post (chunked_net net_of) (chunked_ready response ready) (chunked_busy response ready busy)
        (chunked_wire base response) (reliable \<and> never_fails m) x d s b)"
    by (cases s) (simp add: http_chunked_body_spec)
qed (simp_all add: chunked_net_def chunked_refill_def refill_net split_beta)

end


interpretation chw: chunked_over http_write_body "\<lambda>n. n" net_refill "write_ready base" "write_busy base" "write_wire base"
    "\<lambda>_ _. True" True base m response
  for base m response
  by unfold_locales


section \<open>A lost buffer\<close>

lemma wr_takes:
  assumes "readable b" and "unread b \<noteq> []" and "length (unread b) \<le> BUF_SIZE" and "length (unread b) \<le> Suc k"
    and "answers n = Wrote k # as"
  shows "wr n b = Some (CWF_OK, n\<lparr>answers := as, sent := sent n @ unread b\<rparr>, b\<lparr>pos := bsize b\<rparr>)"
proof -
  define u where "u = unread b"
  note ch = chunk_of_unread [OF assms(1), folded u_def]
  have len: "pos b + length u = bsize b"
    using assms(1) length_unread [OF assms(1)] by (auto simp: u_def readable_def)
  have u: "0 < length u" "bufo_chunk_size b BUF_SIZE = length u" "min (Suc k) (length u) = length u"
    using assms(2-4) by (simp_all add: ch(1) u_def min_def)
  have "Option.bind (bufo_data b) (\<lambda>blk. peek blk 0 (length u)) = Some u"
    using ch(2) [of "length u"] by simp
  then have "wr n b = wr (n\<lparr>answers := as, sent := sent n @ u\<rparr>) (b\<lparr>pos := bsize b\<rparr>)"
    using u ch(3) [of "length u"] len assms(5)
    by (subst wr.simps) (auto simp: net_write_def Let_def split: Option.bind_splits)
  also have "\<dots> = Some (CWF_OK, n\<lparr>answers := as, sent := sent n @ u\<rparr>, b\<lparr>pos := bsize b\<rparr>)"
    by (subst wr.simps) (simp add: bufo_chunk_size_def)
  finally show ?thesis
    by (simp add: u_def)
qed

text \<open>One round of the loop when the socket takes everything.\<close>

lemma chunked_body_round:
  assumes pr: "chunked_process m c p = Some (True, c1, p1)" and fl: "filled (chunked_buf c1) ys"
    and ne: "ys \<noteq> []" "length ys \<le> BUF_SIZE" "length ys \<le> Suc k" and an: "answers n = Wrote k # as"
    and stop: "chunked_done c1 \<or> \<not> (pos p1 < bsize p1 \<or> is_last p1)"
  shows "\<exists>b. chunked_body_loop http_write_body m False c n p =
    Some (CWF_DATA_AGAIN, (c1\<lparr>chunked_buf := b, chunked_cont := False\<rparr>, n\<lparr>answers := as, sent := sent n @ ys\<rparr>), p1) \<and>
    (capacity (chunked_buf c1) = BUF_SIZE \<longrightarrow> allocated b)"
proof -
  let ?b = "bufo_reset_pos (chunked_buf c1)"
  have b: "readable ?b" "unread ?b = ys"
    using filled_reset(2) [OF fl] by auto
  have "http_write_body n ?b = Some (CWF_DATA_AGAIN, n\<lparr>answers := as, sent := sent n @ ys\<rparr>, ?b\<lparr>pos := bsize ?b\<rparr>)"
    using wr_takes [OF b(1) _ _ _ an] b(2) ne by (simp add: http_write_body_def)
  moreover have "capacity (chunked_buf c1) = BUF_SIZE \<longrightarrow> allocated (?b\<lparr>pos := bsize ?b\<rparr>)"
    using filled_allocated [OF fl] by (simp add: allocated_def)
  ultimately show ?thesis
    using pr stop by (subst chunked_body_loop.simps) (auto simp: Let_def)
qed

lemma chunked_todo_sep:
  assumes inv: "chunked_inv c p" and nl: "\<not> is_last p" and len: "length (chunked_todo c p) = 2"
  shows "chunked_state c = HTTP_MODULE_CHUNKED_SEP \<and> state_pos c = 0 \<and> unread p = []"
proof (cases "chunked_state c")
  case HTTP_MODULE_CHUNKED_SIZE
  have "2 < length (chunked_todo c p) \<or> chunked_todo c p = []"
    using inv HTTP_MODULE_CHUNKED_SIZE nl by (cases "unread p") (auto simp: chunked_todo_def chunked_inv_def chunk_frame_def fin_def)
  with len show ?thesis
    by auto
next
  case HTTP_MODULE_CHUNKED_DATA
  then have "unread p \<noteq> []"
    using inv by (auto simp: chunked_inv_def)
  then show ?thesis
    using HTTP_MODULE_CHUNKED_DATA len by (cases "unread p") (simp_all add: chunked_todo_def)
next
  case HTTP_MODULE_CHUNKED_SEP
  then show ?thesis
    using inv len nl by (simp add: chunked_todo_def chunked_inv_def fin_def)
next
  case HTTP_MODULE_CHUNKED_END
  then show ?thesis
    using inv nl by (simp add: chunked_inv_def)
qed

text \<open>In the separator state a last buffer is taken for one that is used up.\<close>

lemma chunked_sep_drops:
  assumes st: "chunked_state c = HTTP_MODULE_CHUNKED_SEP" "state_pos c = 0" and lst: "is_last q" and al: "allocated (chunked_buf c)"
  shows "\<exists>c'. chunked_process m c q = Some (True, c', q) \<and> chunked_done c' \<and>
    filled (chunked_buf c') ([CHR 0x0D, CHR 0x0A] @ end_text)"
proof -
  define c0 where "c0 = c\<lparr>chunked_buf := bufo_reset_size (bufo_reset_pos (chunked_buf c))\<rparr>"
  have cap: "capacity (chunked_buf c0) = BUF_SIZE" and fl: "filled (chunked_buf c0) []"
    using al allocated_filled [OF al] by (simp_all add: c0_def allocated_def bufo_reset_size_def bufo_reset_pos_def)
  obtain b1 where b1: "chunked_append c0 [CHR 0x0D, CHR 0x0A] = Some (True, c0\<lparr>chunked_buf := b1, state_pos := 2\<rparr>)"
      "filled b1 [CHR 0x0D, CHR 0x0A]" "capacity b1 = BUF_SIZE"
    using chunked_append_filled [OF fl, of "[CHR 0x0D, CHR 0x0A]"] cap st(2)
    by (auto simp: BUF_SIZE_def c0_def numeral_2_eq_2)
  define c1 where "c1 = c0\<lparr>chunked_buf := b1, state_pos := 0, chunked_state := HTTP_MODULE_CHUNKED_END\<rparr>"
  have "peek [CHR 0x0D, CHR 0x0A] 0 (szsub 2 0) = Some [CHR 0x0D, CHR 0x0A]"
    by (simp add: peek_def szsub_exact size_modulus_def)
  then have 1: "chunked_loop m c0 q = chunked_loop m c1 q"
    using b1(1) st lst by (subst chunked_loop.simps) (simp add: chunked_step_def chunked_sep_def c0_def c1_def Let_def)
  have five: "Suc (Suc (Suc (Suc (Suc 0)))) = 5"
    by simp
  obtain b2 where b2: "chunked_append c1 end_text = Some (True, c1\<lparr>chunked_buf := b2, state_pos := 5\<rparr>)"
      "filled b2 ([CHR 0x0D, CHR 0x0A] @ end_text)"
    using chunked_append_filled [of c1 "[CHR 0x0D, CHR 0x0A]" end_text] b1(2,3) five
    by (auto simp: BUF_SIZE_def c1_def end_text_def)
  have "peek end_text 0 (szsub 5 0) = Some end_text"
    by (simp add: peek_def szsub_exact size_modulus_def end_text_def)
  then have "chunked_loop m c1 q = Some (True, c1\<lparr>chunked_buf := b2, chunked_done := True, state_pos := 0\<rparr>, q)"
    using b2(1) by (subst chunked_loop.simps) (simp add: chunked_step_def chunked_end_def c1_def)
  with 1 b2(2) show ?thesis
    unfolding chunked_process_def c0_def by simp
qed

text \<open>Property C32. The chunked filter loses data. When a buffer that is not the last one holds 16378 bytes, its
  chunk head and data fill the output buffer exactly and the separator is left over. If the next buffer is the last
  one, the filter sends the separator and the terminating chunk, reports the buffer as done and never sends
  its content: the client receives a well-formed body that is cut. The sizes occur when the gzip filter passes
  on its compressed output.\<close>

theorem chunked_last_buffer_lost:
  assumes "\<not> chunked_passes response" and "chunked_idle c" and "never_fails m"
    and "readable p" and "length (unread p) = 16378" and "\<not> is_last p" and "readable q" and "is_last q"
    and "answers n = [Wrote 16383, Wrote 16383]"
  shows "\<exists>c1 n1 p1 c2 n2.
    http_chunked_body http_write_body m response (c, n) p = Some (CWF_DATA_AGAIN, (c1, n1), p1) \<and> unread p1 = [] \<and>
    http_chunked_body http_write_body m response (c1, n1) q = Some (CWF_DATA_AGAIN, (c2, n2), q) \<and>
    chunked_done c2 \<and> sent n2 = sent n @ chunk_frame (unread p) @ end_text"
proof -
  define d where "d = unread p"
  have ht: "length (head_text 16378) = 6"
    by (simp add: head_text_def hex_string.simps)
  have dl: "length d = 16378" "d \<noteq> []"
    using assms(5) unfolding d_def by auto
  define T where "T = chunk_frame d"
  have T: "length T = 16386" "drop 16384 T = [CHR 0x0D, CHR 0x0A]" "take 16384 T @ [CHR 0x0D, CHR 0x0A] = T"
    using dl ht by (simp_all add: T_def chunk_frame_def)
  have Tne: "T \<noteq> []"
    using T(1) by auto
  define c0 where "c0 = c\<lparr>chunked_buf := bufo_reset_pos (chunked_buf c)\<rparr>"
  define c00 where "c00 = c0\<lparr>chunked_buf := bufo_reset_size (bufo_reset_pos (chunked_buf c0))\<rparr>"
  have al: "allocated (chunked_buf c0)"
    using assms(2) by (auto simp: chunked_idle_def allocated_def bufo_reset_pos_def c0_def)
  have c00: "chunked_inv c00 p" "filled (chunked_buf c00) []" "\<not> chunked_done c00" "chunked_todo c00 p = T"
      "capacity (chunked_buf c00) = 16384"
    using assms(2,4,6) allocated_filled [OF al] al
    by (simp_all add: c00_def c0_def chunked_inv_def chunked_idle_def chunked_todo_def T_def d_def fin_def allocated_def
        bufo_reset_size_def bufo_reset_pos_def BUF_SIZE_def)
  obtain c1 p1 where pr: "chunked_process m c0 p = Some (True, c1, p1)" and adv: "advanced p p1"
      and out: "chunked_out c00 p [] c1 p1"
    using chunked_loop_out [OF c00(1-3), of m] assms(3) by (auto simp: chunked_process_def c00_def elim!: returnsE split: if_splits)
  have o: "chunked_inv c1 p1" "filled (chunked_buf c1) (take 16384 T)" "chunked_todo c1 p1 = [CHR 0x0D, CHR 0x0A]"
      "capacity (chunked_buf c1) = BUF_SIZE" "\<not> chunked_done c1" "chunked_cont c1 = chunked_cont c"
    using out c00(4,5) T(2) assms(6) by (simp_all add: chunked_out_def BUF_SIZE_def c00_def c0_def)
  have nl: "\<not> is_last p1"
    using advanced_fields(4) [OF adv] assms(6) by simp
  have st: "chunked_state c1 = HTTP_MODULE_CHUNKED_SEP \<and> state_pos c1 = 0 \<and> unread p1 = []"
    by (rule chunked_todo_sep [OF o(1) nl]) (simp add: o(3))
  have "\<not> (pos p1 < bsize p1 \<or> is_last p1)"
    using st nl length_unread [OF advanced_readable [OF assms(4) adv]] by simp
  then obtain b where r1: "chunked_body_loop http_write_body m False c0 n p =
      Some (CWF_DATA_AGAIN, (c1\<lparr>chunked_buf := b, chunked_cont := False\<rparr>, n\<lparr>answers := [Wrote 16383], sent := sent n @ take 16384 T\<rparr>), p1)"
      "allocated b"
    using chunked_body_round [OF pr o(2), of 16383 n "[Wrote 16383]"] assms(9) T(1) o(4) Tne by (auto simp: BUF_SIZE_def)
  define c2 where "c2 = c1\<lparr>chunked_cont := False, chunked_buf := bufo_reset_pos b\<rparr>"
  have al2: "allocated (chunked_buf c2)"
    using r1(2) by (simp add: c2_def allocated_def bufo_reset_pos_def)
  obtain c3 where pr2: "chunked_process m c2 q = Some (True, c3, q)" "chunked_done c3"
      "filled (chunked_buf c3) ([CHR 0x0D, CHR 0x0A] @ end_text)"
    using chunked_sep_drops [OF _ _ assms(8) al2, of m] st by (auto simp: c2_def)
  let ?n1 = "n\<lparr>answers := [Wrote 16383], sent := sent n @ take 16384 T\<rparr>"
  obtain b3 where r2: "chunked_body_loop http_write_body m False c2 ?n1 q = Some (CWF_DATA_AGAIN, (c3\<lparr>chunked_buf := b3, chunked_cont := False\<rparr>,
      ?n1\<lparr>answers := [], sent := (sent n @ take 16384 T) @ [CHR 0x0D, CHR 0x0A] @ end_text\<rparr>), q)"
    using chunked_body_round [OF pr2(1,3), of 16383 ?n1 "[]"] pr2(2) by (auto simp: BUF_SIZE_def end_text_def)
  have "http_chunked_body http_write_body m response (c, n) p =
      Some (CWF_DATA_AGAIN, (c1\<lparr>chunked_buf := b, chunked_cont := False\<rparr>, ?n1), p1)"
    using r1(1) assms(1,2) by (simp add: http_chunked_body_def c0_def chunked_idle_def)
  moreover have "http_chunked_body http_write_body m response (c1\<lparr>chunked_buf := b, chunked_cont := False\<rparr>, ?n1) q =
      chunked_body_loop http_write_body m False c2 ?n1 q"
    using assms(1) by (simp add: http_chunked_body_def c2_def)
  moreover have "(sent n @ take 16384 T) @ [CHR 0x0D, CHR 0x0A] @ end_text = sent n @ T @ end_text"
    by (subst (2) T(3) [symmetric]) simp
  ultimately show ?thesis
    using r2 st pr2(2) by (intro exI conjI) (assumption | simp add: T_def d_def)+
qed

definition demo_output :: bufo where
  "demo_output = \<lparr>bdata = Some (replicate BUF_SIZE nul), capacity = BUF_SIZE, bsize = 0, pos = 0, is_proxy = False, is_last = False\<rparr>"

definition demo_input :: "char list \<Rightarrow> bool \<Rightarrow> bufo" where
  "demo_input bytes l = \<lparr>bdata = Some bytes, capacity = length bytes, bsize = length bytes, pos = 0, is_proxy = True, is_last = l\<rparr>"

definition demo_chunked :: http_module_chunked where
  "demo_chunked = \<lparr>chunked_cont = False, chunked_done = False, chunked_buf = demo_output, chunked_state = HTTP_MODULE_CHUNKED_SIZE,
     state_pos = 0, chunk_head = None, chunk_head_size = 0, current_chunk_size = 0\<rparr>"

definition chunked_response :: httpresponse where
  "chunked_response = \<lparr>headers = [], content_length = 0, body = demo_output,
     rfile = \<lparr>fd = -1, file_size = 0, mtime = 0, file_content = [], pread_answers = []\<rparr>, status = 200, transfer_encoding = TE_CHUNKED,
     content_encoding = CE_NONE, headers_sended = True, range_flag = False, last_modified = False\<rparr>"

theorem chunked_last_buffer_lost_witness:
  "\<exists>c1 n1 p1 c2 n2.
    http_chunked_body http_write_body (total_allocator (\<lambda>_ _. nul)) chunked_response
      (demo_chunked, \<lparr>answers = [Wrote 16383, Wrote 16383], sent = [], event_again = False\<rparr>)
      (demo_input (replicate 16378 CHR ''a'') False) = Some (CWF_DATA_AGAIN, (c1, n1), p1) \<and>
    http_chunked_body http_write_body (total_allocator (\<lambda>_ _. nul)) chunked_response (c1, n1) (demo_input ''lost'' True) =
      Some (CWF_DATA_AGAIN, (c2, n2), demo_input ''lost'' True) \<and>
    sent n2 = head_text 16378 @ replicate 16378 CHR ''a'' @ [CHR 0x0D, CHR 0x0A] @ end_text"
proof -
  have mf: "never_fails (total_allocator (\<lambda>_ _. nul))"
    by simp
  define bytes where "bytes = replicate 16378 CHR ''a''"
  have len: "length bytes = 16378" "bytes \<noteq> []"
    by (simp_all add: bytes_def)
  have p: "readable (demo_input bytes False)" "unread (demo_input bytes False) = bytes" "\<not> is_last (demo_input bytes False)"
    using len by (simp_all add: readable_def unread_def demo_input_def)
  have q: "readable (demo_input ''lost'' True)" "is_last (demo_input ''lost'' True)"
    by (simp_all add: readable_def demo_input_def)
  have c: "\<not> chunked_passes chunked_response" "chunked_idle demo_chunked"
    by (simp_all add: chunked_passes_def chunked_response_def chunked_idle_def demo_chunked_def allocated_def demo_output_def)
  have "chunk_frame bytes = head_text 16378 @ bytes @ [CHR 0x0D, CHR 0x0A]"
    using len by (simp add: chunk_frame_def)
  then show ?thesis
    using chunked_last_buffer_lost [OF c mf p(1) _ p(3) q, of
        "\<lparr>answers = [Wrote 16383, Wrote 16383], sent = [], event_again = False\<rparr>"] len p(2)
    unfolding bytes_def by (simp; blast)
qed

end
