(* ===== verification/Http_Gzip.thy ===== *)
theory Http_Gzip
  imports Http_Filter Gzip
begin

text \<open>
  The gzip filter (protocols/http/server/filters/http_gzip_filter.c): it compresses the buffers it is offered and passes
  the output of \<open>deflate\<close> on. zlib is a parameter. The theory shows that the filter implements the contract
  \<open>body_sink\<close> on top of any other filter: what it passes on is what \<open>deflate\<close> makes of the sequence of
  buffers, whatever the socket takes at a time.
\<close>

section \<open>State\<close>

record 'z http_module_gzip =
  gzip_cont :: bool
  gzip_buf :: bufo
  gzip_state :: "'z gzip"

section \<open>Operations\<close>

definition gzip_module_create :: "'z \<Rightarrow> bufo \<Rightarrow> 'z gzip \<Rightarrow> 'z http_module_gzip" where
  "gzip_module_create zero b g = \<lparr>gzip_cont = False, gzip_buf = bufo_init b, gzip_state = gzip_init zero g\<rparr>"

definition gzip_module_reset :: "'z zlib \<Rightarrow> 'z http_module_gzip \<Rightarrow> 'z http_module_gzip" where
  "gzip_module_reset zl g = g\<lparr>gzip_cont := False, gzip_buf := bufo_flush (gzip_buf g), gzip_state := snd (gzip_free zl (gzip_state g))\<rparr>"

definition gzip_process :: "'z zlib \<Rightarrow> 'z http_module_gzip \<Rightarrow> bufo \<Rightarrow> (bool \<times> 'z http_module_gzip \<times> bufo) option" where
  "gzip_process zl g parent_buf =
     (let buf = bufo_reset_size (bufo_reset_pos (gzip_buf g));
          (out, st) = gzip_deflate zl (gzip_state g) (capacity buf) (is_last parent_buf)
      in do {
        blk \<leftarrow> bdata buf;
        blk1 \<leftarrow> poke blk (pos buf) out;
        let buf1 = buf\<lparr>bdata := Some blk1\<rparr>;
        (if gzip_deflate_has_error st then Some (False, g\<lparr>gzip_buf := buf1, gzip_state := st\<rparr>, parent_buf)
         else let processed = szsub (szsub (bsize parent_buf) (pos parent_buf)) (length (next_in st));
                  buf2 = bufo_set_size buf1 (length out);
                  (_, parent1) = bufo_move_front_pos parent_buf processed;
                  buf3 = (if gzip_want_continue st \<and> \<not> gzip_is_end st then buf2 else buf2\<lparr>is_last := is_last parent1\<rparr>)
              in Some (True, g\<lparr>gzip_buf := buf3, gzip_state := st\<rparr>, parent1))
      })"

text \<open>The loop of \<open>__body\<close>, entered at the label \<open>cont\<close> when \<open>resume\<close> is set.\<close>

partial_function (option) gzip_body_loop ::
    "('s \<Rightarrow> bufo \<Rightarrow> (cwf \<times> 's \<times> bufo) option) \<Rightarrow> 'z zlib \<Rightarrow> bool \<Rightarrow> 'z http_module_gzip \<Rightarrow> 's \<Rightarrow> bufo \<Rightarrow>
     (cwf \<times> ('z http_module_gzip \<times> 's) \<times> bufo) option" where
  "gzip_body_loop next_handler_body zl resume g s parent_buf = do {
     (ok, g1, p1) \<leftarrow>
       (if resume then Some (True, g, parent_buf)
        else do {
          (ok, g1, p1) \<leftarrow> gzip_process zl g parent_buf;
          Some (ok, if ok then g1\<lparr>gzip_buf := bufo_reset_pos (gzip_buf g1)\<rparr> else g1, p1)
        });
     (if \<not> ok then Some (CWF_ERROR, (g1, s), p1)
      else do {
        (r, s1, b) \<leftarrow> next_handler_body s (gzip_buf g1);
        let g2 = g1\<lparr>gzip_buf := b, gzip_cont := False\<rparr>;
        (if r = CWF_DATA_AGAIN then
           if gzip_want_continue (gzip_state g2) \<and> \<not> gzip_is_end (gzip_state g2)
           then gzip_body_loop next_handler_body zl False g2 s1 p1
           else if pos p1 < bsize p1 then gzip_body_loop next_handler_body zl False g2 s1 p1
           else Some (r, (g2, s1), p1)
         else Some (r, (g2\<lparr>gzip_cont := (r = CWF_EVENT_AGAIN)\<rparr>, s1), p1))
      })
   }"

definition gzip_passes :: "httpresponse \<Rightarrow> bool" where
  "gzip_passes r \<longleftrightarrow> content_encoding r = CE_NONE \<or> data_size r < 1024 \<or> last_modified r"

definition gzip_body ::
    "('s \<Rightarrow> bufo \<Rightarrow> (cwf \<times> 's \<times> bufo) option) \<Rightarrow> 'z zlib \<Rightarrow> httpresponse \<Rightarrow> 'z http_module_gzip \<times> 's \<Rightarrow> bufo \<Rightarrow>
     (cwf \<times> ('z http_module_gzip \<times> 's) \<times> bufo) option" where
  "gzip_body next_handler_body zl response = (\<lambda>(g, s) parent_buf.
     if gzip_passes response then do {
       (r, s1, b) \<leftarrow> next_handler_body s parent_buf;
       Some (r, (g, s1), b)
     }
     else if gzip_cont g then gzip_body_loop next_handler_body zl True g s parent_buf
     else do {
       blk \<leftarrow> bdata parent_buf;
       data \<leftarrow> peek blk (pos parent_buf) (szsub (bsize parent_buf) (pos parent_buf));
       gzip_body_loop next_handler_body zl False
         (g\<lparr>gzip_buf := bufo_reset_pos (gzip_buf g), gzip_state := gzip_set_in (gzip_state g) data\<rparr>) s parent_buf
     })"

section \<open>What \<open>deflate\<close> makes of a sequence of buffers\<close>

text \<open>The outputs for one buffer: \<open>deflate\<close> is called until it leaves room in the output area. \<open>None\<close> if it fails or
  never leaves room.\<close>

partial_function (option) deflated :: "'z zlib \<Rightarrow> bool \<Rightarrow> 'z gzip \<Rightarrow> ((char list \<times> bool) list \<times> 'z gzip) option" where
  "deflated zl final g =
     (let (out, g1) = gzip_deflate zl g BUF_SIZE final in
      if gzip_deflate_has_error g1 then None
      else if gzip_want_continue g1 \<and> \<not> gzip_is_end g1 then do {
        (outs, g2) \<leftarrow> deflated zl final g1;
        Some ((out, False) # outs, g2)
      }
      else if next_in g1 = [] then Some ([(out, final)], g1) else None)"

definition deflated_step :: "'z zlib \<Rightarrow> (char list \<times> bool) list \<times> 'z gzip \<Rightarrow> char list \<times> bool \<Rightarrow> (char list \<times> bool) list \<times> 'z gzip" where
  "deflated_step zl = (\<lambda>(outs, g) (d, l).
     case deflated zl l (gzip_set_in g d) of None \<Rightarrow> (outs, g) | Some (outs1, g1) \<Rightarrow> (outs @ outs1, g1))"

definition deflated_all :: "'z zlib \<Rightarrow> 'z gzip \<Rightarrow> (char list \<times> bool) list \<Rightarrow> (char list \<times> bool) list \<times> 'z gzip" where
  "deflated_all zl g x = foldl (deflated_step zl) ([], g) x"

lemma deflated_all_simps [simp]:
  "deflated_all zl g [] = ([], g)" "deflated_all zl g (x @ [e]) = deflated_step zl (deflated_all zl g x) e"
  by (simp_all add: deflated_all_def)

lemma deflated_all_prefix: "\<exists>z. fst (deflated_all zl g (x @ y)) = fst (deflated_all zl g x) @ z"
proof (induction y rule: rev_induct)
  case (snoc e y)
  then show ?case
    unfolding append_assoc [symmetric] deflated_all_simps
    by (cases e) (auto simp: deflated_step_def split: prod.splits option.splits)
qed simp

lemma deflated_last:
  assumes "deflated zl l g = Some y"
  shows "\<exists>os o1. fst y = os @ [(o1, l)] \<and> open_list os"
proof (rule deflated.raw_induct [OF _ assms, where P = "\<lambda>zl l g y. \<exists>os o1. fst y = os @ [(o1, l)] \<and> open_list os"])
  fix f :: "'a zlib \<Rightarrow> bool \<Rightarrow> 'a gzip \<Rightarrow> ((char list \<times> bool) list \<times> 'a gzip) option" and zl final g y
  assume 1: "\<And>zl l g y. f zl l g = Some y \<Longrightarrow> \<exists>os o1. fst y = os @ [(o1, l)] \<and> open_list os"
    "(let (out, g1) = gzip_deflate zl g BUF_SIZE final in
      if gzip_deflate_has_error g1 then None
      else if gzip_want_continue g1 \<and> \<not> gzip_is_end g1 then do { (outs, g2) \<leftarrow> f zl final g1; Some ((out, False) # outs, g2) }
      else if next_in g1 = [] then Some ([(out, final)], g1) else None) = Some y"
  obtain out g1 where df: "gzip_deflate zl g BUF_SIZE final = (out, g1)"
    by fastforce
  show "\<exists>os o1. fst y = os @ [(o1, final)] \<and> open_list os"
  proof (cases "gzip_want_continue g1 \<and> \<not> gzip_is_end g1")
    case True
    then obtain outs g2 where f: "f zl final g1 = Some (outs, g2)" "y = ((out, False) # outs, g2)"
      using 1(2) df by (auto split: if_splits Option.bind_splits)
    then obtain os o1 where "outs = os @ [(o1, final)]" "open_list os"
      using 1(1) [OF f(1)] by auto
    then show ?thesis
      using f(2) by (intro exI [of _ "(out, False) # os"] exI [of _ o1]) (simp add: open_list_def)
  next
    case False
    then show ?thesis
      using 1(2) df by (auto split: if_splits)
  qed
qed

section \<open>The filter as a sink\<close>

lemma deflate_bound:
  "deflate_bounded zl \<Longrightarrow> deflate zl z inp n final = (st, used, out, z') \<Longrightarrow> length out \<le> n \<and> used \<le> length inp"
  unfolding deflate_bounded_def by blast

definition gz_alloc :: "bufo \<Rightarrow> bool" where
  "gz_alloc b \<longleftrightarrow> (\<exists>blk. bdata b = Some blk \<and> length blk = BUF_SIZE) \<and> capacity b = BUF_SIZE"

lemma gz_alloc_simps [simp]: "gz_alloc (bufo_reset_pos b) = gz_alloc b"
  by (simp add: gz_alloc_def bufo_reset_pos_def)

lemma gz_alloc_advanced: "advanced b b' \<Longrightarrow> gz_alloc b' = gz_alloc b"
  by (auto simp: advanced_def gz_alloc_def)

lemma gzip_process_spec:
  assumes zl: "deflate_bounded zl" and al: "gz_alloc (gzip_buf g)" and rp: "readable p" and ni: "next_in (gzip_state g) = unread p"
    and df: "gzip_deflate zl (gzip_state g) BUF_SIZE (is_last p) = (out, st)" and ok: "\<not> gzip_deflate_has_error st"
  shows "\<exists>b p1. gzip_process zl g p = Some (True, g\<lparr>gzip_buf := b, gzip_state := st\<rparr>, p1) \<and> advanced p p1 \<and> unread p1 = next_in st \<and>
    gz_alloc b \<and> readable (bufo_reset_pos b) \<and> unread (bufo_reset_pos b) = out \<and>
    is_last b = (if gzip_want_continue st \<and> \<not> gzip_is_end st then is_last (gzip_buf g) else is_last p)"
proof -
  obtain blk where blk: "bdata (gzip_buf g) = Some blk" "length blk = BUF_SIZE" "capacity (gzip_buf g) = BUF_SIZE"
    using al by (auto simp: gz_alloc_def)
  obtain c used o2 z where d: "deflate zl (zstream (gzip_state g)) (next_in (gzip_state g)) BUF_SIZE (is_last p) = (c, used, o2, z)"
    by (cases "deflate zl (zstream (gzip_state g)) (next_in (gzip_state g)) BUF_SIZE (is_last p)")
  have bd: "length out \<le> BUF_SIZE" "used \<le> length (unread p)" "next_in st = drop used (unread p)"
    using deflate_bound [OF zl d] d df ni by (auto simp: gzip_deflate_def)
  have len: "length (unread p) = bsize p - pos p" "pos p \<le> bsize p" "bsize p < 2 ^ 63"
    using rp length_unread [OF rp] by (auto simp: readable_def)
  have sz: "szsub (szsub (bsize p) (pos p)) (length (next_in st)) = used"
    using len bd szsub_exact [of "pos p" "bsize p"] szsub_exact [of "length (next_in st)" "bsize p - pos p"]
    by (simp add: size_modulus_def)
  note ch = chunk_of_unread [OF rp, of used]
  define b where "b = (gzip_buf g)\<lparr>bdata := Some (out @ drop (length out) blk), pos := 0, bsize := length out,
     is_last := (if gzip_want_continue st \<and> \<not> gzip_is_end st then is_last (gzip_buf g) else is_last p)\<rparr>"
  have pk: "poke blk 0 out = Some (out @ drop (length out) blk)"
    using bd(1) blk(2) by (simp add: poke_in)
  have "gzip_process zl g p = Some (True, g\<lparr>gzip_buf := b, gzip_state := st\<rparr>, p\<lparr>pos := pos p + used\<rparr>)"
    using blk df ok pk sz ch(3) [OF bd(2)] bd(1)
    by (simp add: gzip_process_def Let_def bufo_reset_size_def bufo_reset_pos_def bufo_set_size_def b_def)
  then show ?thesis
    using ch(4,5) [OF bd(2)] bd blk
    by (auto simp: b_def gz_alloc_def readable_def unread_def bufo_reset_pos_def BUF_SIZE_def)
qed

definition gzip_ready :: "'z zlib \<Rightarrow> 'z gzip \<Rightarrow> httpresponse \<Rightarrow> ((char list \<times> bool) list \<Rightarrow> 's \<Rightarrow> bool) \<Rightarrow>
    (char list \<times> bool) list \<Rightarrow> 'z http_module_gzip \<times> 's \<Rightarrow> bool" where
  "gzip_ready zl g0 response ready x = (\<lambda>(g, s).
     if gzip_passes response then ready x s
     else gzip_state g = snd (deflated_all zl g0 x) \<and> ready (fst (deflated_all zl g0 x)) s \<and> gz_alloc (gzip_buf g) \<and>
       \<not> gzip_cont g \<and> (open_list x \<longrightarrow> \<not> is_last (gzip_buf g) \<and> open_list (fst (deflated_all zl g0 x))))"

definition gzip_accepts :: "'z zlib \<Rightarrow> 'z gzip \<Rightarrow> httpresponse \<Rightarrow> ((char list \<times> bool) list \<Rightarrow> char list \<times> bool \<Rightarrow> bool) \<Rightarrow>
    (char list \<times> bool) list \<Rightarrow> char list \<times> bool \<Rightarrow> bool" where
  "gzip_accepts zl g0 response accepts x = (\<lambda>(d, l).
     if gzip_passes response then accepts x (d, l)
     else deflate_bounded zl \<and> (case deflated zl l (gzip_set_in (snd (deflated_all zl g0 x)) d) of
            None \<Rightarrow> False
          | Some (outs, _) \<Rightarrow> takes accepts (fst (deflated_all zl g0 x)) outs))"

definition gzip_wire :: "'z zlib \<Rightarrow> 'z gzip \<Rightarrow> httpresponse \<Rightarrow> ((char list \<times> bool) list \<Rightarrow> char list) \<Rightarrow> (char list \<times> bool) list \<Rightarrow> char list" where
  "gzip_wire zl g0 response wire x = (if gzip_passes response then wire x else wire (fst (deflated_all zl g0 x)))"

text \<open>The filter passes the output \<open>y\<close> on; \<open>outs\<close> went before and \<open>rest\<close> will follow.\<close>

definition gzip_sending :: "'z zlib \<Rightarrow> 'z gzip \<Rightarrow> ((char list \<times> bool) list \<Rightarrow> char list \<times> bool \<Rightarrow> bool) \<Rightarrow>
    ((char list \<times> bool) list \<Rightarrow> char list \<times> bool \<Rightarrow> 's \<Rightarrow> bufo \<Rightarrow> bool) \<Rightarrow> (char list \<times> bool) list \<Rightarrow> char list \<times> bool \<Rightarrow>
    (char list \<times> bool) list \<Rightarrow> 'z http_module_gzip \<times> 's \<Rightarrow> bufo \<Rightarrow> bool" where
  "gzip_sending zl g0 accepts busy x d rest = (\<lambda>(g, s) p. \<exists>outs y gf.
     busy outs y s (gzip_buf g) \<and> open_list outs \<and> readable p \<and> is_last p = snd d \<and> gz_alloc (gzip_buf g) \<and>
     next_in (gzip_state g) = unread p \<and> deflated_all zl g0 (x @ [d]) = (outs @ y # rest, gf) \<and> takes accepts (outs @ [y]) rest \<and>
     is_last (gzip_buf g) = snd y \<and>
     (if gzip_want_continue (gzip_state g) \<and> \<not> gzip_is_end (gzip_state g)
      then deflated zl (snd d) (gzip_state g) = Some (rest, gf) \<and> \<not> snd y
      else rest = [] \<and> gf = gzip_state g \<and> unread p = [] \<and> snd y = snd d))"

definition gzip_busy :: "'z zlib \<Rightarrow> 'z gzip \<Rightarrow> httpresponse \<Rightarrow> ((char list \<times> bool) list \<Rightarrow> char list \<times> bool \<Rightarrow> bool) \<Rightarrow>
    ((char list \<times> bool) list \<Rightarrow> 's \<Rightarrow> bool) \<Rightarrow> ((char list \<times> bool) list \<Rightarrow> char list \<times> bool \<Rightarrow> 's \<Rightarrow> bufo \<Rightarrow> bool) \<Rightarrow>
    (char list \<times> bool) list \<Rightarrow> char list \<times> bool \<Rightarrow> 'z http_module_gzip \<times> 's \<Rightarrow> bufo \<Rightarrow> bool" where
  "gzip_busy zl g0 response accepts ready busy x d = (\<lambda>(g, s) p.
     if gzip_passes response then busy x d s p
     else deflate_bounded zl \<and> open_list x \<and>
       (if gzip_cont g then \<exists>rest. gzip_sending zl g0 accepts busy x d rest (g, s) p
        else gzip_ready zl g0 response ready x (g, s) \<and> readable p \<and> d = (unread p, is_last p) \<and>
          gzip_accepts zl g0 response accepts x d))"


definition gzip_net :: "('s \<Rightarrow> net) \<Rightarrow> 'z http_module_gzip \<times> 's \<Rightarrow> net" where
  "gzip_net net_of = (\<lambda>(g, s). net_of s)"

definition gzip_refill :: "(send_answer list \<Rightarrow> 's \<Rightarrow> 's) \<Rightarrow> send_answer list \<Rightarrow> 'z http_module_gzip \<times> 's \<Rightarrow> 'z http_module_gzip \<times> 's" where
  "gzip_refill refill as = (\<lambda>(g, s). (g, refill as s))"

locale gzip_over = body_sink +
  fixes zl :: "'z zlib" and g0 :: "'z gzip" and response :: httpresponse
begin

abbreviation gz_post :: "(char list \<times> bool) list \<Rightarrow> char list \<times> bool \<Rightarrow> 'z http_module_gzip \<times> 'a \<Rightarrow> bufo \<Rightarrow>
    cwf \<times> ('z http_module_gzip \<times> 'a) \<times> bufo \<Rightarrow> bool" where
  "gz_post \<equiv> sink_post (gzip_net net_of) (gzip_ready zl g0 response ready) (gzip_busy zl g0 response accepts ready busy)
     (gzip_wire zl g0 response wire) reliable"

lemma gz_post_step:
  assumes "gz_post x d (g1, s1) p1 t" and "advanced p p1" and "readable p" and "net_step (net_of s) (net_of s1)"
  shows "gz_post x d (g, s) p t"
  using assms advanced_trans [OF assms(3,2)] net_step_trans [OF assms(4)] net_step_breaks [OF assms(4)]
  unfolding sink_post_def by (auto simp: gzip_net_def)

lemma gzip_send:
  assumes np: "\<not> gzip_passes response" and snd: "gzip_sending zl g0 accepts busy x d rest (g, s) p" and ol: "open_list x" and bounded: "deflate_bounded zl"
    and again: "\<And>g2 s2 outs gf. gz_alloc (gzip_buf g2) \<Longrightarrow> \<not> is_last (gzip_buf g2) \<Longrightarrow> next_in (gzip_state g2) = unread p \<Longrightarrow>
      readable p \<Longrightarrow> is_last p = snd d \<Longrightarrow>
      deflated zl (snd d) (gzip_state g2) = Some (rest, gf) \<Longrightarrow> deflated_all zl g0 (x @ [d]) = (outs @ rest, gf) \<Longrightarrow>
      ready outs s2 \<Longrightarrow> open_list outs \<Longrightarrow> takes accepts outs rest \<Longrightarrow>
      returns (gzip_body_loop handler zl False g2 s2 p) (gz_post x d (g2, s2) p)"
  shows "returns (gzip_body_loop handler zl True g s p) (gz_post x d (g, s) p)"
proof -
  obtain outs y gf where b: "busy outs y s (gzip_buf g)" "open_list outs" "readable p" "is_last p = snd d" "gz_alloc (gzip_buf g)"
      "next_in (gzip_state g) = unread p" "deflated_all zl g0 (x @ [d]) = (outs @ y # rest, gf)" "takes accepts (outs @ [y]) rest"
      "is_last (gzip_buf g) = snd y"
      "if gzip_want_continue (gzip_state g) \<and> \<not> gzip_is_end (gzip_state g)
       then deflated zl (snd d) (gzip_state g) = Some (rest, gf) \<and> \<not> snd y
       else rest = [] \<and> gf = gzip_state g \<and> unread p = [] \<and> snd y = snd d"
    using snd unfolding gzip_sending_def by auto
  from handle [OF b(1)] obtain r s1 b1 where h: "handler s (gzip_buf g) = Some (r, s1, b1)"
      "sink_post net_of ready busy wire reliable outs y s (gzip_buf g) (r, s1, b1)"
    by (auto elim!: returnsE)
  have adv: "advanced (gzip_buf g) b1" and ns: "net_step (net_of s) (net_of s1)"
    using h(2) by (simp_all add: sink_post_def)
  have al: "gz_alloc b1" "is_last b1 = snd y"
    using b(5,9) gz_alloc_advanced [OF adv] advanced_fields(4) [OF adv] by simp_all
  define g2 where "g2 = g\<lparr>gzip_buf := b1, gzip_cont := False\<rparr>"
  have run: "gzip_body_loop handler zl True g s p =
      (if r = CWF_DATA_AGAIN then
         if gzip_want_continue (gzip_state g) \<and> \<not> gzip_is_end (gzip_state g) then gzip_body_loop handler zl False g2 s1 p
         else if pos p < bsize p then gzip_body_loop handler zl False g2 s1 p
         else Some (r, (g2, s1), p)
       else Some (r, (g2\<lparr>gzip_cont := (r = CWF_EVENT_AGAIN)\<rparr>, s1), p))"
    using h(1) by (subst gzip_body_loop.simps) (simp add: g2_def Let_def)
  have fw: "gzip_wire zl g0 response wire (x @ [d]) = wire (outs @ y # rest)"
    using np b(7) by (simp add: gzip_wire_def del: deflated_all_simps)
  have pre: "\<exists>z. wire (outs @ y # rest) = wire (outs @ [y]) @ z"
    using wire_prefix [of "outs @ [y]" rest] by simp
  consider (data) "r = CWF_DATA_AGAIN" "ready (outs @ [y]) s1"
    | (event) w where "r = CWF_EVENT_AGAIN" "busy outs y s1 b1" "answers (net_of s1) = []" "w \<noteq> []"
        "sent (net_of s1) @ w = wire (outs @ [y])"
    | (error) w where "r = CWF_ERROR" "breaks (answers (net_of s)) \<or> \<not> reliable" "sent (net_of s1) @ w = wire (outs @ [y])"
    using h(2) unfolding sink_post_def by auto
  then show ?thesis
  proof cases
    case data
    show ?thesis
    proof (cases "gzip_want_continue (gzip_state g) \<and> \<not> gzip_is_end (gzip_state g)")
      case True
      then have "returns (gzip_body_loop handler zl False g2 s1 p) (gz_post x d (g2, s1) p)"
        using b al data(2) by (intro again [where outs = "outs @ [y]" and gf = gf]) (simp_all add: g2_def del: deflated_all_simps)
      then show ?thesis
        using run data(1) True by (auto elim!: returns_mono intro: gz_post_step [OF _ advanced_refl b(3) ns])
    next
      case False
      then have e: "rest = []" "gf = gzip_state g" "unread p = []" "snd y = snd d"
        using b(10) by (auto split: if_splits)
      have np2: "\<not> pos p < bsize p"
        using e(3) length_unread [OF b(3)] by simp
      have "gzip_ready zl g0 response ready (x @ [d]) (g2, s1)"
        unfolding gzip_ready_def prod.case b(7) using np data(2) e al b(2)
        by (auto simp: g2_def)
      then show ?thesis
        using run data(1) False np2 e(3) ns by (auto simp: sink_post_def gzip_net_def)
    qed
  next
    case event
    have "gzip_sending zl g0 accepts busy x d rest (g2\<lparr>gzip_cont := True\<rparr>, s1) p"
      unfolding gzip_sending_def prod.case
      by (rule exI [of _ outs], rule exI [of _ y], rule exI [of _ gf])
        (use event(2) b al in \<open>simp add: g2_def del: deflated_all_simps\<close>)
    then have "gzip_busy zl g0 response accepts ready busy x d (g2\<lparr>gzip_cont := True\<rparr>, s1) p"
      using np ol bounded by (auto simp: gzip_busy_def)
    moreover have "\<exists>w. w \<noteq> [] \<and> sent (net_of s1) @ w = wire (outs @ y # rest)"
      using event(4,5) pre by (metis append_assoc append_is_Nil_conv)
    ultimately show ?thesis
      using run event(1,3) ns fw by (auto simp: sink_post_def gzip_net_def)
  next
    case error
    have "\<exists>w. sent (net_of s1) @ w = wire (outs @ y # rest)"
      using error(3) pre by (metis append_assoc)
    then show ?thesis
      using run error(1,2) ns fw by (auto simp: sink_post_def gzip_net_def)
  qed
qed

lemma gzip_round:
  assumes np: "\<not> gzip_passes response" and ol: "open_list x" and bounded: "deflate_bounded zl"
    and "gz_alloc (gzip_buf g)" and "\<not> is_last (gzip_buf g)" and "next_in (gzip_state g) = unread p" and "readable p"
    and "is_last p = snd d" and "deflated zl (snd d) (gzip_state g) = Some (rest, gf)"
    and "deflated_all zl g0 (x @ [d]) = (outs @ rest, gf)" and "ready outs s" and "open_list outs" and "takes accepts outs rest"
  shows "returns (gzip_body_loop handler zl False g s p) (gz_post x d (g, s) p)"
  using assms(4-)
proof (induction "length rest" arbitrary: g s p rest outs rule: less_induct)
  case less
  note al = less.prems(1) and nl = less.prems(2) and ni = less.prems(3) and rp = less.prems(4) and lp = less.prems(5)
  obtain out st where df: "gzip_deflate zl (gzip_state g) BUF_SIZE (snd d) = (out, st)"
    by fastforce
  let ?c = "gzip_want_continue st \<and> \<not> gzip_is_end st"
  have d1: "\<not> gzip_deflate_has_error st \<and> (\<exists>rest1. rest = (out, if ?c then False else snd d) # rest1 \<and>
      (if ?c then deflated zl (snd d) st = Some (rest1, gf) else rest1 = [] \<and> next_in st = [] \<and> gf = st))"
    using less.prems(6) df by (subst (asm) deflated.simps) (auto split: if_splits Option.bind_splits)
  then obtain rest1 where r1: "rest = (out, if ?c then False else snd d) # rest1"
      "if ?c then deflated zl (snd d) st = Some (rest1, gf) else rest1 = [] \<and> next_in st = [] \<and> gf = st"
    by blast
  obtain b p1 where pr: "gzip_process zl g p = Some (True, g\<lparr>gzip_buf := b, gzip_state := st\<rparr>, p1)" "advanced p p1"
      "unread p1 = next_in st" "gz_alloc b" "readable (bufo_reset_pos b)" "unread (bufo_reset_pos b) = out"
      "is_last b = (if ?c then is_last (gzip_buf g) else is_last p)"
    using gzip_process_spec [OF bounded al rp ni, of out st] df lp d1 by auto
  define g1 where "g1 = g\<lparr>gzip_buf := bufo_reset_pos b, gzip_state := st\<rparr>"
  define y where "y = (out, if ?c then False else snd d)"
  have run: "gzip_body_loop handler zl False g s p = gzip_body_loop handler zl True g1 s p1"
    using pr(1) by (subst gzip_body_loop.simps, subst (2) gzip_body_loop.simps) (simp add: g1_def)
  have ly: "is_last (bufo_reset_pos b) = snd y"
    using pr(7) nl lp by (simp add: y_def bufo_reset_pos_def)
  have "busy outs (unread (bufo_reset_pos b), is_last (bufo_reset_pos b)) s (bufo_reset_pos b)"
    by (rule offer [OF less.prems(8,9) pr(5)]) (use less.prems(10) r1(1) pr(6) ly in \<open>simp add: y_def\<close>)
  then have bs: "busy outs y s (gzip_buf g1)"
    using pr(6) ly by (simp add: g1_def y_def)
  have rp1: "readable p1" "is_last p1 = snd d"
    using advanced_readable [OF rp pr(2)] advanced_fields(4) [OF pr(2)] lp by simp_all
  have snd: "gzip_sending zl g0 accepts busy x d rest1 (g1, s) p1"
    unfolding gzip_sending_def prod.case
    by (rule exI [of _ outs], rule exI [of _ y], rule exI [of _ gf])
      (use bs less.prems(7,9,10) rp1 pr(3,4) r1 ly in \<open>simp add: g1_def y_def split: if_splits del: deflated_all_simps\<close>)
  have "returns (gzip_body_loop handler zl True g1 s p1) (gz_post x d (g1, s) p1)"
  proof (rule gzip_send [OF np snd ol bounded])
    fix g2 :: "'z http_module_gzip" and s2 outs2 gf2
    assume a: "gz_alloc (gzip_buf g2)" "\<not> is_last (gzip_buf g2)" "next_in (gzip_state g2) = unread p1" "readable p1" "is_last p1 = snd d"
      "deflated zl (snd d) (gzip_state g2) = Some (rest1, gf2)" "deflated_all zl g0 (x @ [d]) = (outs2 @ rest1, gf2)"
      "ready outs2 s2" "open_list outs2" "takes accepts outs2 rest1"
    have "gf2 = gf"
      using a(7) less.prems(7) by (simp del: deflated_all_simps)
    with a show "returns (gzip_body_loop handler zl False g2 s2 p1) (gz_post x d (g2, s2) p1)"
      by (intro less.hyps [of rest1]) (simp_all add: r1(1) del: deflated_all_simps)
  qed
  then show ?case
    unfolding run by (elim returns_mono gz_post_step [OF _ pr(2) rp]) simp
qed


lemma gzip_body_spec:
  assumes bs: "gzip_busy zl g0 response accepts ready busy x d (g, s) p"
  shows "returns (gzip_body handler zl response (g, s) p) (gz_post x d (g, s) p)"
proof (cases "gzip_passes response")
  case True
  then have "busy x d s p"
    using bs by (simp add: gzip_busy_def)
  from handle [OF this] obtain r s1 p1 where h: "handler s p = Some (r, s1, p1)"
      "sink_post net_of ready busy wire reliable x d s p (r, s1, p1)"
    by (auto elim!: returnsE)
  then show ?thesis
    using True unfolding sink_post_def
    by (auto simp: gzip_body_def gzip_net_def gzip_ready_def gzip_busy_def gzip_wire_def)
next
  case False
  note np = this
  have bounded: "deflate_bounded zl" and ol: "open_list x"
    using bs np by (simp_all add: gzip_busy_def)
  show ?thesis
  proof (cases "gzip_cont g")
    case True
    then obtain rest where snd: "gzip_sending zl g0 accepts busy x d rest (g, s) p"
      using bs np by (auto simp: gzip_busy_def)
    have "returns (gzip_body_loop handler zl True g s p) (gz_post x d (g, s) p)"
      by (rule gzip_send [OF np snd ol bounded]) (rule gzip_round [OF np ol bounded])
    then show ?thesis
      using True np by (simp add: gzip_body_def)
  next
    case False
    let ?o = "deflated_all zl g0 x"
    have r: "gzip_state g = snd ?o" "ready (fst ?o) s" "gz_alloc (gzip_buf g)" "\<not> is_last (gzip_buf g)" "open_list (fst ?o)"
        and rp: "readable p" and d: "d = (unread p, is_last p)"
      using bs np False ol by (simp_all add: gzip_busy_def gzip_ready_def)
    obtain outs gf where df: "deflated zl (snd d) (gzip_set_in (snd ?o) (fst d)) = Some (outs, gf)" "takes accepts (fst ?o) outs"
      using bs np False by (auto simp: gzip_busy_def gzip_accepts_def split: option.splits prod.splits)
    have all: "deflated_all zl g0 (x @ [d]) = (fst ?o @ outs, gf)"
      using df(1) by (simp add: deflated_step_def split_beta)
    define g1 where "g1 = g\<lparr>gzip_buf := bufo_reset_pos (gzip_buf g), gzip_state := gzip_set_in (gzip_state g) (unread p)\<rparr>"
    have len: "pos p \<le> bsize p" "bsize p < 2 ^ 63"
      using rp by (auto simp: readable_def)
    obtain blk where blk: "bdata p = Some blk" "bsize p \<le> length blk"
      using rp by (auto simp: readable_def)
    have "szsub (bsize p) (pos p) = bsize p - pos p"
      using len by (intro szsub_exact) (simp_all add: size_modulus_def)
    then have "peek blk (pos p) (szsub (bsize p) (pos p)) = Some (unread p)"
      using blk len by (simp add: peek_def unread_def drop_take)
    then have run: "gzip_body handler zl response (g, s) p = gzip_body_loop handler zl False g1 s p"
      using np False blk(1) by (simp add: gzip_body_def g1_def)
    have "returns (gzip_body_loop handler zl False g1 s p) (gz_post x d (g1, s) p)"
      by (rule gzip_round [OF np ol bounded, where rest = outs and gf = gf and outs = "fst ?o"])
        (use r rp d df all in \<open>simp_all add: g1_def gzip_set_in_def bufo_reset_pos_def gz_alloc_def del: deflated_all_simps\<close>)
    moreover have "gz_post x d (g1, s) p = gz_post x d (g, s) p"
      by (simp add: sink_post_def gzip_net_def)
    ultimately show ?thesis
      by (simp add: run)
  qed
qed

lemma gzip_sending_refill:
  "gzip_sending zl g0 accepts busy x d rest (g, s) p \<Longrightarrow> gzip_sending zl g0 accepts busy x d rest (g, refill as s) p"
  unfolding gzip_sending_def prod.case
  by (elim exE conjE, rule exI, rule exI, rule exI, intro conjI) (assumption | erule refill_busy)+

sublocale gzip: body_sink "gzip_body handler zl response" "gzip_net net_of" "gzip_refill refill"
  "gzip_ready zl g0 response ready" "gzip_busy zl g0 response accepts ready busy" "gzip_wire zl g0 response wire"
  "gzip_accepts zl g0 response accepts" reliable
proof unfold_locales
  fix x s
  show "gzip_ready zl g0 response ready x s \<Longrightarrow> sent (gzip_net net_of s) = gzip_wire zl g0 response wire x"
    using ready_sent by (cases s) (auto simp: gzip_ready_def gzip_net_def gzip_wire_def split: if_splits)
  fix b
  show "gzip_ready zl g0 response ready x s \<Longrightarrow> open_list x \<Longrightarrow> readable b \<Longrightarrow>
      gzip_accepts zl g0 response accepts x (unread b, is_last b) \<Longrightarrow>
      gzip_busy zl g0 response accepts ready busy x (unread b, is_last b) s b"
    using offer by (cases s) (auto simp: gzip_busy_def gzip_ready_def gzip_accepts_def split: if_splits)
  show "\<exists>z. gzip_wire zl g0 response wire (x @ y) = gzip_wire zl g0 response wire x @ z" for y
    using wire_prefix deflated_all_prefix [of zl g0 x y] by (auto simp: gzip_wire_def)
  fix d
  show "gzip_busy zl g0 response accepts ready busy x d s b \<Longrightarrow> readable b"
    using busy_readable by (cases s) (auto simp: gzip_busy_def gzip_sending_def split: if_splits)
  fix as
  show "gzip_ready zl g0 response ready x s \<Longrightarrow> gzip_ready zl g0 response ready x (gzip_refill refill as s)"
    using refill_ready by (cases s) (auto simp: gzip_refill_def gzip_ready_def)
  then have rr: "gzip_ready zl g0 response ready x s \<Longrightarrow> gzip_ready zl g0 response ready x (gzip_refill refill as s)" .
  show "gzip_busy zl g0 response accepts ready busy x d (gzip_refill refill as s) b"
    if bs: "gzip_busy zl g0 response accepts ready busy x d s b"
  proof -
    obtain g t where s: "s = (g, t)"
      by fastforce
    show ?thesis
    proof (cases "\<not> gzip_passes response \<and> gzip_cont g")
      case True
      then obtain rest where "gzip_sending zl g0 accepts busy x d rest (g, t) b"
        using bs s by (auto simp: gzip_busy_def)
      from gzip_sending_refill [OF this, of as] show ?thesis
        using bs s True by (auto simp: gzip_busy_def gzip_refill_def)
    next
      case False
      then show ?thesis
        using bs rr refill_busy by (auto simp: gzip_busy_def gzip_refill_def s)
    qed
  qed
  show "gzip_busy zl g0 response accepts ready busy x d s b \<Longrightarrow> returns (gzip_body handler zl response s b)
      (sink_post (gzip_net net_of) (gzip_ready zl g0 response ready) (gzip_busy zl g0 response accepts ready busy)
        (gzip_wire zl g0 response wire) reliable x d s b)"
    by (cases s) (simp add: gzip_body_spec)
qed (simp_all add: gzip_net_def gzip_refill_def refill_net split_beta)

end

end
