(* ===== verification/Http_Data.thy ===== *)
theory Http_Data
  imports Http_Filter
begin

text \<open>
  The data filter (protocols/http/server/filters/http_data_filter.c), the source of the response body: it offers the
  bytes of the response, from memory or from a file, to the next filter in buffers of 16384 bytes. The theory
  shows, on top of any filter that keeps to the contract \<open>body_sink\<close>, that the whole body is sent, whatever the
  socket takes at a time.
\<close>

section \<open>State\<close>

datatype route_methods =
  ROUTE_NONE | ROUTE_GET | ROUTE_POST | ROUTE_PUT | ROUTE_DELETE | ROUTE_OPTIONS | ROUTE_PATCH | ROUTE_HEAD

text \<open>The parts of the request that the filters read; a range has a start and an end.\<close>

record httprequest =
  req_method :: route_methods
  ranges :: "(int \<times> int) list"
  req_headers :: "http_header list"

text \<open>The two buffers that the module's pointer \<open>parent_buf\<close> can have.\<close>

datatype data_source = Proxy_Buffer | Body_Buffer

record http_module_data =
  data_cont :: bool
  data_parent :: "data_source option"
  proxy_body_buf :: bufo
  file_offset :: nat

section \<open>Operations\<close>

definition data_create :: "bufo \<Rightarrow> http_module_data" where
  "data_create b = \<lparr>data_cont = False, data_parent = None,
     proxy_body_buf = (bufo_init b)\<lparr>is_proxy := True, capacity := BUF_SIZE\<rparr>, file_offset = 0\<rparr>"

definition data_reset :: "http_module_data \<Rightarrow> http_module_data" where
  "data_reset d = d\<lparr>data_cont := False, data_parent := None,
     proxy_body_buf := (snd (bufo_clear (proxy_body_buf d)))\<lparr>is_proxy := True, capacity := BUF_SIZE\<rparr>, file_offset := 0\<rparr>"

definition get_source :: "httpresponse \<Rightarrow> http_module_data \<Rightarrow> data_source \<Rightarrow> bufo" where
  "get_source r d src = (case src of Proxy_Buffer \<Rightarrow> proxy_body_buf d | Body_Buffer \<Rightarrow> body r)"

definition put_source :: "httpresponse \<Rightarrow> http_module_data \<Rightarrow> data_source \<Rightarrow> bufo \<Rightarrow> httpresponse \<times> http_module_data" where
  "put_source r d src b =
     (case src of Proxy_Buffer \<Rightarrow> (r, d\<lparr>proxy_body_buf := b\<rparr>) | Body_Buffer \<Rightarrow> (r\<lparr>body := b\<rparr>, d))"

definition body_next_chunk_data :: "httpresponse \<Rightarrow> http_module_data \<Rightarrow> httpresponse \<times> http_module_data" where
  "body_next_chunk_data r d =
     (let proxy = (proxy_body_buf d)\<lparr>bdata := bufo_data (body r)\<rparr>;
          (moved, b) = bufo_move_front_pos (body r) BUF_SIZE
      in if moved = 0 then (r\<lparr>body := b\<rparr>, d\<lparr>proxy_body_buf := proxy\<rparr>)
         else let proxy1 = bufo_reset_pos (bufo_set_size proxy moved)
              in (r\<lparr>body := b\<rparr>, d\<lparr>proxy_body_buf := (if pos b = bsize b then proxy1\<lparr>is_last := True\<rparr> else proxy1)\<rparr>))"

text \<open>The first component is the flag \<open>ok\<close>.\<close>

definition file_next_chunk_data :: "allocator \<Rightarrow> httpresponse \<Rightarrow> http_module_data \<Rightarrow> (bool \<times> httpresponse \<times> http_module_data) option" where
  "file_next_chunk_data m r d =
     (let (ok, b) = bufo_alloc m (body r) BUF_SIZE in
      if \<not> ok then Some (False, r\<lparr>body := b\<rparr>, d)
      else let (got, f) = http_pread (rfile r) (capacity b) (file_offset d);
               r1 = r\<lparr>body := b, rfile := f\<rparr>
           in case got of
                None \<Rightarrow> Some (False, r1, d)
              | Some data \<Rightarrow> do {
                  blk \<leftarrow> bdata b;
                  blk1 \<leftarrow> poke blk 0 data;
                  let off = file_offset d + length data;
                  let b1 = b\<lparr>bdata := Some blk1\<rparr>;
                  let b2 = (if file_size f \<le> off then b1\<lparr>is_last := True\<rparr> else b1);
                  Some (True, r1\<lparr>body := bufo_set_size (bufo_reset_pos b2) (length data)\<rparr>, d\<lparr>file_offset := off\<rparr>)
                })"

definition next_chunk_data ::
    "allocator \<Rightarrow> httpresponse \<Rightarrow> http_module_data \<Rightarrow> (bool \<times> data_source \<times> httpresponse \<times> http_module_data) option" where
  "next_chunk_data m r d =
     (if -1 < fd (rfile r)
      then map_option (\<lambda>(ok, r1, d1). (ok, Body_Buffer, r1, d1)) (file_next_chunk_data m r d)
      else Some (True, Proxy_Buffer, body_next_chunk_data r d))"

text \<open>The loop of \<open>__body\<close>, entered at the label \<open>cont\<close> when \<open>resume\<close> is set. The next handler gets the response,
  whose attributes it reads.\<close>

partial_function (option) data_loop ::
    "(httpresponse \<Rightarrow> 's \<Rightarrow> bufo \<Rightarrow> (cwf \<times> 's \<times> bufo) option) \<Rightarrow> allocator \<Rightarrow> bool \<Rightarrow> httpresponse \<Rightarrow> http_module_data \<Rightarrow> 's \<Rightarrow>
     (cwf \<times> httpresponse \<times> http_module_data \<times> 's) option" where
  "data_loop next_handler_body m resume r d s = do {
     (ok, src, r1, d1) \<leftarrow>
       (if resume then do { src \<leftarrow> data_parent d; Some (True, src, r, d) } else next_chunk_data m r d);
     (if \<not> ok then Some (CWF_ERROR, r1, d1, s)
      else if \<not> resume \<and> (pos (get_source r1 d1 src) = bsize (get_source r1 d1 src) \<or> bsize (get_source r1 d1 src) = 0)
      then Some (CWF_OK, r1, d1, s)
      else do {
        let d2 = d1\<lparr>data_parent := Some src\<rparr>;
        (c, s1, b) \<leftarrow> next_handler_body r1 s (get_source r1 d2 src);
        let (r3, d3) = put_source r1 (d2\<lparr>data_cont := False\<rparr>) src b;
        (if c = CWF_DATA_AGAIN then data_loop next_handler_body m False r3 d3 s1
         else Some (c, r3, d3\<lparr>data_cont := (c = CWF_EVENT_AGAIN)\<rparr>, s1))
      })
   }"

definition data_body ::
    "(httpresponse \<Rightarrow> 's \<Rightarrow> bufo \<Rightarrow> (cwf \<times> 's \<times> bufo) option) \<Rightarrow> allocator \<Rightarrow> httprequest option \<Rightarrow>
     httpresponse \<times> http_module_data \<times> 's \<Rightarrow> bufo option \<Rightarrow> (cwf \<times> (httpresponse \<times> http_module_data \<times> 's) \<times> bufo option) option" where
  "data_body next_handler_body m request = (\<lambda>(r, d, s) parent_buf.
     if range_flag r then do {
       b \<leftarrow> parent_buf;
       (c, s1, b1) \<leftarrow> next_handler_body r s b;
       Some (c, (r, d, s1), Some b1)
     }
     else if (case request of None \<Rightarrow> False | Some q \<Rightarrow> req_method q = ROUTE_HEAD) then Some (CWF_OK, (r, d, s), parent_buf)
     else if status r = 304 then Some (CWF_OK, (r, d, s), parent_buf)
     else do {
       (c, r1, d1, s1) \<leftarrow> data_loop next_handler_body m (data_cont d) r d s;
       Some (c, (r1, d1, s1), parent_buf)
     })"


section \<open>Pieces of the body\<close>

function pieces :: "char list \<Rightarrow> (char list \<times> bool) list" where
  "pieces xs = (if xs = [] then [] else (take BUF_SIZE xs, length xs \<le> BUF_SIZE) # pieces (drop BUF_SIZE xs))"
  by auto
termination
  by (relation "measure length") (auto simp: BUF_SIZE_def)

declare pieces.simps [simp del]

lemma pieces_Nil [simp]: "pieces [] = []"
  by (simp add: pieces.simps)

lemma pieces_Cons: "xs \<noteq> [] \<Longrightarrow> pieces xs = (take BUF_SIZE xs, length xs \<le> BUF_SIZE) # pieces (drop BUF_SIZE xs)"
  by (subst pieces.simps) simp

lemma bytes_of_pieces: "bytes_of (pieces xs) = xs"
  by (induction xs rule: pieces.induct) (subst pieces.simps, auto simp: bytes_of_def)

text \<open>The attributes of the response that the filters below read.\<close>

definition view :: "httpresponse \<Rightarrow> http_trunsfer_encoding \<times> http_content_encoding \<times> bool \<times> nat \<times> bool \<times> int \<times> bool" where
  "view r = (transfer_encoding r, content_encoding r, last_modified r, data_size r, range_flag r, status r, headers_sended r)"

section \<open>The source\<close>

definition file_block :: "bufo \<Rightarrow> bool" where
  "file_block b \<longleftrightarrow> (case bdata b of None \<Rightarrow> \<not> is_last b | Some blk \<Rightarrow> length blk = BUF_SIZE \<and> capacity b = BUF_SIZE)"

text \<open>\<open>rest\<close> is still to be offered.\<close>

definition data_src :: "char list \<Rightarrow> httpresponse \<Rightarrow> http_module_data \<Rightarrow> bool" where
  "data_src rest r d \<longleftrightarrow>
     (if -1 < fd (rfile r) then
        file_block (body r) \<and> (rest \<noteq> [] \<longrightarrow> \<not> is_last (body r)) \<and> rest = drop (file_offset d) (file_content (rfile r)) \<and>
        file_offset d \<le> length (file_content (rfile r)) \<and> file_size (rfile r) = length (file_content (rfile r)) \<and>
        set (pread_answers (rfile r)) \<subseteq> {Pread_Interrupted}
      else
        rest = unread (body r) \<and> (readable (body r) \<or> bdata (body r) = None \<and> bsize (body r) \<le> pos (body r)) \<and>
        capacity (proxy_body_buf d) = BUF_SIZE \<and> (rest = [] \<longrightarrow> pos (proxy_body_buf d) = bsize (proxy_body_buf d)) \<and>
        (rest \<noteq> [] \<longrightarrow> \<not> is_last (proxy_body_buf d)))"

definition offered :: "char list \<Rightarrow> bufo \<Rightarrow> bool" where
  "offered rest b \<longleftrightarrow>
     (if rest = [] then pos b = bsize b \<or> bsize b = 0
      else readable b \<and> unread b = take BUF_SIZE rest \<and> is_last b = (length rest \<le> BUF_SIZE))"

lemma data_src_fields [simp]:
  "data_src rest r (d\<lparr>data_cont := c\<rparr>) = data_src rest r d" "data_src rest r (d\<lparr>data_parent := p\<rparr>) = data_src rest r d"
  "data_src rest r (d\<lparr>data_cont := c, proxy_body_buf := b\<rparr>) = data_src rest r (d\<lparr>proxy_body_buf := b\<rparr>)"
  "data_src rest r (d\<lparr>data_parent := p, proxy_body_buf := b\<rparr>) = data_src rest r (d\<lparr>proxy_body_buf := b\<rparr>)"
  by (simp_all add: data_src_def)

lemma pread_interrupted:
  "set as \<subseteq> {Pread_Interrupted} \<Longrightarrow> pread_loop as content sz off = (Some (take sz (drop off content)), [])"
  by (induction as) auto

definition src_left :: "char list \<Rightarrow> httpresponse \<Rightarrow> http_module_data \<Rightarrow> data_source \<Rightarrow> bool" where
  "src_left rest r d src \<longleftrightarrow>
     (\<forall>b. advanced (get_source r d src) b \<and> unread b = [] \<longrightarrow> case_prod (data_src rest) (put_source r d src b))"

lemma src_left_advanced:
  assumes left: "src_left rest r d src" and pt: "put_source r (d\<lparr>data_cont := False\<rparr>) src b = (r3, d3)"
    and adv: "readable (get_source r d src)" "advanced (get_source r d src) b"
  shows "src_left rest r3 (d3\<lparr>data_cont := k\<rparr>) src"
proof (cases src)
  case Proxy_Buffer
  then have "r3 = r" "d3 = d\<lparr>data_cont := False, proxy_body_buf := b\<rparr>"
    using pt by (auto simp: put_source_def)
  then show ?thesis
    using left Proxy_Buffer advanced_trans [OF adv] unfolding src_left_def by (simp add: get_source_def put_source_def)
next
  case Body_Buffer
  then have "r3 = r\<lparr>body := b\<rparr>" "d3 = d\<lparr>data_cont := False\<rparr>"
    using pt by (auto simp: put_source_def)
  then show ?thesis
    using left Body_Buffer advanced_trans [OF adv] unfolding src_left_def by (simp add: get_source_def put_source_def)
qed

lemma body_chunk:
  assumes src: "data_src rest r d" and mem: "\<not> -1 < fd (rfile r)" and step: "body_next_chunk_data r d = (r', d')"
  shows "offered rest (proxy_body_buf d')" and "view r' = view r" and "rest \<noteq> [] \<Longrightarrow> src_left (drop BUF_SIZE rest) r' d' Proxy_Buffer"
proof -
  have b: "rest = unread (body r)" "readable (body r) \<or> bdata (body r) = None \<and> bsize (body r) \<le> pos (body r)"
      "capacity (proxy_body_buf d) = BUF_SIZE"
    using src mem by (auto simp: data_src_def)
  have "offered rest (proxy_body_buf d') \<and> view r' = view r \<and> (rest \<noteq> [] \<longrightarrow> src_left (drop BUF_SIZE rest) r' d' Proxy_Buffer)"
  proof (cases "rest = []")
    case True
    then have p: "bsize (body r) \<le> pos (body r)"
      using b length_unread [of "body r"] by auto
    then have "(r', d') = (r, d\<lparr>proxy_body_buf := (proxy_body_buf d)\<lparr>bdata := bufo_data (body r)\<rparr>\<rparr>)"
      using step by (auto simp: body_next_chunk_data_def bufo_move_front_pos_def Let_def)
    then show ?thesis
      using src mem True by (simp add: offered_def data_src_def)
  next
    case False
    then have rd: "readable (body r)"
      using b by (auto simp: unread_def)
    then obtain blk where blk: "bdata (body r) = Some blk" "pos (body r) \<le> bsize (body r)" "bsize (body r) \<le> length blk" "length blk < 2 ^ 63"
      by (auto simp: readable_def)
    have len: "length rest = bsize (body r) - pos (body r)" "pos (body r) < bsize (body r)"
      using b(1) length_unread [OF rd] False by (auto simp flip: length_greater_0_conv)
    define k where "k = min BUF_SIZE (length rest)"
    have k: "0 < k" "k \<le> length rest" "k \<le> BUF_SIZE"
      using False by (auto simp: k_def BUF_SIZE_def)
    have "bufo_move_front_pos (body r) BUF_SIZE = (k, (body r)\<lparr>pos := pos (body r) + k\<rparr>)"
      using len blk szadd_exact [of "pos (body r)" BUF_SIZE]
      by (auto simp: bufo_move_front_pos_def k_def min_def BUF_SIZE_def size_modulus_def)
    moreover have nl: "\<not> is_last (proxy_body_buf d)"
      using src mem False by (simp add: data_src_def)
    moreover have "pos (body r) + k = bsize (body r) \<longleftrightarrow> length rest \<le> BUF_SIZE"
      using len by (auto simp: k_def)
    ultimately have eq: "r' = r\<lparr>body := (body r)\<lparr>pos := pos (body r) + k\<rparr>\<rparr>"
        "\<exists>p. d' = d\<lparr>proxy_body_buf := p\<rparr> \<and> bdata p = Some (drop (pos (body r)) blk) \<and> bsize p = k \<and> pos p = 0 \<and>
          is_last p = (length rest \<le> BUF_SIZE) \<and> capacity p = BUF_SIZE"
      using step k b(3) blk by (auto simp: body_next_chunk_data_def Let_def bufo_reset_pos_def bufo_set_size_def bufo_data_def)
    then obtain p where p: "d' = d\<lparr>proxy_body_buf := p\<rparr>" "bdata p = Some (drop (pos (body r)) blk)" "bsize p = k" "pos p = 0"
        "is_last p = (length rest \<le> BUF_SIZE)" "capacity p = BUF_SIZE"
      by blast
    have rest: "rest = drop (pos (body r)) (take (bsize (body r)) blk)"
      using b(1) blk(1) by (simp add: unread_def)
    have "take (bsize (body r) - pos (body r)) (drop (pos (body r)) blk) = rest"
      by (simp add: rest drop_take)
    then have "take BUF_SIZE rest = take BUF_SIZE (take (bsize (body r) - pos (body r)) (drop (pos (body r)) blk))"
      by simp
    then have tk: "take k (drop (pos (body r)) blk) = take BUF_SIZE rest"
      unfolding take_take k_def len(1) by simp
    have "readable (proxy_body_buf d')" "unread (proxy_body_buf d') = take BUF_SIZE rest"
      using blk len k tk by (auto simp: p readable_def unread_def)
    moreover have "drop k rest = drop BUF_SIZE rest"
      by (simp add: k_def min_def)
    then have un: "unread (body r') = drop BUF_SIZE rest" "readable (body r')"
      using chunk_of_unread(4,5) [OF rd, of k] advanced_readable [OF rd] k(2) b(1) by (auto simp: eq(1))
    moreover have "src_left (drop BUF_SIZE rest) r' d' Proxy_Buffer"
      unfolding src_left_def get_source_def put_source_def data_source.case prod.case
    proof (intro allI impI, elim conjE)
      fix q
      assume q: "advanced (proxy_body_buf d') q" "unread q = []"
      have "q = (proxy_body_buf d')\<lparr>pos := bsize (proxy_body_buf d')\<rparr>"
        by (rule advanced_done [OF calculation(1) q])
      then show "data_src (drop BUF_SIZE rest) r' (d'\<lparr>proxy_body_buf := q\<rparr>)"
        using un mem by (simp add: data_src_def eq(1) p)
    qed
    ultimately show ?thesis
      using False by (simp add: offered_def p eq(1) view_def data_size_def)
  qed
  then show "offered rest (proxy_body_buf d')" and "view r' = view r" and "rest \<noteq> [] \<Longrightarrow> src_left (drop BUF_SIZE rest) r' d' Proxy_Buffer"
    by blast+
qed


lemma file_chunk:
  assumes src: "data_src rest r d" and fl: "-1 < fd (rfile r)"
  shows "returns (file_next_chunk_data m r d) (\<lambda>(ok, r', d'). view r' = view r \<and> fd (rfile r') = fd (rfile r) \<and>
    (if ok then offered rest (body r') \<and> (rest \<noteq> [] \<longrightarrow> src_left (drop BUF_SIZE rest) r' d' Body_Buffer) else \<not> never_fails m))"
proof -
  obtain ok b where al: "bufo_alloc m (body r) BUF_SIZE = (ok, b)"
    by fastforce
  have s: "file_block (body r)" "rest \<noteq> [] \<longrightarrow> \<not> is_last (body r)" "rest = drop (file_offset d) (file_content (rfile r))"
      "file_offset d \<le> length (file_content (rfile r))" "file_size (rfile r) = length (file_content (rfile r))"
      "set (pread_answers (rfile r)) \<subseteq> {Pread_Interrupted}"
    using src fl by (auto simp: data_src_def)
  show ?thesis
  proof (cases ok)
    case False
    then have "\<not> never_fails m"
      using al malloc_never_fails [of m BUF_SIZE]
      by (auto simp: bufo_alloc_def BUF_SIZE_def max_capacity_def split: if_splits option.splits)
    then show ?thesis
      using False al fl by (simp add: file_next_chunk_data_def view_def data_size_def)
  next
    case True
    have "bdata (body r) = None \<longrightarrow> \<not> is_last b"
      using s(1) al by (auto simp: file_block_def bufo_alloc_def split: if_splits option.splits)
    moreover obtain blk where b: "bdata b = Some blk" "length blk = BUF_SIZE" "capacity b = BUF_SIZE" "is_last b = is_last (body r)"
      using s(1) True al malloc_length [of m BUF_SIZE]
      by (auto simp: file_block_def bufo_alloc_def split: if_splits option.splits)
    define got where "got = take BUF_SIZE rest"
    define f where "f = (rfile r)\<lparr>pread_answers := []\<rparr>"
    have pr: "http_pread (rfile r) BUF_SIZE (file_offset d) = (Some got, f)"
      using pread_interrupted [OF s(6)] by (simp add: http_pread_def got_def f_def s(3))
    have lg: "length got \<le> BUF_SIZE"
      by (simp add: got_def)
    define blk1 where "blk1 = got @ drop (length got) blk"
    have pk: "poke blk 0 got = Some blk1"
      using lg b(2) by (simp add: poke_in blk1_def)
    define off where "off = file_offset d + length got"
    define b2 where "b2 = b\<lparr>bdata := Some blk1, is_last := (length rest \<le> BUF_SIZE \<or> is_last b), pos := 0, bsize := length got\<rparr>"
    have offs: "file_size f \<le> off \<longleftrightarrow> length rest \<le> BUF_SIZE"
      using s(3-5) by (auto simp: off_def got_def f_def)
    have eq: "file_next_chunk_data m r d = Some (True, r\<lparr>body := b2, rfile := f\<rparr>, d\<lparr>file_offset := off\<rparr>)"
      using al True pr pk b lg offs
      by (auto simp: file_next_chunk_data_def Let_def b2_def off_def bufo_set_size_def bufo_reset_pos_def)
    have rd: "readable b2" "unread b2 = got" "bsize b2 = length got"
      using b lg by (auto simp: b2_def readable_def unread_def blk1_def BUF_SIZE_def)
    have off2: "drop BUF_SIZE rest = drop off (file_content f)" "off \<le> length (file_content f)"
      using s(3,4) by (auto simp: off_def got_def f_def min_def add.commute)
    have "offered rest b2"
      using rd s(2) b(4) by (auto simp: offered_def got_def b2_def)
    moreover have "src_left (drop BUF_SIZE rest) (r\<lparr>body := b2, rfile := f\<rparr>) (d\<lparr>file_offset := off\<rparr>) Body_Buffer"
      unfolding src_left_def get_source_def put_source_def data_src_def file_block_def
      using fl s(2,5) b off2 lg
      by (auto simp: f_def advanced_def b2_def blk1_def)
    moreover have "view (r\<lparr>body := b2, rfile := f\<rparr>) = view r" "fd f = fd (rfile r)"
      using fl by (simp_all add: view_def data_size_def f_def)
    ultimately show ?thesis
      by (simp add: eq)
  qed
qed

lemma next_chunk:
  assumes "data_src rest r d"
  shows "returns (next_chunk_data m r d) (\<lambda>(ok, src, r', d'). view r' = view r \<and>
    (if ok then offered rest (get_source r' d' src) \<and> (rest \<noteq> [] \<longrightarrow> src_left (drop BUF_SIZE rest) r' d' src) \<and>
       (src = Body_Buffer \<longrightarrow> -1 < fd (rfile r')) else \<not> never_fails m))"
proof (cases "-1 < fd (rfile r)")
  case True
  then show ?thesis
    using file_chunk [OF assms True, of m] by (auto simp: next_chunk_data_def get_source_def elim!: returnsE)
next
  case False
  obtain r' d' where "body_next_chunk_data r d = (r', d')"
    by fastforce
  with body_chunk [OF assms False this] False show ?thesis
    by (simp add: next_chunk_data_def get_source_def)
qed

section \<open>The body is sent\<close>

text \<open>The filter waits for the socket in the middle of a piece; \<open>all\<close> are all pieces and \<open>rest\<close> comes after this one.\<close>

definition data_wait :: "((char list \<times> bool) list \<Rightarrow> char list \<times> bool \<Rightarrow> bool) \<Rightarrow> ((char list \<times> bool) list \<Rightarrow> char list \<times> bool \<Rightarrow> 's \<Rightarrow> bufo \<Rightarrow> bool) \<Rightarrow>
    (char list \<times> bool) list \<Rightarrow> char list \<Rightarrow> httpresponse \<Rightarrow> http_module_data \<Rightarrow> 's \<Rightarrow> bool" where
  "data_wait accepts busy all rest r d s \<longleftrightarrow> (\<exists>x e src. data_parent d = Some src \<and> busy x e s (get_source r d src) \<and>
     open_list x \<and> (snd e \<longrightarrow> rest = []) \<and> x @ e # pieces rest = all \<and> src_left rest r d src \<and>
     takes accepts (x @ [e]) (pieces rest) \<and> (src = Body_Buffer \<longrightarrow> -1 < fd (rfile r)))"

context body_sink
begin

definition data_post :: "bool \<Rightarrow> (char list \<times> bool) list \<Rightarrow> httpresponse \<Rightarrow> 's \<Rightarrow> cwf \<times> httpresponse \<times> http_module_data \<times> 's \<Rightarrow> bool" where
  "data_post mem all r s = (\<lambda>(c, r', d', s'). view r' = view r \<and> net_step (net_of s) (net_of s') \<and>
     (c = CWF_OK \<and> ready all s' \<or>
      c = CWF_EVENT_AGAIN \<and> data_cont d' \<and> (\<exists>rest. data_wait accepts busy all rest r' d' s') \<and> answers (net_of s') = [] \<and>
        (\<exists>rest. rest \<noteq> [] \<and> sent (net_of s') @ rest = wire all) \<or>
      c = CWF_ERROR \<and> (breaks (answers (net_of s)) \<or> \<not> (reliable \<and> mem)) \<and> (\<exists>rest. sent (net_of s') @ rest = wire all)))"

lemma data_post_step:
  assumes post: "data_post mem all r1 s1 t" and vw: "view r1 = view r" and ns: "net_step (net_of s) (net_of s1)"
  shows "data_post mem all r s t"
proof -
  obtain c r' d' s' where t: "t = (c, r', d', s')"
    by (cases t)
  have "net_step (net_of s) (net_of s')" "breaks (answers (net_of s1)) \<Longrightarrow> breaks (answers (net_of s))"
    using post net_step_trans [OF ns] net_step_breaks [OF ns] by (auto simp: data_post_def t)
  then show ?thesis
    using post vw unfolding data_post_def t prod.case by auto
qed

lemma data_send:
  assumes nx: "\<And>r'. view r' = view r \<Longrightarrow> next_handler_body r' = handler" and wt: "data_wait accepts busy all rest r d s"
    and again: "\<And>x r' d' s'. data_src rest r' d' \<Longrightarrow> view r' = view r \<Longrightarrow> ready x s' \<Longrightarrow> (rest \<noteq> [] \<longrightarrow> open_list x) \<Longrightarrow>
      x @ pieces rest = all \<Longrightarrow> takes accepts x (pieces rest) \<Longrightarrow> returns (data_loop next_handler_body m False r' d' s') (data_post mem all r' s')"
  shows "returns (data_loop next_handler_body m True r d s) (data_post mem all r s)"
proof -
  obtain x e src where w: "data_parent d = Some src" "busy x e s (get_source r d src)" "open_list x"
      "snd e \<longrightarrow> rest = []" "x @ e # pieces rest = all" "src_left rest r d src"
      "takes accepts (x @ [e]) (pieces rest)" "src = Body_Buffer \<longrightarrow> -1 < fd (rfile r)"
    using wt unfolding data_wait_def by blast
  obtain c s1 b where h: "handler s (get_source r d src) = Some (c, s1, b)"
      "sink_post net_of ready busy wire reliable x e s (get_source r d src) (c, s1, b)"
    using handle [OF w(2)] by (auto elim!: returnsE)
  obtain r3 d3 where pt: "put_source r (d\<lparr>data_cont := False\<rparr>) src b = (r3, d3)"
    by fastforce
  have gs: "get_source r (d\<lparr>data_parent := Some src\<rparr>) src = get_source r d src" "d\<lparr>data_parent := Some src\<rparr> = d"
    using w(1) by (auto simp: get_source_def split: data_source.split)
  have run: "data_loop next_handler_body m True r d s =
      (if c = CWF_DATA_AGAIN then data_loop next_handler_body m False r3 d3 s1
       else Some (c, r3, d3\<lparr>data_cont := (c = CWF_EVENT_AGAIN)\<rparr>, s1))"
    using w(1) h(1) pt nx [OF refl] by (subst data_loop.simps) (simp add: Let_def gs)
  have ns: "net_step (net_of s) (net_of s1)" and adv: "advanced (get_source r d src) b"
    using h(2) by (simp_all add: sink_post_def)
  have same: "get_source r3 d3 src = b" "data_parent d3 = Some src"
    using pt w(1) by (auto simp: put_source_def get_source_def split: data_source.splits)
  have wall: "\<exists>z. wire all = wire (x @ [e]) @ z"
    using wire_prefix [of "x @ [e]" "pieces rest"] w(5) by simp
  have vw: "view r3 = view r" "fd (rfile r3) = fd (rfile r)"
    using pt w(8) by (auto simp: put_source_def view_def data_size_def split: data_source.splits)
  consider (data) "c = CWF_DATA_AGAIN" "ready (x @ [e]) s1" "unread b = []"
    | (event) y where "c = CWF_EVENT_AGAIN" "busy x e s1 b" "answers (net_of s1) = []" "y \<noteq> []" "sent (net_of s1) @ y = wire (x @ [e])"
    | (error) y where "c = CWF_ERROR" "breaks (answers (net_of s)) \<or> \<not> reliable" "sent (net_of s1) @ y = wire (x @ [e])"
    using h(2) unfolding sink_post_def by auto
  then show ?thesis
  proof cases
    case data
    then have "data_src rest r3 d3"
      using w(6) adv pt unfolding src_left_def by (auto simp: put_source_def split: data_source.splits)
    from again [OF this vw(1) data(2)] w(3-5,7)
    have "returns (data_loop next_handler_body m False r3 d3 s1) (data_post mem all r3 s1)"
      by fastforce
    then show ?thesis
      using run data(1) by (auto elim!: returns_mono intro: data_post_step [OF _ vw(1) ns])
  next
    case event
    obtain z where z: "wire all = wire (x @ [e]) @ z"
      using wall by blast
    have "src_left rest r3 (d3\<lparr>data_cont := True\<rparr>) src"
      by (rule src_left_advanced [OF w(6) pt busy_readable [OF w(2)] adv])
    moreover have "get_source r3 (d3\<lparr>data_cont := True\<rparr>) src = b" "data_parent (d3\<lparr>data_cont := True\<rparr>) = Some src"
      using same by (cases src; simp add: get_source_def)+
    ultimately have "data_wait accepts busy all rest r3 (d3\<lparr>data_cont := True\<rparr>) s1"
      using event(2) w(3-5,7,8) vw(2) unfolding data_wait_def
      by (intro exI [of _ x] exI [of _ e] exI [of _ src]) simp
    moreover have "\<exists>w. w \<noteq> [] \<and> sent (net_of s1) @ w = wire all"
      using event(4,5) z by (intro exI [of _ "y @ z"]) (simp flip: append_assoc)
    ultimately show ?thesis
      using run event(1,3) vw(1) ns by (auto simp: data_post_def)
  next
    case error
    have "\<exists>w. sent (net_of s1) @ w = wire all"
      using error(3) wall by (metis append_assoc)
    then show ?thesis
      using run vw(1) ns error(1,2) by (auto simp: data_post_def)
  qed
qed


lemma data_run:
  assumes nx: "\<And>r'. view r' = view r \<Longrightarrow> next_handler_body r' = handler"
    and "data_src rest r d" and "ready x s" and "rest \<noteq> [] \<longrightarrow> open_list x" and "x @ pieces rest = all"
    and "takes accepts x (pieces rest)"
  shows "returns (data_loop next_handler_body m False r d s) (data_post (never_fails m) all r s)"
  using assms
proof (induction "length (pieces rest)" arbitrary: rest r d x s rule: less_induct)
  case less
  obtain ok src r1 d1 where nc: "next_chunk_data m r d = Some (ok, src, r1, d1)" and vw: "view r1 = view r"
      and src: "if ok then offered rest (get_source r1 d1 src) \<and> (rest \<noteq> [] \<longrightarrow> src_left (drop BUF_SIZE rest) r1 d1 src) \<and>
        (src = Body_Buffer \<longrightarrow> -1 < fd (rfile r1)) else \<not> never_fails m"
    using next_chunk [OF less.prems(2), of m] by (auto elim!: returnsE)
  have sent: "\<exists>z. sent (net_of s) @ z = wire all"
    using ready_sent [OF less.prems(3)] wire_prefix [of x "pieces rest"] less.prems(5) by auto
  consider "\<not> ok" | "ok" "rest = []" | "ok" "rest \<noteq> []"
    by blast
  then show ?case
  proof cases
    case 1
    then show ?thesis
      using nc src vw sent by (subst data_loop.simps) (simp add: data_post_def)
  next
    case 2
    then have "data_loop next_handler_body m False r d s = Some (CWF_OK, r1, d1, s)"
      using nc src by (subst data_loop.simps) (simp add: offered_def)
    then show ?thesis
      using 2 less.prems(3,5) vw by (simp add: data_post_def)
  next
    case 3
    let ?b = "get_source r1 d1 src"
    define e where "e = (unread ?b, is_last ?b)"
    have b: "readable ?b" "unread ?b = take BUF_SIZE rest" "is_last ?b = (length rest \<le> BUF_SIZE)"
      using src 3 by (simp_all add: offered_def)
    have "unread ?b \<noteq> []"
      using b(2) 3(2) by (simp add: BUF_SIZE_def)
    then have "0 < bsize ?b - pos ?b"
      using length_unread [OF b(1)] by (metis length_greater_0_conv)
    then have ne: "\<not> (pos ?b = bsize ?b \<or> bsize ?b = 0)"
      by auto
    have all: "x @ e # pieces (drop BUF_SIZE rest) = all"
      using less.prems(5) 3(2) b by (simp add: pieces_Cons e_def)
    define d2 where "d2 = d1\<lparr>data_parent := Some src\<rparr>"
    have gs: "get_source r1 d2 src = ?b"
      by (simp add: d2_def get_source_def split: data_source.split)
    have run: "data_loop next_handler_body m False r d s = data_loop next_handler_body m True r1 d2 s"
      using nc 3(1) ne by (subst data_loop.simps, subst (2) data_loop.simps) (simp add: d2_def)
    have "busy x e s ?b"
      unfolding e_def using offer [OF less.prems(3) _ b(1)] less.prems(4,6) 3(2) b by (simp add: pieces_Cons)
    moreover have "src_left (drop BUF_SIZE rest) r1 d2 src"
      using src 3 unfolding src_left_def gs by (cases src) (auto simp: put_source_def d2_def get_source_def)
    ultimately have wt: "data_wait accepts busy all (drop BUF_SIZE rest) r1 d2 s"
      unfolding data_wait_def using all gs less.prems(4,6) 3 src b
      by (intro exI [of _ x] exI [of _ e] exI [of _ src]) (auto simp: d2_def e_def pieces_Cons)
    have lt: "length (pieces (drop BUF_SIZE rest)) < length (pieces rest)"
      using 3(2) by (simp add: pieces_Cons)
    have "returns (data_loop next_handler_body m True r1 d2 s) (data_post (never_fails m) all r1 s)"
    proof (rule data_send [OF _ wt])
      show "next_handler_body r' = handler" if "view r' = view r1" for r'
        using that less.prems(1) vw by simp
      show "returns (data_loop next_handler_body m False r' d' s') (data_post (never_fails m) all r' s')"
        if "data_src (drop BUF_SIZE rest) r' d'" "view r' = view r1" "ready x' s'" "drop BUF_SIZE rest \<noteq> [] \<longrightarrow> open_list x'"
          "x' @ pieces (drop BUF_SIZE rest) = all" "takes accepts x' (pieces (drop BUF_SIZE rest))" for x' r' d' s'
        by (rule less.hyps [OF lt _ that(1,3-6)]) (use that(2) less.prems(1) vw in simp)
    qed
    then show ?thesis
      unfolding run by (auto elim!: returns_mono intro: data_post_step [OF _ vw net_step_refl])
  qed
qed

end

end
