(* ===== verification/Http_Range.thy ===== *)
theory Http_Range
  imports Http_Data
begin

text \<open>
  The range filter (protocols/http/server/filters/http_range_filter.c): it resolves the ranges of a request against the
  size of the representation and sends a single range, or a multipart body of several ranges, instead of the
  whole body.
\<close>

section \<open>State\<close>

record http_range_part =
  part_start :: nat
  part_size :: nat

datatype mp_state = MP_STATE_TEXT | MP_STATE_DATA | MP_STATE_DONE

text \<open>\<open>parts_count\<close> is the length of \<open>parts\<close>, \<open>text_len\<close> the length of \<open>mp_text\<close>, \<open>boundary\<close> the characters before the
  terminator.\<close>

record http_module_range =
  range_cont :: bool
  range_buf :: bufo
  range_size :: nat
  range_pos :: nat
  range_start :: nat
  unsatisfiable :: bool
  mp_active :: bool
  parts :: "http_range_part list"
  part_index :: nat
  mp_state :: mp_state
  mp_total :: nat
  data_pos :: nat
  part_ctype :: "string option"
  mp_text :: "string option"
  text_pos :: nat
  boundary :: string

definition range_module_clear :: "http_module_range \<Rightarrow> http_module_range" where
  "range_module_clear g = g\<lparr>parts := [], part_index := 0, part_ctype := None, mp_text := None, text_pos := 0,
     mp_state := MP_STATE_TEXT, mp_total := 0, data_pos := 0, mp_active := False, unsatisfiable := False, boundary := [],
     range_pos := 0, range_size := 0, range_start := 0\<rparr>"

definition range_module_reset :: "http_module_range \<Rightarrow> http_module_range" where
  "range_module_reset g = (range_module_clear (g\<lparr>range_cont := False\<rparr>))\<lparr>range_buf := bufo_flush (range_buf g)\<rparr>"

section \<open>Resolving a range\<close>

text \<open>The result is -1 for a malformed range, 0 for one that selects nothing, 1 with the part otherwise.\<close>

definition range_resolve :: "int \<Rightarrow> int \<Rightarrow> nat \<Rightarrow> int \<times> http_range_part option" where
  "range_resolve source_start source_end dsize =
     (if source_start < -1 \<or> source_end < -1 then (-1, None)
      else let (start, final) =
             (if source_start = -1 then
                let suffix_len = (if 0 < source_end then nat source_end else 0);
                    suffix_len1 = (if dsize < suffix_len then dsize else suffix_len)
                in (dsize - suffix_len1, dsize)
              else let e = (if source_end = -1 then dsize else nat source_end + 1)
                   in (nat source_start, if dsize < e then dsize else e))
           in if final \<le> start then (0, None)
              else (1, Some \<lparr>part_start = start, part_size = final - start\<rparr>))"

section \<open>Reading the representation\<close>

definition SSIZE_MAX :: nat where
  "SSIZE_MAX = 2 ^ 63 - 1"

text \<open>The inner result is \<open>None\<close> where the code returns -1; the outer one when the copy leaves the body.\<close>

definition range_read_data :: "httpresponse \<Rightarrow> nat \<Rightarrow> nat \<Rightarrow> (char list option \<times> httpresponse) option" where
  "range_read_data r off sz =
     (if sz = 0 then Some (Some [], r)
      else if -1 < fd (rfile r) then
        if SSIZE_MAX < off then Some (None, r)
        else let (got, f) = http_pread (rfile r) sz off in Some (got, r\<lparr>rfile := f\<rparr>)
      else case bdata (body r) of
             None \<Rightarrow> Some (None, r)
           | Some blk \<Rightarrow> map_option (\<lambda>data. (Some data, r)) (peek blk off sz))"

definition range_get_chunk :: "httpresponse \<Rightarrow> http_module_range \<Rightarrow> (bool \<times> httpresponse \<times> http_module_range) option" where
  "range_get_chunk r g =
     (case bdata (range_buf g) of
        None \<Rightarrow> Some (False, r, g)
      | Some blk \<Rightarrow>
          if range_size g < range_pos g then Some (False, r, g)
          else let remaining = range_size g - range_pos g;
                   sz = (if remaining < capacity (range_buf g) then remaining else capacity (range_buf g))
               in do {
                 (got, r1) \<leftarrow> range_read_data r (szadd (range_start g) (range_pos g)) sz;
                 (case got of
                    None \<Rightarrow> Some (False, r1, g)
                  | Some data \<Rightarrow> do {
                      blk1 \<leftarrow> poke blk 0 data;
                      let rpos = range_pos g + length data;
                      let b1 = (range_buf g)\<lparr>bdata := Some blk1\<rparr>;
                      let b2 = (if rpos = range_size g \<or> data = [] \<and> 0 < sz then b1\<lparr>is_last := True\<rparr> else b1);
                      Some (True, r1, g\<lparr>range_pos := rpos, range_buf := bufo_set_size (bufo_reset_pos b2) (length data)\<rparr>)
                    })
               })"

section \<open>Multipart framing\<close>

text \<open>\<open>%zu\<close>.\<close>

fun dec_string :: "nat \<Rightarrow> string" where
  "dec_string n = (if n < 10 then [''0123456789'' ! n] else dec_string (n div 10) @ [''0123456789'' ! (n mod 10)])"

declare dec_string.simps [simp del]

definition CRLF :: string where
  "CRLF = [CHR 0x0D, CHR 0x0A]"

text \<open>The characters come from \<open>rand\<close>, whose values are an argument.\<close>

definition mp_generate_boundary :: "nat list \<Rightarrow> http_module_range \<Rightarrow> http_module_range" where
  "mp_generate_boundary rands g =
     g\<lparr>boundary := map (\<lambda>n. ''0123456789abcdefghijklmnopqrstuvwxyzABCDEFGHIJKLMNOPQRSTUVWXYZ'' ! (n mod 62)) (take 16 rands)\<rparr>"

definition mp_part_header :: "http_module_range \<Rightarrow> http_range_part \<Rightarrow> string" where
  "mp_part_header g part =
     ''--'' @ boundary g @ CRLF @ ''Content-Type: '' @ (case part_ctype g of None \<Rightarrow> [] | Some c \<Rightarrow> c) @ CRLF @
     ''Content-Range: bytes '' @ dec_string (part_start part) @ ''-'' @ dec_string (part_start part + part_size part - 1) @ ''/'' @
     dec_string (mp_total g) @ CRLF @ CRLF"

definition mp_close :: "http_module_range \<Rightarrow> string" where
  "mp_close g = ''--'' @ boundary g @ ''--'' @ CRLF"

text \<open>\<open>snprintf\<close> fails when the length is not an \<open>int\<close>.\<close>

definition mp_part_header_length :: "http_module_range \<Rightarrow> http_range_part \<Rightarrow> int" where
  "mp_part_header_length g part =
     (let n = length (mp_part_header g part) in if 2147483647 < n then -1 else int n)"

definition mp_stage_text :: "allocator \<Rightarrow> http_module_range \<Rightarrow> bool \<Rightarrow> bool \<times> http_module_range" where
  "mp_stage_text m g lead_crlf =
     (let g1 = g\<lparr>mp_text := None, text_pos := 0\<rparr>;
          prefix = (if lead_crlf then 2 else 0);
          close_frame = length (parts g) \<le> part_index g;
          body_length = (if close_frame then int (length (boundary g) + 6) else mp_part_header_length g (parts g ! part_index g))
      in if body_length < 0 then (False, g1)
         else case malloc m (prefix + nat body_length + 1) of
                None \<Rightarrow> (False, g1)
              | Some _ \<Rightarrow> (True, g1\<lparr>mp_text := Some ((if lead_crlf then CRLF else []) @
                   (if close_frame then mp_close g else mp_part_header g (parts g ! part_index g)))\<rparr>))"

text \<open>The loop of \<open>mp_fill_chunk\<close>; \<open>blk\<close> is the block of the buffer, of which \<open>filled\<close> bytes are written.\<close>

partial_function (option) mp_fill_loop ::
    "allocator \<Rightarrow> httpresponse \<Rightarrow> http_module_range \<Rightarrow> char list \<Rightarrow> nat \<Rightarrow>
     (bool \<times> httpresponse \<times> http_module_range \<times> char list \<times> nat) option" where
  "mp_fill_loop m r g blk filled =
     (if filled < capacity (range_buf g) \<and> mp_state g \<noteq> MP_STATE_DONE then
        let space = capacity (range_buf g) - filled in
        if mp_state g = MP_STATE_TEXT then
          (case mp_text g of
             None \<Rightarrow> Some (False, r, g, blk, filled)
           | Some txt \<Rightarrow>
               let left = length txt - text_pos g;
                   n = (if left < space then left else space)
               in do {
                 data \<leftarrow> peek txt (text_pos g) n;
                 blk1 \<leftarrow> poke blk filled data;
                 let tpos = text_pos g + n;
                 let g1 = g\<lparr>text_pos := tpos\<rparr>;
                 mp_fill_loop m r
                   (if tpos = length txt
                    then g1\<lparr>mp_state := (if part_index g < length (parts g) then MP_STATE_DATA else MP_STATE_DONE), data_pos := 0\<rparr>
                    else g1) blk1 (filled + n)
               })
        else do {
          part \<leftarrow> (if part_index g < length (parts g) then Some (parts g ! part_index g) else None);
          let left = szsub (part_size part) (data_pos g);
          let n = (if left < space then left else space);
          (got, r1) \<leftarrow> range_read_data r (szadd (part_start part) (data_pos g)) n;
          (case got of
             None \<Rightarrow> Some (False, r1, g, blk, filled)
           | Some data \<Rightarrow> do {
               blk1 \<leftarrow> poke blk filled data;
               (if data = [] \<and> 0 < n then Some (False, r1, g, blk1, filled)
                else let g1 = g\<lparr>data_pos := data_pos g + length data\<rparr>
                     in if data_pos g1 = part_size part then
                          let (ok, g2) = mp_stage_text m (g1\<lparr>part_index := part_index g + 1\<rparr>) True
                          in if \<not> ok then Some (False, r1, g2, blk1, filled + length data)
                             else mp_fill_loop m r1 (g2\<lparr>mp_state := MP_STATE_TEXT\<rparr>) blk1 (filled + length data)
                        else mp_fill_loop m r1 g1 blk1 (filled + length data))
             })
        }
      else Some (True, r, g, blk, filled))"

definition mp_fill_chunk :: "allocator \<Rightarrow> httpresponse \<Rightarrow> http_module_range \<Rightarrow> (bool \<times> httpresponse \<times> http_module_range) option" where
  "mp_fill_chunk m r g =
     (case bdata (range_buf g) of
        None \<Rightarrow> Some (False, r, g)
      | Some blk \<Rightarrow> do {
          (ok, r1, g1, blk1, filled) \<leftarrow> mp_fill_loop m r g blk 0;
          let b1 = (range_buf g1)\<lparr>bdata := Some blk1\<rparr>;
          Some (if \<not> ok then (False, r1, g1\<lparr>range_buf := b1\<rparr>)
                else (True, r1, g1\<lparr>range_buf := bufo_set_size (bufo_reset_pos
                        (if mp_state g1 = MP_STATE_DONE then b1\<lparr>is_last := True\<rparr> else b1)) filled\<rparr>))
        })"

section \<open>The body handler\<close>

text \<open>The loop of \<open>range_handler_body\<close>, entered at the label \<open>cont\<close> when \<open>resume\<close> is set.\<close>

partial_function (option) range_loop ::
    "(httpresponse \<Rightarrow> 's \<Rightarrow> bufo \<Rightarrow> (cwf \<times> 's \<times> bufo) option) \<Rightarrow> allocator \<Rightarrow> bool \<Rightarrow> httpresponse \<Rightarrow> http_module_range \<Rightarrow> 's \<Rightarrow>
     (cwf \<times> httpresponse \<times> http_module_range \<times> 's) option" where
  "range_loop next_handler_body m resume r g s = do {
     (filled, r1, g1) \<leftarrow>
       (if resume then Some (True, r, g)
        else if mp_active g then mp_fill_chunk m r g else range_get_chunk r g);
     (if \<not> filled then Some (CWF_ERROR, r1, g1, s)
      else do {
        (c, s1, b) \<leftarrow> next_handler_body r1 s (range_buf g1);
        let g2 = g1\<lparr>range_buf := b, range_cont := False\<rparr>;
        (if c = CWF_DATA_AGAIN then
           if pos b < bsize b then Some (CWF_ERROR, r1, g2, s1)
           else if is_last b then Some (CWF_OK, r1, g2, s1)
           else range_loop next_handler_body m False r1 g2 s1
         else Some (c, r1, g2\<lparr>range_cont := (c = CWF_EVENT_AGAIN)\<rparr>, s1))
      })
   }"

text \<open>\<open>pass\<close> is the next body handler for the case in which the filter does nothing, with the buffer it was offered.\<close>

definition range_handler_body ::
    "(httpresponse \<Rightarrow> 's \<Rightarrow> bufo \<Rightarrow> (cwf \<times> 's \<times> bufo) option) \<Rightarrow>
     (httpresponse \<times> 's \<Rightarrow> bufo option \<Rightarrow> (cwf \<times> (httpresponse \<times> 's) \<times> bufo option) option) \<Rightarrow> allocator \<Rightarrow> httprequest option \<Rightarrow>
     httpresponse \<times> http_module_range \<times> 's \<Rightarrow> bufo option \<Rightarrow> (cwf \<times> (httpresponse \<times> http_module_range \<times> 's) \<times> bufo option) option" where
  "range_handler_body next_handler_body pass m request = (\<lambda>(r, g, s) parent_buf.
     if request = None \<or> \<not> range_flag r \<or> last_modified r then do {
       (c, (r1, s1), b) \<leftarrow> pass (r, s) parent_buf;
       Some (c, (r1, g, s1), b)
     }
     else if unsatisfiable g then Some (CWF_OK, (r, g, s), parent_buf)
     else if (case request of None \<Rightarrow> False | Some q \<Rightarrow> req_method q = ROUTE_HEAD) then Some (CWF_OK, (r, g, s), parent_buf)
     else do {
       (c, r1, g1, s1) \<leftarrow> range_loop next_handler_body m (range_cont g) r g s;
       Some (c, (r1, g1, s1), parent_buf)
     })"

end
