(* ===== verification/Http_Chain.thy ===== *)
theory Http_Chain
  imports Http_Chunked Http_Gzip Http_Range Http_Te
begin

text \<open>
  The chain of body filters as filters_create puts it together: not modified, range, data, gzip, chunked, write; and
  the loop of the write event (httpserverhandlers.c) that runs it. The contracts of the filters compose: the
  theory shows that a response body arrives complete and in order, however the socket divides it, and
  that the chunked coding of the server is what the decoder of the client reads.
\<close>

section \<open>The chain\<close>

type_synonym 'z lower = "'z http_module_gzip \<times> http_module_chunked \<times> net"
type_synonym 'z chain = "httpresponse \<times> http_module_range \<times> http_module_data \<times> 'z lower"

definition lower_body :: "'z zlib \<Rightarrow> allocator \<Rightarrow> httpresponse \<Rightarrow> 'z lower \<Rightarrow> bufo \<Rightarrow> (cwf \<times> 'z lower \<times> bufo) option" where
  "lower_body zl m r = gzip_body (http_chunked_body http_write_body m r) zl r"

text \<open>The data filter as the range filter calls it with a buffer of its own, and with the buffer it got.\<close>

definition data_next :: "'z zlib \<Rightarrow> allocator \<Rightarrow> httprequest option \<Rightarrow> httpresponse \<Rightarrow> http_module_data \<times> 'z lower \<Rightarrow> bufo \<Rightarrow>
    (cwf \<times> (http_module_data \<times> 'z lower) \<times> bufo) option" where
  "data_next zl m request r = (\<lambda>(d, s) b. do {
     (c, (r1, d1, s1), b1) \<leftarrow> data_body (lower_body zl m) m request (r, d, s) (Some b);
     b2 \<leftarrow> b1;
     Some (c, (d1, s1), b2)
   })"

definition http_not_modified_body :: "'z zlib \<Rightarrow> allocator \<Rightarrow> httprequest option \<Rightarrow> 'z chain \<Rightarrow> (cwf \<times> 'z chain) option" where
  "http_not_modified_body zl m request st = do {
     (c, st1, _) \<leftarrow> range_handler_body (data_next zl m request) (data_body (lower_body zl m) m request) m request st None;
     Some (c, st1)
   }"

definition set_event_again :: "bool \<Rightarrow> 'z chain \<Rightarrow> 'z chain" where
  "set_event_again e = (\<lambda>(r, g, d, z, c, n). (r, g, d, z, c, n\<lparr>event_again := e\<rparr>))"

partial_function (option) run_body_loop :: "'z zlib \<Rightarrow> allocator \<Rightarrow> httprequest option \<Rightarrow> 'z chain \<Rightarrow> (cwf \<times> 'z chain) option" where
  "run_body_loop zl m request st = do {
     (c, st1) \<leftarrow> http_not_modified_body zl m request st;
     (case c of
        CWF_OK \<Rightarrow> Some (c, st1)
      | CWF_ERROR \<Rightarrow> Some (c, st1)
      | CWF_EVENT_AGAIN \<Rightarrow> Some (c, set_event_again True st1)
      | CWF_DATA_AGAIN \<Rightarrow> run_body_loop zl m request st1)
   }"

definition run_body_filters :: "'z zlib \<Rightarrow> allocator \<Rightarrow> httprequest option \<Rightarrow> 'z chain \<Rightarrow> (cwf \<times> 'z chain) option" where
  "run_body_filters zl m request st = run_body_loop zl m request (set_event_again False st)"

section \<open>Write events\<close>

definition chain_net :: "'z chain \<Rightarrow> net" where
  "chain_net = (\<lambda>(r, g, d, z, c, n). n)"

definition new_answers :: "send_answer list \<Rightarrow> 'z chain \<Rightarrow> 'z chain" where
  "new_answers as = (\<lambda>(r, g, d, z, c, n). (r, g, d, z, c, n\<lparr>answers := as\<rparr>))"

text \<open>The event loop calls the handler once for each list of answers, while it asks to be called again.\<close>

fun body_events :: "'z zlib \<Rightarrow> allocator \<Rightarrow> httprequest option \<Rightarrow> send_answer list list \<Rightarrow> 'z chain \<Rightarrow> (cwf \<times> 'z chain) option" where
  "body_events zl m request [] st = Some (CWF_EVENT_AGAIN, st)"
| "body_events zl m request (as # evs) st = do {
     (c, st1) \<leftarrow> run_body_filters zl m request (new_answers as st);
     (if c = CWF_EVENT_AGAIN then body_events zl m request evs st1 else Some (c, st1))
   }"

section \<open>The composed contract\<close>

interpretation low: gzip_over "http_chunked_body http_write_body m r" "chunked_net (\<lambda>n. n)" "chunked_refill net_refill"
    "chunked_ready r (write_ready base)" "chunked_busy r (write_ready base) (write_busy base)" "chunked_wire base r"
    "\<lambda>_. chunked_accepts r" "True \<and> never_fails m" zl g0 r for base m r zl g0
  by unfold_locales


text \<open>The contract of the filters below the data filter, written out.\<close>

definition low_net :: "'z lower \<Rightarrow> net" where
  "low_net = gzip_net (chunked_net (\<lambda>n. n))"

definition low_refill :: "send_answer list \<Rightarrow> 'z lower \<Rightarrow> 'z lower" where
  "low_refill = gzip_refill (chunked_refill net_refill)"

definition low_ready :: "char list \<Rightarrow> 'z zlib \<Rightarrow> 'z gzip \<Rightarrow> httpresponse \<Rightarrow> (char list \<times> bool) list \<Rightarrow> 'z lower \<Rightarrow> bool" where
  "low_ready base zl g0 r = gzip_ready zl g0 r (chunked_ready r (write_ready base))"

definition low_busy :: "char list \<Rightarrow> 'z zlib \<Rightarrow> 'z gzip \<Rightarrow> httpresponse \<Rightarrow> (char list \<times> bool) list \<Rightarrow> char list \<times> bool \<Rightarrow> 'z lower \<Rightarrow> bufo \<Rightarrow> bool" where
  "low_busy base zl g0 r = gzip_busy zl g0 r (\<lambda>_. chunked_accepts r) (chunked_ready r (write_ready base))
     (chunked_busy r (write_ready base) (write_busy base))"

definition low_wire :: "char list \<Rightarrow> 'z zlib \<Rightarrow> 'z gzip \<Rightarrow> httpresponse \<Rightarrow> (char list \<times> bool) list \<Rightarrow> char list" where
  "low_wire base zl g0 r = gzip_wire zl g0 r (chunked_wire base r)"

definition low_accepts :: "'z zlib \<Rightarrow> 'z gzip \<Rightarrow> httpresponse \<Rightarrow> (char list \<times> bool) list \<Rightarrow> char list \<times> bool \<Rightarrow> bool" where
  "low_accepts zl g0 r = gzip_accepts zl g0 r (\<lambda>_. chunked_accepts r)"

lemmas low_defs = low_net_def low_refill_def low_ready_def low_busy_def low_wire_def low_accepts_def

interpretation lb: body_sink "lower_body zl m r" low_net low_refill "low_ready base zl g0 r" "low_busy base zl g0 r"
    "low_wire base zl g0 r" "low_accepts zl g0 r" "never_fails m" for base zl m r g0
  unfolding low_defs lower_body_def by (rule low.gzip.body_sink_axioms [simplified simp_thms])

lemma lower_body_cong: "view r' = view r \<Longrightarrow> lower_body zl m r' = lower_body zl m r"
  by (simp add: view_def lower_body_def gzip_body_def http_chunked_body_def gzip_passes_def chunked_passes_def)

lemma low_simps [simp]:
  "low_net (z, c, n) = n" "low_refill as (z, c, n) = (z, c, net_refill as n)"
  by (simp_all add: low_net_def gzip_net_def chunked_net_def low_refill_def gzip_refill_def chunked_refill_def)

section \<open>One write event\<close>

text \<open>Responses whose body the data filter sends.\<close>

definition plain_body :: "httprequest option \<Rightarrow> httpresponse \<Rightarrow> bool" where
  "plain_body request r \<longleftrightarrow> \<not> range_flag r \<and> status r \<noteq> 304 \<and>
     (case request of None \<Rightarrow> True | Some q \<Rightarrow> req_method q \<noteq> ROUTE_HEAD)"

text \<open>The chain before the next event: nothing is sent yet, or a piece is in progress. \<open>all\<close> are all pieces.\<close>

definition chain_ready :: "char list \<Rightarrow> 'z zlib \<Rightarrow> 'z gzip \<Rightarrow> httpresponse \<Rightarrow> (char list \<times> bool) list \<Rightarrow> 'z chain \<Rightarrow> bool" where
  "chain_ready base zl g0 r0 all = (\<lambda>(r, g, d, s). view r = view r0 \<and> (\<forall>as.
     if data_cont d then \<exists>rest. data_wait (low_accepts zl g0 r0) (low_busy base zl g0 r0) all rest r d (low_refill as s)
     else \<exists>rest. data_src rest r d \<and> all = pieces rest \<and> low_ready base zl g0 r0 [] (low_refill as s) \<and>
       takes (low_accepts zl g0 r0) [] all))"

definition event_post :: "char list \<Rightarrow> 'z zlib \<Rightarrow> 'z gzip \<Rightarrow> bool \<Rightarrow> httpresponse \<Rightarrow> (char list \<times> bool) list \<Rightarrow> send_answer list \<Rightarrow>
    'z chain \<Rightarrow> cwf \<times> 'z chain \<Rightarrow> bool" where
  "event_post base zl g0 mem r0 all as st = (\<lambda>(c, st1).
     (c = CWF_OK \<and> sent (chain_net st1) = low_wire base zl g0 r0 all \<or>
      c = CWF_EVENT_AGAIN \<and> chain_ready base zl g0 r0 all st1 \<and>
        length (sent (chain_net st)) + wrotes as \<le> length (sent (chain_net st1)) \<and>
        (\<exists>rest. rest \<noteq> [] \<and> sent (chain_net st1) @ rest = low_wire base zl g0 r0 all) \<or>
      c = CWF_ERROR \<and> (breaks as \<or> \<not> mem) \<and> (\<exists>rest. sent (chain_net st1) @ rest = low_wire base zl g0 r0 all)))"

lemma chain_net_low: "chain_net (r, g, d, s) = low_net s"
  by (cases s) (simp add: chain_net_def)

lemma data_wait_refill:
  "data_wait (low_accepts zl g0 r0) (low_busy base zl g0 r0) all rest r d s \<Longrightarrow>
    data_wait (low_accepts zl g0 r0) (low_busy base zl g0 r0) all rest r d (low_refill as s)"
  unfolding data_wait_def using lb.refill_busy by blast

lemma data_body_event:
  assumes rd: "chain_ready base zl g0 r0 all (r, g, d, s)"
  shows "returns (data_loop (lower_body zl m) m (data_cont d) r d (low_refill as s))
    (\<lambda>(c, r1, d1, s1). event_post base zl g0 (never_fails m) r0 all as (r, g, d, s) (c, (r1, g, d1, s1)))"
proof -
  have vw: "view r = view r0"
    using rd by (simp add: chain_ready_def)
  have nx: "lower_body zl m r' = lower_body zl m r0" if "view r' = view r" for r'
    using that vw by (intro lower_body_cong) simp
  let ?post = "lb.data_post base zl g0 r0 m (never_fails m) all r (low_refill as s)"
  have run: "returns (data_loop (lower_body zl m) m (data_cont d) r d (low_refill as s)) ?post"
  proof (cases "data_cont d")
    case True
    then obtain rest where wt: "data_wait (low_accepts zl g0 r0) (low_busy base zl g0 r0) all rest r d (low_refill as s)"
      using rd by (auto simp: chain_ready_def)
    have "returns (data_loop (lower_body zl m) m True r d (low_refill as s)) ?post"
      by (rule lb.data_send [OF nx wt], assumption, rule lb.data_run [OF nx]) simp_all
    then show ?thesis
      by (simp add: True)
  next
    case False
    then obtain rest where w: "data_src rest r d" "all = pieces rest" "low_ready base zl g0 r0 [] (low_refill as s)"
        "takes (low_accepts zl g0 r0) [] all"
      using rd by (auto simp: chain_ready_def)
    have "returns (data_loop (lower_body zl m) m False r d (low_refill as s)) ?post"
      by (rule lb.data_run [OF nx w(1) w(3)]) (use w in \<open>simp_all add: open_list_def\<close>)
    then show ?thesis
      by (simp add: False)
  qed
  have post: "event_post base zl g0 (never_fails m) r0 all as (r, g, d, s) (c, (r1, g, d1, s1))"
    if p: "?post (c, r1, d1, s1)" for c r1 d1 s1
  proof -
    have n: "net_step (low_net (low_refill as s)) (low_net s1)" and v: "view r1 = view r"
      using p by (simp_all add: lb.data_post_def)
    consider "c = CWF_OK" "low_ready base zl g0 r0 all s1"
      | rest where "c = CWF_EVENT_AGAIN" "data_cont d1" "data_wait (low_accepts zl g0 r0) (low_busy base zl g0 r0) all rest r1 d1 s1"
          "answers (low_net s1) = []" "\<exists>rest. rest \<noteq> [] \<and> sent (low_net s1) @ rest = low_wire base zl g0 r0 all"
      | "c = CWF_ERROR" "breaks (answers (low_net (low_refill as s))) \<or> \<not> never_fails m"
          "\<exists>rest. sent (low_net s1) @ rest = low_wire base zl g0 r0 all"
      using p by (auto simp: lb.data_post_def)
    then show ?thesis
    proof cases
      case 1
      then show ?thesis
        using lb.ready_sent [OF 1(2)] by (simp add: event_post_def chain_net_low)
    next
      case 2
      then show ?thesis
        using n v vw by (auto simp: event_post_def chain_net_low chain_ready_def net_step_def lb.refill_net intro: data_wait_refill)
    next
      case 3
      then show ?thesis
        by (simp add: event_post_def chain_net_low lb.refill_net)
    qed
  qed
  show ?thesis
    by (rule returns_mono [OF run]) (use post in auto)
qed

lemma set_new_answers: "set_event_again False (new_answers as (r, g, d, s)) = (r, g, d, low_refill as s)"
  by (cases s) (simp add: set_event_again_def new_answers_def net_refill_def)

lemma chain_ready_event: "chain_ready base zl g0 r0 all (set_event_again e st) = chain_ready base zl g0 r0 all st"
  by (cases st) (simp add: chain_ready_def set_event_again_def net_refill_def)

lemma chain_net_event [simp]: "sent (chain_net (set_event_again e st)) = sent (chain_net st)"
  by (cases st) (simp add: chain_net_def set_event_again_def)

lemma plain_body_view: "view r = view r0 \<Longrightarrow> plain_body request r = plain_body request r0"
  by (simp add: plain_body_def view_def)

lemma run_body_event:
  assumes rd: "chain_ready base zl g0 r0 all st" and pl: "plain_body request r0"
  shows "returns (run_body_filters zl m request (new_answers as st)) (event_post base zl g0 (never_fails m) r0 all as st)"
proof -
  obtain r g d s where st: "st = (r, g, d, s)"
    by (cases st) 
  have pr: "plain_body request r"
    using rd pl plain_body_view [of r r0 request] by (simp add: st chain_ready_def)
  obtain c r1 d1 s1 where dl: "data_loop (lower_body zl m) m (data_cont d) r d (low_refill as s) = Some (c, r1, d1, s1)"
      and ep: "event_post base zl g0 (never_fails m) r0 all as st (c, (r1, g, d1, s1))"
    using data_body_event [OF rd [unfolded st], of m as] by (auto elim!: returnsE simp: st)
  have nm: "http_not_modified_body zl m request (r, g, d, low_refill as s) = Some (c, (r1, g, d1, s1))"
    using pr dl by (auto simp: http_not_modified_body_def range_handler_body_def data_body_def plain_body_def split: option.splits)
  consider "c = CWF_OK" | "c = CWF_EVENT_AGAIN" | "c = CWF_ERROR"
    using ep by (auto simp: event_post_def)
  then show ?thesis
    using ep
    by cases (simp_all add: run_body_filters_def st set_new_answers run_body_loop.simps nm returns_def event_post_def chain_ready_event)
qed

section \<open>A response\<close>

definition events_post :: "char list \<Rightarrow> bool \<Rightarrow> send_answer list list \<Rightarrow> nat \<Rightarrow> cwf \<times> 'z chain \<Rightarrow> bool" where
  "events_post wire mem evs n = (\<lambda>(c, st1). (\<exists>rest. sent (chain_net st1) @ rest = wire) \<and> c \<noteq> CWF_DATA_AGAIN \<and>
     (c = CWF_OK \<longrightarrow> sent (chain_net st1) = wire) \<and> (c = CWF_ERROR \<longrightarrow> breaks (concat evs) \<or> \<not> mem) \<and>
     (c = CWF_EVENT_AGAIN \<longrightarrow> n + wrotes (concat evs) \<le> length (sent (chain_net st1)) \<and>
        (evs \<noteq> [] \<longrightarrow> length (sent (chain_net st1)) < length wire)))"

lemma body_events_run:
  "chain_ready base zl g0 r0 all st \<Longrightarrow> plain_body request r0 \<Longrightarrow> \<exists>rest. sent (chain_net st) @ rest = low_wire base zl g0 r0 all \<Longrightarrow>
    returns (body_events zl m request evs st)
      (events_post (low_wire base zl g0 r0 all) (never_fails m) evs (length (sent (chain_net st))))"
proof (induction evs arbitrary: st)
  case Nil
  then show ?case
    by (simp add: returns_def events_post_def)
next
  case (Cons as evs)
  obtain c st1 where run: "run_body_filters zl m request (new_answers as st) = Some (c, st1)"
      and ep: "event_post base zl g0 (never_fails m) r0 all as st (c, st1)"
    using run_body_event [OF Cons.prems(1,2), of m as] by (auto elim!: returnsE)
  show ?case
  proof (cases "c = CWF_EVENT_AGAIN")
    case True
    then have rd: "chain_ready base zl g0 r0 all st1"
        and n: "length (sent (chain_net st)) + wrotes as \<le> length (sent (chain_net st1))"
        and rest: "\<exists>rest. rest \<noteq> [] \<and> sent (chain_net st1) @ rest = low_wire base zl g0 r0 all"
      using ep by (simp_all add: event_post_def)
    have ev: "body_events zl m request (as # evs) st = body_events zl m request evs st1"
      by (simp add: run True)
    have lt: "length (sent (chain_net st1)) < length (low_wire base zl g0 r0 all)"
      using rest by (metis length_append length_greater_0_conv less_add_same_cancel1)
    have "events_post (low_wire base zl g0 r0 all) (never_fails m) (as # evs) (length (sent (chain_net st))) t"
      if p: "events_post (low_wire base zl g0 r0 all) (never_fails m) evs (length (sent (chain_net st1))) t"
        and e: "body_events zl m request evs st1 = Some t" for t
    proof (cases "evs = []")
      case True
      then show ?thesis
        using e n rest lt by (auto simp: events_post_def)
    next
      case False
      then show ?thesis
        using p n by (auto simp: events_post_def breaks_def)
    qed
    moreover have "\<exists>rest. sent (chain_net st1) @ rest = low_wire base zl g0 r0 all"
      using rest by blast
    ultimately show ?thesis
      using Cons.IH [OF rd Cons.prems(2)] unfolding ev by (cases "body_events zl m request evs st1") (simp_all add: returns_def)
  next
    case False
    then show ?thesis
      using ep run by (auto simp: returns_def event_post_def events_post_def breaks_def)
  qed
qed

text \<open>The chain before the first event: the head is sent, the modules are as the reset functions leave them, and the
  data filter is to send \<open>content\<close>, from the body buffer or from the file.\<close>

definition chain_start :: "char list \<Rightarrow> char list \<Rightarrow> httprequest option \<Rightarrow> 'z chain \<Rightarrow> bool" where
  "chain_start base content request = (\<lambda>(r, g, d, z, c, n). sent n = base \<and> plain_body request r \<and> data_src content r d \<and>
     \<not> data_cont d \<and> (chunked_passes r \<or> chunked_idle c) \<and>
     (gzip_passes r \<or> gz_alloc (gzip_buf z) \<and> \<not> is_last (gzip_buf z) \<and> \<not> gzip_cont z))"

definition chain_response :: "'z chain \<Rightarrow> httpresponse" where
  "chain_response = (\<lambda>(r, g, d, z, c, n). r)"

definition chain_gzip :: "'z chain \<Rightarrow> 'z gzip" where
  "chain_gzip = (\<lambda>(r, g, d, z, c, n). gzip_state z)"

lemma chain_start_ready:
  assumes st: "chain_start base content request st"
    and tk: "takes (low_accepts zl (chain_gzip st) (chain_response st)) [] (pieces content)"
  shows "chain_ready base zl (chain_gzip st) (chain_response st) (pieces content) st"
    "plain_body request (chain_response st)" "sent (chain_net st) = base"
proof -
  obtain r g d z c n where s: "st = (r, g, d, z, c, n)"
    by (cases st)
  note st' = st [unfolded s chain_start_def prod.case]
  have idle: "chunked_ready r (write_ready base) [] (c, net_refill as n)" for as
    using st' by (auto simp: chunked_ready_def write_ready_def net_refill_def frames_def intro!: exI [of _ "[]"])
  have "low_ready base zl (gzip_state z) r [] (low_refill as (z, c, n))" for as
    using st' idle [of as] by (auto simp: low_ready_def gzip_ready_def)
  then show "chain_ready base zl (chain_gzip st) (chain_response st) (pieces content) st"
    using st' tk by (auto simp: s chain_ready_def chain_response_def chain_gzip_def)
  show "plain_body request (chain_response st)" "sent (chain_net st) = base"
    using st' by (simp_all add: s chain_response_def chain_net_def)
qed

lemma body_events_start:
  assumes st: "chain_start base content request st" and w: "w = low_wire base zl (chain_gzip st) (chain_response st) (pieces content)"
    and tk: "takes (low_accepts zl (chain_gzip st) (chain_response st)) [] (pieces content)"
    and base: "\<exists>z. w = base @ z"
  shows "\<exists>c st1 rest. body_events zl m request evs st = Some (c, st1) \<and> sent (chain_net st1) @ rest = w \<and>
    c \<noteq> CWF_DATA_AGAIN \<and> (c = CWF_OK \<longrightarrow> rest = []) \<and> (c = CWF_ERROR \<longrightarrow> breaks (concat evs) \<or> \<not> never_fails m) \<and>
    (evs \<noteq> [] \<and> length w \<le> length base + wrotes (concat evs) \<and> \<not> breaks (concat evs) \<and> never_fails m \<longrightarrow> c = CWF_OK)"
proof -
  note s = chain_start_ready [OF st tk]
  have "\<exists>z. sent (chain_net st) @ z = w"
    using base s(3) by auto
  then obtain c st1 where b: "body_events zl m request evs st = Some (c, st1)"
      and p: "events_post w (never_fails m) evs (length base) (c, st1)"
    using body_events_run [OF s(1,2), of m evs] s(3) unfolding w by (auto elim!: returnsE)
  obtain rest where rest: "sent (chain_net st1) @ rest = w"
    using p by (auto simp: events_post_def)
  show ?thesis
    by (rule exI [of _ c], rule exI [of _ st1], rule exI [of _ rest]) (use b p rest in \<open>cases c; auto simp: events_post_def\<close>)
qed

lemma takes_pieces: "gzip_passes r \<Longrightarrow> takes (low_accepts zl g0 r) x (pieces content)"
proof (induction content arbitrary: x rule: pieces.induct)
  case (1 xs)
  have "low_accepts zl g0 r x (take BUF_SIZE xs, length xs \<le> BUF_SIZE)"
  proof (cases "length xs \<le> BUF_SIZE")
    case False
    then have "length (take BUF_SIZE xs) = BUF_SIZE"
      by simp
    moreover have "length (head_text BUF_SIZE) = 6"
      by (simp add: head_text_def hex_string.simps BUF_SIZE_def)
    ultimately show ?thesis
      using 1 by (simp add: low_accepts_def gzip_accepts_def chunked_accepts_def Let_def BUF_SIZE_def)
  qed (use 1 in \<open>simp add: low_accepts_def gzip_accepts_def chunked_accepts_def\<close>)
  then show ?case
    using 1 by (simp add: pieces.simps [of xs])
qed




section \<open>The client's decoder\<close>

lemma hextable_digit: "n < 16 \<Longrightarrow> hextable (''0123456789abcdef'' ! n) = int n"
proof -
  assume "n < 16"
  then have "n \<in> {0, 1, 2, 3, 4, 5, 6, 7, 8, 9, 10, 11, 12, 13, 14, 15}"
    by (simp; presburger)
  then show ?thesis
    by (auto simp: hextable_def)
qed

lemma hex_string_number: "hex_number (hex_string n) = int n"
proof (induction n rule: hex_string.induct)
  case (1 n)
  show ?case
  proof (cases "n < 16")
    case True
    then show ?thesis
      using hextable_digit by (simp add: hex_string.simps [of n] hex_number_def)
  next
    case False
    then show ?thesis
      using 1 hextable_digit [of "n mod 16"] by (simp add: hex_string.simps [of n] hex_number_def zdiv_int zmod_int)
  qed
qed

lemma hex_string_digits: "list_all (\<lambda>h. hextable h \<noteq> -1) (hex_string n)"
proof (induction n rule: hex_string.induct)
  case (1 n)
  then show ?case
    using hextable_digit [of n] hextable_digit [of "n mod 16"] by (cases "n < 16") (simp_all add: hex_string.simps [of n])
qed

lemma hex_string_digits_length: "n < 16 ^ Suc k \<Longrightarrow> length (hex_string n) \<le> Suc k"
proof (induction k arbitrary: n)
  case 0
  then show ?case
    by (simp add: hex_string.simps [of n])
next
  case (Suc k)
  have "n div 16 < 16 ^ Suc k"
    using Suc.prems by (simp add: less_mult_imp_div_less)
  then show ?case
    using Suc.IH [of "n div 16"] by (simp add: hex_string.simps [of n])
qed

definition server_chunk :: "char list \<times> bool \<Rightarrow> te_chunk" where
  "server_chunk = (\<lambda>(d, l). \<lparr>size_digits = hex_string (length d), extension = None, chunk_data = d\<rparr>)"

lemma server_chunk_ok: "d \<noteq> [] \<Longrightarrow> length d \<le> BUF_SIZE \<Longrightarrow> size_line_ok (server_chunk (d, l)) \<and> chunk_data (server_chunk (d, l)) \<noteq> []"
  using hex_string_digits_length [of "length d" 7] hex_string_number [of "length d"] hex_string_digits [of "length d"]
  by (auto simp: server_chunk_def size_line_ok_def INT_MAX_def BUF_SIZE_def hex_string.simps [of "length d"])

lemma pieces_ok: "list_all (\<lambda>c. size_line_ok c \<and> chunk_data c \<noteq> []) (map server_chunk (pieces xs))"
proof (induction xs rule: pieces.induct)
  case (1 xs)
  then show ?case
    using server_chunk_ok [of "take BUF_SIZE xs"] by (cases "xs = []") (simp_all add: pieces.simps [of xs] BUF_SIZE_def)
qed

lemma frames_pieces:
  "xs \<noteq> [] \<Longrightarrow> frames (pieces xs) = concat (map chunk_text (map server_chunk (pieces xs))) @ end_text"
proof (induction xs rule: pieces.induct)
  case (1 xs)
  have one: "chunk_frame (take BUF_SIZE xs) = chunk_text (server_chunk (take BUF_SIZE xs, l))" for l
    using 1 by (simp add: chunk_frame_def chunk_text_def server_chunk_def head_text_def size_line_def BUF_SIZE_def)
  show ?case
  proof (cases "length xs \<le> BUF_SIZE")
    case True
    then show ?thesis
      using 1 one by (simp add: pieces.simps [of xs] frames_def fin_def)
  next
    case False
    then show ?thesis
      using 1 one by (simp add: pieces.simps [of xs] frames_def fin_def)
  qed
qed

lemma concat_server_chunks: "concat (map chunk_data (map server_chunk ps)) = bytes_of ps"
  by (induction ps) (auto simp: server_chunk_def bytes_of_def)

lemma fold_frames:
  assumes "xs \<noteq> []"
  shows "foldl te_byte (Run HTTP1TEPARSER_CHUNKSIZE [] n k pl) (frames (pieces xs)) = Stop HTTP1TEPARSER_COMPLETE (pl @ xs)"
proof -
  have "frames (pieces xs) = chunked_text (map server_chunk (pieces xs)) zero_chunk []"
    using frames_pieces [OF assms] by (simp add: chunked_text_def zero_chunk_def size_line_def end_text_def)
  moreover have "chunked_ok (map server_chunk (pieces xs)) zero_chunk []"
    using pieces_ok [of xs]
    by (simp add: chunked_ok_def zero_chunk_def size_line_ok_def hex_number_def hextable_def INT_MAX_def)
  ultimately show ?thesis
    by (simp only: fold_chunked concat_server_chunks bytes_of_pieces)
qed

text \<open>
  Property C11. Round trip over the chunked coding, from the server's filters to the client's parser. A non-empty body that
  the chain sends chunked, over any sequence of write events in which the socket keeps accepting bytes, is what
  the transfer-encoding parser of the client gives back, however the network divides the bytes into reads; the
  parser stops at the end of the terminating chunk.
\<close>

theorem chunked_body_round_trip:
  assumes st: "chain_start base content request st" and gz: "gzip_passes (chain_response st)"
    and ck: "\<not> chunked_passes (chain_response st)" and ne: "content \<noteq> []"
    and m: "never_fails m" and evs: "evs \<noteq> []" "\<not> breaks (concat evs)" "length (frames (pieces content)) \<le> wrotes (concat evs)"
    and e: "te_env_good e" and p0: "length (static_buffer (te_buf p0)) = BUFFERDATA_SIZE"
  shows "\<exists>st1. body_events zl m request evs st = Some (CWF_OK, st1) \<and>
    (\<forall>reads. concat reads = drop (length base) (sent (chain_net st1)) \<and> list_all (\<lambda>d. length d < 2 ^ 63) reads \<longrightarrow>
      returns (do { p \<leftarrow> httpteparser_init zero p0; te_feed e reads p })
        (\<lambda>(s, q). s = HTTP1TEPARSER_COMPLETE \<and> payload q = payload p0 @ content))"
proof -
  have "low_wire base zl (chain_gzip st) (chain_response st) (pieces content) = base @ frames (pieces content)"
    using gz ck by (simp add: low_wire_def gzip_wire_def chunked_wire_def)
  then obtain c st1 rest where b: "body_events zl m request evs st = Some (c, st1)"
      "sent (chain_net st1) @ rest = base @ frames (pieces content)" "c = CWF_OK \<longrightarrow> rest = []" "c = CWF_OK"
    using body_events_start [OF st refl takes_pieces [OF gz], of zl m evs] m evs by auto
  obtain p where p: "httpteparser_init zero p0 = Some p" "te_inv p"
    "te_abs p = Run HTTP1TEPARSER_CHUNKSIZE [] 0 0 (payload p0)"
    using httpteparser_init_spec [OF p0] by blast
  have "returns (te_feed e reads p) (\<lambda>(s, q). s = HTTP1TEPARSER_COMPLETE \<and> payload q = payload p0 @ content)"
    if r: "concat reads = drop (length base) (sent (chain_net st1))" "list_all (\<lambda>d. length d < 2 ^ 63) reads" for reads
  proof (rule returns_mono [OF te_feed_refines [OF e p(2) r(2)]])
    have "concat reads = frames (pieces content)"
      using b r(1) by simp
    then have "foldl te_byte (te_abs p) (concat reads) = Stop HTTP1TEPARSER_COMPLETE (payload p0 @ content)"
      using fold_frames [OF ne] p(3) by simp
    then show "case t of (s, q) \<Rightarrow> s = HTTP1TEPARSER_COMPLETE \<and> payload q = payload p0 @ content"
      if "case t of (s, q) \<Rightarrow> te_outcome (foldl te_byte (te_abs p) (concat reads)) s q" for t
      using that by (auto simp: te_outcome_def te_abs_def split: if_splits)
  qed
  then show ?thesis
    using b p(1) by (intro exI [of _ st1]) simp
qed

section \<open>Concrete responses\<close>

definition demo_body :: "char list \<Rightarrow> bufo" where
  "demo_body content = \<lparr>bdata = Some content, capacity = length content, bsize = length content, pos = 0, is_proxy = False, is_last = False\<rparr>"

definition demo_response :: "http_trunsfer_encoding \<Rightarrow> http_content_encoding \<Rightarrow> char list \<Rightarrow> httpresponse" where
  "demo_response te ce content = \<lparr>headers = [], content_length = 0, body = demo_body content,
     rfile = \<lparr>fd = -1, file_size = 0, mtime = 0, file_content = [], pread_answers = []\<rparr>, status = 200, transfer_encoding = te,
     content_encoding = ce, headers_sended = True, range_flag = False, last_modified = False\<rparr>"

definition demo_buffer :: bufo where
  "demo_buffer = \<lparr>bdata = Some (replicate BUF_SIZE nul), capacity = BUF_SIZE, bsize = 0, pos = 0, is_proxy = False, is_last = False\<rparr>"

definition demo_proxy :: bufo where
  "demo_proxy = \<lparr>bdata = None, capacity = BUF_SIZE, bsize = 0, pos = 0, is_proxy = True, is_last = False\<rparr>"

definition demo_gzip :: "unit gzip" where
  "demo_gzip = \<lparr>is_deflate_init = 0, status_code = Z_OK, zstream = (), next_in = [], avail_out = 0\<rparr>"

definition demo_range :: http_module_range where
  "demo_range = \<lparr>range_cont = False, range_buf = demo_buffer, range_size = 0, range_pos = 0, range_start = 0, unsatisfiable = False,
     mp_active = False, parts = [], part_index = 0, mp_state = MP_STATE_TEXT, mp_total = 0, data_pos = 0, part_ctype = None, mp_text = None,
     text_pos = 0, boundary = []\<rparr>"

definition demo_chain :: "httpresponse \<Rightarrow> char list \<Rightarrow> unit chain" where
  "demo_chain r base = (r, demo_range, \<lparr>data_cont = False, data_parent = None, proxy_body_buf = demo_proxy, file_offset = 0\<rparr>,
     \<lparr>gzip_cont = False, gzip_buf = demo_buffer, gzip_state = demo_gzip\<rparr>,
     \<lparr>chunked_cont = False, chunked_done = False, chunked_buf = demo_buffer, chunked_state = HTTP_MODULE_CHUNKED_SIZE, state_pos = 0,
       chunk_head = None, chunk_head_size = 0, current_chunk_size = 0\<rparr>,
     \<lparr>answers = [], sent = base, event_again = False\<rparr>)"

lemma demo_start:
  assumes "content \<noteq> []" and "length content < 2 ^ 63"
  shows "chain_start base content None (demo_chain (demo_response te ce content) base)"
  using assms by (simp add: chain_start_def demo_chain_def plain_body_def demo_response_def data_src_def demo_body_def unread_def
      readable_def demo_proxy_def chunked_idle_def allocated_def demo_buffer_def gz_alloc_def)

lemma wrotes_replicate: "wrotes (replicate n (Wrote k)) = n"
  by (induction n) simp_all

lemma demo_chain_response [simp]: "chain_response (demo_chain r base) = r"
  by (simp add: chain_response_def demo_chain_def)


theorem chunked_body_round_trip_witness:
  "\<exists>st1. body_events null_zlib (total_allocator (\<lambda>_ _. nul)) None [replicate 7 (Wrote 0), replicate 9 (Wrote 0)]
      (demo_chain (demo_response TE_CHUNKED CE_NONE ''hello'') ''head'') = Some (CWF_OK, st1) \<and>
    returns (do { p \<leftarrow> httpteparser_init () blank_te;
                  te_feed (plain_te_env False) (map (\<lambda>c. [c]) (drop (length ''head'') (sent (chain_net st1)))) p })
      (\<lambda>(s, q). s = HTTP1TEPARSER_COMPLETE \<and> payload q = payload blank_te @ ''hello'')"
proof -
  let ?evs = "[replicate 7 (Wrote 0), replicate 9 (Wrote 0)]"
  have "frames (pieces ''hello'') = ''5'' @ [CR, LF] @ ''hello'' @ [CR, LF] @ ''0'' @ [CR, LF, CR, LF]"
    by (simp add: pieces.simps BUF_SIZE_def frames_def chunk_frame_def head_text_def hex_string.simps fin_def end_text_def)
  then have evs: "?evs \<noteq> []" "\<not> breaks (concat ?evs)" "length (frames (pieces ''hello'')) \<le> wrotes (concat ?evs)"
    by (simp_all add: breaks_def wrotes_replicate)
  have st: "chain_start ''head'' ''hello'' None (demo_chain (demo_response TE_CHUNKED CE_NONE ''hello'') ''head'')"
    by (rule demo_start) simp_all
  have "te_env_good (plain_te_env False)"
    by (simp add: te_env_good_def plain_te_env_def null_zlib_ok)
  then obtain st1 where r: "body_events null_zlib (total_allocator (\<lambda>_ _. nul)) None ?evs
        (demo_chain (demo_response TE_CHUNKED CE_NONE ''hello'') ''head'') = Some (CWF_OK, st1)"
      "\<And>reads. concat reads = drop (length ''head'') (sent (chain_net st1)) \<Longrightarrow> list_all (\<lambda>d. length d < 2 ^ 63) reads \<Longrightarrow>
        returns (do { p \<leftarrow> httpteparser_init () blank_te; te_feed (plain_te_env False) reads p })
          (\<lambda>(s, q). s = HTTP1TEPARSER_COMPLETE \<and> payload q = payload blank_te @ ''hello'')"
    using chunked_body_round_trip [OF st _ _ _ _ evs _ blank_te_size, of "total_allocator (\<lambda>_ _. nul)" "plain_te_env False" null_zlib "()"]
    by (auto simp: demo_response_def gzip_passes_def chunked_passes_def simp del: body_events.simps)
  have "concat (map (\<lambda>c. [c]) w) = w \<and> list_all (\<lambda>d. length d < 2 ^ 63) (map (\<lambda>c. [c]) w)" for w :: "char list"
    by (induction w) simp_all
  then show ?thesis
    using r by blast
qed

text \<open>A compressor that copies.\<close>

definition copy_zlib :: "unit zlib" where
  "copy_zlib = null_zlib\<lparr>deflate := (\<lambda>z inp n final. (if final \<and> length inp < n then Z_STREAM_END else Z_OK, min n (length inp), take n inp, z))\<rparr>"


end
