(* ===== verification/Spec2Isabelle.thy ===== *)
theory Spec2Isabelle
  imports Prelude Interfaces Bufferdata Helpers Map_Tree Hashmap Array Str
    Bufo Ws_Utf8 Ws_Response Ws_Parser Ws_Safety Ws_Handlers Ws_Write Ws_Decode Ws_Stream Gzip Http_Te Http_Chain
begin

text \<open>
  \<^bold>\<open>Verification of the C web framework.\<close>

  The program is an HTTP and WebSocket server framework in C. Its lowest layer (\<^verbatim>\<open>src/misc\<close>) holds
  the containers and byte buffers all other parts build on; the protocol layer
  (\<^verbatim>\<open>src/protocols\<close>) holds incremental parsers, response builders and event handlers; the server
  (\<^verbatim>\<open>src/src\<close>) and the framework (\<^verbatim>\<open>src/framework\<close>) put them together.

  \<^bold>\<open>Conventions of the model\<close> (theory \<open>Prelude\<close>). A byte is a \<open>char\<close>, a memory block a list of bytes; a
  read or write outside a block, a dereference of a null pointer and a loop that never ends are the
  value \<open>None\<close>, so \<open>returns x P\<close> (\<open>x\<close> is \<open>Some\<close> of a value with \<open>P\<close>) is total correctness together with
  memory safety. \<open>size_t\<close> is a natural number with its arithmetic written out modulo \<open>2 ^ 64\<close>
  (\<open>szadd\<close>, \<open>szmul\<close>, \<open>szsub\<close>). The allocator is a parameter that may fail at any call; error returns of
  the C functions are values. Code that is not part of the repository (zlib, system calls,
  handlers of the application) is a parameter, with what the code relies on as a hypothesis.

  \<^bold>\<open>Contracts\<close> (theory \<open>Interfaces\<close>): the locales \<open>byte_buffer\<close>, \<open>reliable_byte_buffer\<close> and \<open>kv_store\<close>
  and their consequences; they are interpreted on the models of \<^verbatim>\<open>bufferdata\<close>, \<^verbatim>\<open>str\<close>, \<^verbatim>\<open>map\<close> and
  \<^verbatim>\<open>hashmap\<close> in the theories of these components.

  \<^bold>\<open>Containers and strings.\<close>
  \<^item> \<open>Bufferdata\<close> (\<^verbatim>\<open>misc/bufferdata.c\<close>): the buffer parsers collect bytes in, static first, then
    on the heap. Memory safety and content of every sequence of operations.
  \<^item> \<open>Bufo\<close> (\<^verbatim>\<open>misc/bufo.c\<close>): the output buffer. Its type invariant after any operations; appending
    and draining is the identity.
  \<^item> \<open>Map_Tree\<close> (\<^verbatim>\<open>misc/map.c\<close>): the red-black tree. Every sequence of operations refines a finite map,
    keys stay sorted and the tree balanced, iteration visits every entry once in order, every value
    is released exactly once, lookup takes logarithmically many steps.
  \<^item> \<open>Hashmap\<close> (\<^verbatim>\<open>misc/hashmap.c\<close>): the chained hash table with resizing, against the same contract; its
    string hash is FNV-1a on 7-bit strings.
  \<^item> \<open>Array\<close> (\<^verbatim>\<open>misc/array.c\<close>): the growable array of tagged values, with the ownership of strings and
    objects. \<open>Str\<close> (\<^verbatim>\<open>misc/str.c\<close>): the string object with its inline buffer, refined to lists of
    bytes.
  \<^item> \<open>Helpers\<close> (\<^verbatim>\<open>misc/helpers.c\<close>): URL and hexadecimal coding, the path traversal test, comparisons.

  \<^bold>\<open>WebSockets.\<close>
  \<^item> \<open>Ws_Utf8\<close> (\<^verbatim>\<open>protocols/websocket/ws_utf8.h\<close>): the streaming validator accepts exactly RFC 3629.
  \<^item> \<open>Ws_Response\<close> (\<^verbatim>\<open>protocols/websocket/websocketsresponse.c\<close>): frames of the server can be read back;
    the path of a file response stays below the root.
  \<^item> \<open>Ws_Parser\<close> (\<^verbatim>\<open>protocols/websocket/server/parsers/websocketsparser.c\<close> and the default protocol):
    the incremental frame parser, definitions only. \<open>ws_step\<close> is the body of the loop of
    \<open>websocketsparser_run\<close>; the trace \<open>events\<close> records the creation and release of requests.
    \<open>Ws_Safety\<close> has its invariant \<open>ws_inv\<close> and shows that every step keeps it.
  \<^item> \<open>Ws_Handlers\<close> (\<^verbatim>\<open>protocols/websocket/server/websocketsserverhandlers.c\<close>): the read event. For any
    input and any failures the events end, stay inside their buffers and balance their requests.
  \<^item> \<open>Ws_Write\<close> (the same file): the write event sends a response completely and in order.
  \<^item> \<open>Ws_Decode\<close> and \<open>Ws_Stream\<close>: the parser as a decoder. A stream of client messages in any
    division into reads is delivered message by message. The theory also shows where the parser
    resumes behind a fragment that ends with its read, which is not where the next frame begins.

  \<^bold>\<open>Loops and fuel.\<close> No model uses fuel: loops over data are structural recursion or have a measure,
  loops that depend on the environment (\<open>write_loop\<close>, \<open>ws_loop\<close>, \<open>ws_frames\<close>) are partial functions whose
  results are proved to be \<open>Some\<close>.

  \<^bold>\<open>Not modelled.\<close> Threads and locks (every operation runs to its end, as under the lock the code
  holds), system calls, the database drivers, OpenSSL, zlib and PCRE, and the parts of the
  framework on top of them: configuration, module loader, models, sessions, storage, views, mail.
  Of the WebSocket part, the resource protocol, the handshake and the queues of deferred
  responses are left out.
\<close>

end
